(* ===== verification/Prelude.thy ===== *)
theory Prelude
  imports Main "HOL-Library.Multiset" "HOL-Library.Sublist"
begin

text \<open>
  Shared notions of the development: the lemma collections, the result type of code that
  can raise, decimal printing as in Python's f-strings, and the facts on sums and lists
  that several components use.
\<close>

section \<open>Lemma collections\<close>

named_theorems step_defs \<open>definitions of the steps and handlers\<close>
named_theorems frame \<open>what an operation leaves unchanged\<close>

section \<open>Results of code that can raise\<close>

text \<open>
  A computation that can raise is a sum: \<open>Inl e\<close> is the raised exception, \<open>Inr x\<close> the
  returned value. \<open>and_then\<close> sequences two such computations; the second one does not
  run when the first one raises.
\<close>

definition and_then :: "'e + 'a \<Rightarrow> ('a \<Rightarrow> 'e + 'b) \<Rightarrow> 'e + 'b" where
  "and_then r f = (case r of Inl e \<Rightarrow> Inl e | Inr x \<Rightarrow> f x)"

lemma and_then_simps [simp]:
  "and_then (Inl e) f = Inl e"
  "and_then (Inr x) f = f x"
  by (simp_all add: and_then_def)

lemma and_then_Inr_iff: "and_then r f = Inr y \<longleftrightarrow> (\<exists>x. r = Inr x \<and> f x = Inr y)"
  by (cases r) simp_all

lemma and_then_Inl_iff:
  "and_then r f = Inl e \<longleftrightarrow> r = Inl e \<or> (\<exists>x. r = Inr x \<and> f x = Inl e)"
  by (cases r) simp_all

section \<open>Printing integers\<close>

fun str_nat :: "nat \<Rightarrow> string" where
  "str_nat n = (if n < 10 then [''0123456789'' ! n]
                else str_nat (n div 10) @ [''0123456789'' ! (n mod 10)])"

declare str_nat.simps [simp del]

definition str_int :: "int \<Rightarrow> string" where
  "str_int i = (if i < 0 then CHR ''-'' # str_nat (nat (- i)) else str_nat (nat i))"

section \<open>Sums over lists\<close>

text \<open>\<open>sum_on f xs\<close> adds up \<open>f\<close> over the elements of a list.\<close>

definition sum_on :: "('a \<Rightarrow> int) \<Rightarrow> 'a list \<Rightarrow> int" where
  "sum_on f xs = sum_list (map f xs)"

lemma sum_on_simps [simp]:
  "sum_on f [] = 0"
  "sum_on f (x # xs) = f x + sum_on f xs"
  "sum_on f (xs @ ys) = sum_on f xs + sum_on f ys"
  by (simp_all add: sum_on_def)

lemma sum_on_nonneg: "(\<And>x. x \<in> set xs \<Longrightarrow> 0 \<le> f x) \<Longrightarrow> 0 \<le> sum_on f xs"
  by (induction xs) auto

lemma sum_on_mset: "mset xs = mset ys \<Longrightarrow> sum_on f xs = sum_on f ys"
  by (metis mset_map sum_mset_sum_list sum_on_def)

lemma sum_on_filter_none: "(\<And>x. x \<in> set xs \<Longrightarrow> \<not> P x) \<Longrightarrow> sum_on f (filter P xs) = 0"
  by (induction xs) auto

lemma sum_on_member_le:
  "x \<in> set xs \<Longrightarrow> (\<And>y. y \<in> set xs \<Longrightarrow> 0 \<le> f y) \<Longrightarrow> f x \<le> sum_on f xs"
proof (induction xs)
  case Nil
  then show ?case by simp
next
  case (Cons y ys)
  then have "0 \<le> sum_on f ys" by (auto intro: sum_on_nonneg)
  with Cons show ?case by fastforce
qed

section \<open>Sorting by a key\<close>

lemma sort_key_Nil_iff [simp]: "sort_key f xs = [] \<longleftrightarrow> xs = []"
  by (metis length_0_conv length_sort)

end
