(* ===== verification/InventoryModels.thy ===== *)
theory InventoryModels
  imports Prelude
begin

text \<open>
  The inventory database: the tables of \<^verbatim>\<open>inventory_app/models.py\<close> with the constraints
  that the models and the migrations 0001, 0003 and 0004 declare, and the ORM statements
  that the service layer issues against them.

  A table is the list of its rows. A statement that the database refuses raises; the
  enclosing \<^verbatim>\<open>transaction.atomic()\<close> block then drops the working copy. Rows get their
  primary key from \<open>res_seq\<close>, and the reading of the system clock when reservation
  \<open>i\<close> is created is \<open>clk i\<close> for an arbitrary function \<open>clk\<close>. A string is the
  list of its code points.
\<close>

section \<open>Rows and tables\<close>

record product =
  p_id :: int
  p_sku :: string
  p_name :: string
  p_available :: int

datatype status = RESERVED | RELEASED

record reservation =
  r_id :: int
  r_product :: int
  r_order_ref :: string
  r_key :: string
  r_quantity :: int
  r_status :: status
  r_created :: int

text \<open>
  \<open>notified\<close> is the sequence of \<^verbatim>\<open>stock_changed\<close> notifications of the committed
  transactions, each with the payload's product id and quantity. \<^verbatim>\<open>pg_notify\<close> is
  transactional, so a transaction that rolls back notifies nobody.
\<close>

record inventory_db =
  products :: "product list"
  reservations :: "reservation list"
  res_seq :: int
  notified :: "(int \<times> int) list"

text \<open>
  The two exception classes the database raises here: \<^verbatim>\<open>IntegrityError\<close> (a constraint)
  and \<^verbatim>\<open>DataError\<close> (a value out of the column's range or longer than it).
\<close>

datatype db_error = IntegrityError | DataError

definition max_int4 :: int where
  "max_int4 = 2147483647"

section \<open>Statements on products\<close>

definition product_get :: "int \<Rightarrow> inventory_db \<Rightarrow> product option" where
  "product_get pk db = find (\<lambda>p. p_id p = pk) (products db)"

text \<open>
  The trigger of migration 0003: an update of \<open>available_quantity\<close> that changes the
  value notifies the channel; the \<^verbatim>\<open>WHEN\<close> guard skips one that does not.
\<close>

definition notify_stock_change :: "int \<Rightarrow> int \<Rightarrow> int \<Rightarrow> (int \<times> int) list" where
  "notify_stock_change pk old new = (if old \<noteq> new then [(pk, new)] else [])"

text \<open>
  \<^verbatim>\<open>UPDATE product SET available_quantity = f(available_quantity) WHERE id = pk\<close>: the
  column is a \<^verbatim>\<open>PositiveIntegerField\<close>, a four-byte integer with a check that it is not
  negative. An update that matches no row changes nothing.
\<close>

definition write_available :: "int \<Rightarrow> int \<Rightarrow> product list \<Rightarrow> product list" where
  "write_available v pk ps = map (\<lambda>q. if p_id q = pk then q\<lparr>p_available := v\<rparr> else q) ps"

definition update_available :: "(int \<Rightarrow> int) \<Rightarrow> int \<Rightarrow> inventory_db \<Rightarrow> db_error + inventory_db" where
  "update_available f pk db =
     (case product_get pk db of
        None \<Rightarrow> Inr db
      | Some p \<Rightarrow>
          let v = f (p_available p) in
          if v > max_int4 then Inl DataError
          else if v < 0 then Inl IntegrityError
          else Inr (db\<lparr>
            products := write_available v pk (products db),
            notified := notified db @ notify_stock_change pk (p_available p) v\<rparr>))"

section \<open>Statements on reservations\<close>

text \<open>
  The column limits of \<open>order_ref\<close> and \<open>idempotency_key\<close>. Texts are taken to contain no NUL
  character, which the driver refuses in any statement.
\<close>

definition fits :: "string \<Rightarrow> bool" where
  "fits s \<longleftrightarrow> length s \<le> 128"

text \<open>
  The partial unique index \<^verbatim>\<open>uniq_active_reservation_per_key_product\<close>: a row is indexed
  when it is \<open>RESERVED\<close> and its key is not empty.
\<close>

definition indexed :: "reservation \<Rightarrow> bool" where
  "indexed r \<longleftrightarrow> r_status r = RESERVED \<and> r_key r \<noteq> ''''"

definition index_conflict :: "reservation \<Rightarrow> reservation list \<Rightarrow> bool" where
  "index_conflict r rs \<longleftrightarrow> indexed r \<and>
     (\<exists>s \<in> set rs. indexed s \<and> r_key s = r_key r \<and> r_product s = r_product r)"

definition new_reservation ::
  "(int \<Rightarrow> int) \<Rightarrow> int \<Rightarrow> int \<Rightarrow> string \<Rightarrow> string \<Rightarrow> int \<Rightarrow> status \<Rightarrow> reservation" where
  "new_reservation clk i pid order_ref key qty st =
     \<lparr>r_id = i, r_product = pid, r_order_ref = order_ref, r_key = key, r_quantity = qty,
      r_status = st, r_created = clk i\<rparr>"

definition reservation_create ::
  "(int \<Rightarrow> int) \<Rightarrow> int \<Rightarrow> string \<Rightarrow> string \<Rightarrow> int \<Rightarrow> status \<Rightarrow> inventory_db
     \<Rightarrow> db_error + inventory_db" where
  "reservation_create clk pid order_ref key qty st db =
     (let r = new_reservation clk (res_seq db) pid order_ref key qty st in
      if \<not> fits order_ref \<or> \<not> fits key \<or> qty > max_int4 then Inl DataError
      else if qty < 0 \<or> index_conflict r (reservations db) then Inl IntegrityError
      else Inr (db\<lparr>reservations := reservations db @ [r], res_seq := res_seq db + 1\<rparr>))"

definition set_reservation_status :: "int \<Rightarrow> status \<Rightarrow> inventory_db \<Rightarrow> inventory_db" where
  "set_reservation_status i st db =
     db\<lparr>reservations :=
          map (\<lambda>r. if r_id r = i then r\<lparr>r_status := st\<rparr> else r) (reservations db)\<rparr>"

text \<open>The default ordering of the model is \<^verbatim>\<open>-created_at\<close>: newest first.\<close>

definition active_by_key :: "string \<Rightarrow> inventory_db \<Rightarrow> reservation list" where
  "active_by_key key db =
     sort_key (\<lambda>r. - r_created r)
       (filter (\<lambda>r. r_key r = key \<and> r_status r = RESERVED) (reservations db))"

definition active_by_order_ref :: "string \<Rightarrow> inventory_db \<Rightarrow> reservation list" where
  "active_by_order_ref order_ref db =
     sort_key r_product
       (filter (\<lambda>r. r_order_ref r = order_ref \<and> r_status r = RESERVED) (reservations db))"

section \<open>Quantities\<close>

text \<open>What the shop can still sell of a product, and what is held for orders.\<close>

definition available :: "inventory_db \<Rightarrow> int \<Rightarrow> int" where
  "available db pid = (case product_get pid db of None \<Rightarrow> 0 | Some p \<Rightarrow> p_available p)"

definition holds :: "int \<Rightarrow> reservation \<Rightarrow> bool" where
  "holds pid r \<longleftrightarrow> r_product r = pid \<and> r_status r = RESERVED"

definition held :: "inventory_db \<Rightarrow> int \<Rightarrow> int" where
  "held db pid = sum_on r_quantity (filter (holds pid) (reservations db))"

definition held_for :: "inventory_db \<Rightarrow> string \<Rightarrow> int \<Rightarrow> int" where
  "held_for db order_ref pid =
     sum_on r_quantity (filter (\<lambda>r. holds pid r \<and> r_order_ref r = order_ref) (reservations db))"

definition stock :: "inventory_db \<Rightarrow> int \<Rightarrow> int" where
  "stock db pid = available db pid + held db pid"

definition known :: "inventory_db \<Rightarrow> int \<Rightarrow> bool" where
  "known db pid \<longleftrightarrow> product_get pid db \<noteq> None"

section \<open>The database invariant\<close>

text \<open>
  What the schema enforces (keys, ranges, the unique index, the foreign key) together with
  what the service layer keeps: a reservation's quantity is positive, and the stock of a
  product, held lines included, fits the column, so that a release can always return it.
\<close>

definition index_ok :: "reservation list \<Rightarrow> bool" where
  "index_ok rs \<longleftrightarrow> distinct (map (\<lambda>r. (r_key r, r_product r)) (filter indexed rs))"

definition db_ok :: "inventory_db \<Rightarrow> bool" where
  "db_ok db \<longleftrightarrow>
     distinct (map p_id (products db)) \<and>
     distinct (map p_sku (products db)) \<and>
     distinct (map r_id (reservations db)) \<and>
     (\<forall>r \<in> set (reservations db). r_id r < res_seq db \<and> 0 < r_quantity r
        \<and> known db (r_product r) \<and> fits (r_order_ref r) \<and> fits (r_key r)) \<and>
     (\<forall>p \<in> set (products db). 0 \<le> p_available p) \<and>
     (\<forall>p \<in> set (products db). stock db (p_id p) \<le> max_int4) \<and>
     index_ok (reservations db)"

lemma db_okD:
  assumes "db_ok db"
  shows "distinct (map p_id (products db))"
    and "distinct (map p_sku (products db))"
    and "distinct (map r_id (reservations db))"
    and "index_ok (reservations db)"
    and "p \<in> set (products db) \<Longrightarrow> 0 \<le> p_available p"
    and "p \<in> set (products db) \<Longrightarrow> stock db (p_id p) \<le> max_int4"
    and "r \<in> set (reservations db) \<Longrightarrow> r_id r < res_seq db"
    and "r \<in> set (reservations db) \<Longrightarrow> 0 < r_quantity r"
    and "r \<in> set (reservations db) \<Longrightarrow> known db (r_product r)"
    and "r \<in> set (reservations db) \<Longrightarrow> fits (r_order_ref r) \<and> fits (r_key r)"
  using assms by (auto simp: db_ok_def)

lemma db_okI:
  assumes "distinct (map p_id (products db))" and "distinct (map p_sku (products db))"
    and "distinct (map r_id (reservations db))"
    and "\<And>r. r \<in> set (reservations db) \<Longrightarrow> r_id r < res_seq db"
    and "\<And>r. r \<in> set (reservations db) \<Longrightarrow> 0 < r_quantity r"
    and "\<And>r. r \<in> set (reservations db) \<Longrightarrow> known db (r_product r)"
    and "\<And>r. r \<in> set (reservations db) \<Longrightarrow> fits (r_order_ref r) \<and> fits (r_key r)"
    and "\<And>p. p \<in> set (products db) \<Longrightarrow> 0 \<le> p_available p"
    and "\<And>pid. stock db pid \<le> max_int4"
    and "index_ok (reservations db)"
  shows "db_ok db"
  using assms by (simp add: db_ok_def)

section \<open>Facts on the statements\<close>

lemma product_get_SomeD:
  assumes "product_get pk db = Some p"
  shows "p \<in> set (products db)" and "p_id p = pk"
  using assms by (auto simp: product_get_def find_Some_iff)

lemma known_iff: "known db pid \<longleftrightarrow> pid \<in> p_id ` set (products db)"
  by (auto simp: known_def product_get_def find_None_iff)

lemma product_get_member:
  "distinct (map p_id (products db)) \<Longrightarrow> p \<in> set (products db)
     \<Longrightarrow> product_get (p_id p) db = Some p"
proof -
  have "distinct (map p_id ps) \<Longrightarrow> p \<in> set ps \<Longrightarrow> find (\<lambda>q. p_id q = p_id p) ps = Some p"
    for ps :: "product list"
    by (induction ps) (auto simp: image_iff)
  then show "distinct (map p_id (products db)) \<Longrightarrow> p \<in> set (products db) \<Longrightarrow> ?thesis"
    by (simp add: product_get_def)
qed

lemma available_Some [simp]: "product_get pid db = Some p \<Longrightarrow> available db pid = p_available p"
  by (simp add: available_def)

lemma available_unknown [simp]: "\<not> known db pid \<Longrightarrow> available db pid = 0"
  by (simp add: available_def known_def)

lemma available_nonneg: "db_ok db \<Longrightarrow> 0 \<le> available db pid"
  by (auto simp: available_def db_ok_def dest: product_get_SomeD split: option.splits)

lemma held_nonneg: "db_ok db \<Longrightarrow> 0 \<le> held db pid"
  unfolding held_def by (rule sum_on_nonneg) (auto dest: db_okD(8) intro: order_less_imp_le)

lemma held_unknown: "db_ok db \<Longrightarrow> \<not> known db pid \<Longrightarrow> held db pid = 0"
  unfolding held_def
  by (rule sum_on_filter_none) (auto simp: holds_def dest: db_okD(9))

lemma stock_bound: "db_ok db \<Longrightarrow> stock db pid \<le> max_int4"
proof (cases "known db pid")
  case True
  then show "db_ok db \<Longrightarrow> ?thesis" by (auto simp: known_iff dest: db_okD(6))
next
  case False
  then show "db_ok db \<Longrightarrow> ?thesis" by (simp add: stock_def held_unknown max_int4_def)
qed

lemma products_available_nonneg:
  assumes "distinct (map p_id (products db))" and "\<And>pid. known db pid \<Longrightarrow> 0 \<le> available db pid"
    and "p \<in> set (products db)"
  shows "0 \<le> p_available p"
proof -
  have "product_get (p_id p) db = Some p" using assms(1,3) by (rule product_get_member)
  then show ?thesis using assms(2) [of "p_id p"] by (simp add: known_def)
qed

lemma write_available_ids [simp]:
  "map p_id (write_available v pk ps) = map p_id ps"
  "map p_sku (write_available v pk ps) = map p_sku ps"
  "map p_name (write_available v pk ps) = map p_name ps"
  by (simp_all add: write_available_def)

lemma find_write_available:
  "find (\<lambda>p. p_id p = pid) (write_available v pk ps) =
     map_option (\<lambda>q. if pid = pk then q\<lparr>p_available := v\<rparr> else q) (find (\<lambda>p. p_id p = pid) ps)"
  unfolding write_available_def by (induction ps) auto

lemma update_available_Inr:
  assumes "update_available f pk db = Inr db'" and "product_get pk db = Some p"
  shows "0 \<le> f (p_available p)" and "f (p_available p) \<le> max_int4"
    and "products db' = write_available (f (p_available p)) pk (products db)"
    and "reservations db' = reservations db" and "res_seq db' = res_seq db"
    and "notified db' = notified db @ notify_stock_change pk (p_available p) (f (p_available p))"
  using assms by (auto simp: update_available_def Let_def split: if_splits)

lemma reservation_create_Inr:
  assumes "reservation_create clk pid order_ref key qty st db = Inr db'"
  defines "r \<equiv> new_reservation clk (res_seq db) pid order_ref key qty st"
  shows "products db' = products db" and "reservations db' = reservations db @ [r]"
    and "res_seq db' = res_seq db + 1" and "notified db' = notified db"
    and "fits order_ref" and "fits key" and "0 \<le> qty" and "\<not> index_conflict r (reservations db)"
  using assms by (auto simp: reservation_create_def Let_def split: if_splits)

lemma set_reservation_status_frame [simp]:
  "products (set_reservation_status i st db) = products db"
  "res_seq (set_reservation_status i st db) = res_seq db"
  "notified (set_reservation_status i st db) = notified db"
  by (simp_all add: set_reservation_status_def)

end
