(* ===== verification/ReserveStock.thy ===== *)
theory ReserveStock
  imports InventoryModels
begin

text \<open>
  \<^verbatim>\<open>reserve_stock\<close> of \<^verbatim>\<open>inventory_app/services.py\<close>: the replay check, the loop over the
  sorted lines inside one transaction, the rollback of an incomplete reservation and the
  \<^verbatim>\<open>IntegrityError\<close> handler.
\<close>

section \<open>Dataclasses\<close>

record reserve_item =
  ri_product :: int
  ri_quantity :: int

record item_outcome =
  io_product :: int
  io_reserved :: bool
  io_reason :: string

record reservation_outcome =
  ro_success :: bool
  ro_results :: "item_outcome list"

abbreviation reserved_outcome :: "int \<Rightarrow> item_outcome" where
  "reserved_outcome pid \<equiv> \<lparr>io_product = pid, io_reserved = True, io_reason = ''''\<rparr>"

abbreviation refused_outcome :: "int \<Rightarrow> string \<Rightarrow> item_outcome" where
  "refused_outcome pid reason \<equiv> \<lparr>io_product = pid, io_reserved = False, io_reason = reason\<rparr>"

lemma products_of_reserved [simp]:
  "map io_product (map (reserved_outcome \<circ> f) xs) = map f xs"
  "image_mset io_product (image_mset (reserved_outcome \<circ> f) M) = image_mset f M"
  by (simp_all add: multiset.map_comp comp_def)

section \<open>The loop over the lines\<close>

text \<open>
  The state of the loop: the transaction's working copy of the database, the outcomes so
  far and the flag \<^verbatim>\<open>all_ok\<close>.
\<close>

record reserve_state =
  rs_db :: inventory_db
  rs_outcomes :: "item_outcome list"
  rs_all_ok :: bool

definition insufficient_reason :: "int \<Rightarrow> int \<Rightarrow> string" where
  "insufficient_reason requested avail =
     ''insufficient stock: requested '' @ str_int requested @ '', available '' @ str_int avail"

definition refuse_line :: "reserve_item \<Rightarrow> string \<Rightarrow> reserve_state \<Rightarrow> reserve_state" where
  "refuse_line item reason t =
     t\<lparr>rs_outcomes := rs_outcomes t @ [refused_outcome (ri_product item) reason],
       rs_all_ok := False\<rparr>"

definition reserve_line ::
  "(int \<Rightarrow> int) \<Rightarrow> string \<Rightarrow> string \<Rightarrow> reserve_item \<Rightarrow> reserve_state \<Rightarrow> db_error + reserve_state" where
  "reserve_line clk order_ref key item t =
     (if ri_quantity item \<le> 0 then Inr (refuse_line item ''quantity must be positive'' t)
      else case product_get (ri_product item) (rs_db t) of
        None \<Rightarrow> Inr (refuse_line item ''product not found'' t)
      | Some p \<Rightarrow>
          if p_available p < ri_quantity item then
            Inr (refuse_line item (insufficient_reason (ri_quantity item) (p_available p)) t)
          else
            and_then (update_available (\<lambda>_. p_available p - ri_quantity item) (p_id p) (rs_db t))
              (\<lambda>db1. and_then
                 (reservation_create clk (p_id p) order_ref key (ri_quantity item) RESERVED db1)
                 (\<lambda>db2. Inr (t\<lparr>rs_db := db2,
                    rs_outcomes := rs_outcomes t @ [reserved_outcome (ri_product item)]\<rparr>))))"

fun reserve_lines ::
  "(int \<Rightarrow> int) \<Rightarrow> string \<Rightarrow> string \<Rightarrow> reserve_item list \<Rightarrow> reserve_state
     \<Rightarrow> db_error + reserve_state" where
  "reserve_lines clk order_ref key [] t = Inr t"
| "reserve_lines clk order_ref key (item # items) t =
     and_then (reserve_line clk order_ref key item t) (reserve_lines clk order_ref key items)"

section \<open>The function\<close>

definition replayed :: "string \<Rightarrow> inventory_db \<Rightarrow> reservation list" where
  "replayed key db = (if key \<noteq> '''' then active_by_key key db else [])"

definition reserve_stock ::
  "(int \<Rightarrow> int) \<Rightarrow> string \<Rightarrow> reserve_item list \<Rightarrow> string \<Rightarrow> inventory_db
     \<Rightarrow> (db_error + reservation_outcome) \<times> inventory_db" where
  "reserve_stock clk order_ref items key db =
     (if items = [] then (Inr \<lparr>ro_success = False, ro_results = []\<rparr>, db)
      else
        let items = sort_key ri_product items; prior = replayed key db in
        if prior \<noteq> [] then
          (Inr \<lparr>ro_success = True, ro_results = map (\<lambda>r. reserved_outcome (r_product r)) prior\<rparr>, db)
        else
          case reserve_lines clk order_ref key items \<lparr>rs_db = db, rs_outcomes = [], rs_all_ok = True\<rparr> of
            Inl IntegrityError \<Rightarrow>
              (Inr \<lparr>ro_success = False,
                    ro_results = map (\<lambda>item. refused_outcome (ri_product item)
                                       ''duplicate reservation in progress'') items\<rparr>, db)
          | Inl DataError \<Rightarrow> (Inl DataError, db)
          | Inr t \<Rightarrow>
              (Inr \<lparr>ro_success = rs_all_ok t, ro_results = rs_outcomes t\<rparr>,
               if rs_all_ok t then rs_db t else db))"

section \<open>The accepted line\<close>

text \<open>
  What the loop body does, as a case distinction on the line alone: a line that does not
  fit is refused with its reason, a line whose (key, product) pair is already active raises,
  any other line moves its quantity from the product to a new reservation.
\<close>

definition line_fits :: "reserve_item \<Rightarrow> inventory_db \<Rightarrow> bool" where
  "line_fits item db \<longleftrightarrow> 0 < ri_quantity item \<and> known db (ri_product item)
     \<and> ri_quantity item \<le> available db (ri_product item)"

definition claimed :: "string \<Rightarrow> inventory_db \<Rightarrow> int set" where
  "claimed key db =
     r_product ` set (filter (\<lambda>s. indexed s \<and> r_key s = key) (reservations db))"

definition line_reason :: "reserve_item \<Rightarrow> inventory_db \<Rightarrow> string" where
  "line_reason item db =
     (if ri_quantity item \<le> 0 then ''quantity must be positive''
      else if \<not> known db (ri_product item) then ''product not found''
      else insufficient_reason (ri_quantity item) (available db (ri_product item)))"

definition line_row ::
  "(int \<Rightarrow> int) \<Rightarrow> string \<Rightarrow> string \<Rightarrow> reserve_item \<Rightarrow> int \<Rightarrow> reservation" where
  "line_row clk order_ref key item i =
     new_reservation clk i (ri_product item) order_ref key (ri_quantity item) RESERVED"

definition take_line ::
  "(int \<Rightarrow> int) \<Rightarrow> string \<Rightarrow> string \<Rightarrow> reserve_item \<Rightarrow> inventory_db \<Rightarrow> inventory_db" where
  "take_line clk order_ref key item db =
     (let v = available db (ri_product item) - ri_quantity item in
      db\<lparr>products := write_available v (ri_product item) (products db),
         reservations := reservations db @ [line_row clk order_ref key item (res_seq db)],
         res_seq := res_seq db + 1,
         notified := notified db @ [(ri_product item, v)]\<rparr>)"

lemma line_row_sel [simp]:
  "r_id (line_row clk order_ref key item i) = i"
  "r_product (line_row clk order_ref key item i) = ri_product item"
  "r_order_ref (line_row clk order_ref key item i) = order_ref"
  "r_key (line_row clk order_ref key item i) = key"
  "r_quantity (line_row clk order_ref key item i) = ri_quantity item"
  "r_status (line_row clk order_ref key item i) = RESERVED"
  "r_created (line_row clk order_ref key item i) = clk i"
  by (simp_all add: line_row_def new_reservation_def)

lemma claimed_iff:
  "pid \<in> claimed key db \<longleftrightarrow>
     (\<exists>s \<in> set (reservations db). indexed s \<and> r_key s = key \<and> r_product s = pid)"
  by (auto simp: claimed_def)

lemma index_conflict_line_row:
  "index_conflict (line_row clk order_ref key item i) (reservations db) \<longleftrightarrow>
     key \<noteq> '''' \<and> ri_product item \<in> claimed key db"
  by (auto simp: index_conflict_def claimed_iff indexed_def)

lemma reserve_line_cases:
  assumes ok: "db_ok (rs_db t)" and "fits order_ref" and "fits key"
  shows "reserve_line clk order_ref key item t =
    (if \<not> line_fits item (rs_db t) then Inr (refuse_line item (line_reason item (rs_db t)) t)
     else if key \<noteq> '''' \<and> ri_product item \<in> claimed key (rs_db t) then Inl IntegrityError
     else Inr (t\<lparr>rs_db := take_line clk order_ref key item (rs_db t),
                 rs_outcomes := rs_outcomes t @ [reserved_outcome (ri_product item)]\<rparr>))"
proof (cases "line_fits item (rs_db t)")
  case False
  then show ?thesis
    by (auto simp: line_fits_def reserve_line_def line_reason_def known_def not_le not_less
        split: option.splits)
next
  case True
  then obtain p where p: "product_get (ri_product item) (rs_db t) = Some p"
    by (auto simp: line_fits_def known_def)
  have "p_available p \<le> max_int4"
    using stock_bound [OF ok, of "ri_product item"] held_nonneg [OF ok, of "ri_product item"] p
    by (simp add: stock_def)
  moreover note product_get_SomeD(2) [OF p]
  ultimately show ?thesis
    using True p assms(2,3)
    by (auto simp: reserve_line_def line_fits_def update_available_def reservation_create_def
        Let_def take_line_def notify_stock_change_def index_conflict_line_row claimed_def
        simp flip: line_row_def)
qed

subsection \<open>What taking a line changes\<close>

lemma take_line_sel [simp]:
  "reservations (take_line clk order_ref key item db) =
     reservations db @ [line_row clk order_ref key item (res_seq db)]"
  "res_seq (take_line clk order_ref key item db) = res_seq db + 1"
  "map p_id (products (take_line clk order_ref key item db)) = map p_id (products db)"
  "map p_sku (products (take_line clk order_ref key item db)) = map p_sku (products db)"
  by (simp_all add: take_line_def Let_def)

lemma take_line_known [simp]: "known (take_line clk order_ref key item db) pid = known db pid"
  by (metis known_iff list.set_map take_line_sel(3))

lemma take_line_available:
  "known db (ri_product item) \<Longrightarrow>
   available (take_line clk order_ref key item db) pid =
     available db pid - (if pid = ri_product item then ri_quantity item else 0)"
  by (auto simp: available_def product_get_def take_line_def Let_def find_write_available known_def
      split: option.splits)

lemma take_line_held:
  "held (take_line clk order_ref key item db) pid =
     held db pid + (if pid = ri_product item then ri_quantity item else 0)"
  by (simp add: held_def holds_def)

lemma take_line_held_for:
  "held_for (take_line clk order_ref key item db) r pid =
     held_for db r pid + (if pid = ri_product item \<and> r = order_ref then ri_quantity item else 0)"
  by (auto simp: held_for_def holds_def)

lemma take_line_stock:
  "known db (ri_product item) \<Longrightarrow> stock (take_line clk order_ref key item db) pid = stock db pid"
  by (simp add: stock_def take_line_available take_line_held)

lemma take_line_claimed:
  "key \<noteq> '''' \<Longrightarrow> claimed key (take_line clk order_ref key item db) =
     insert (ri_product item) (claimed key db)"
  by (auto simp: claimed_def indexed_def)

lemma take_line_index_ok:
  assumes "index_ok (reservations db)"
    and "key = '''' \<or> ri_product item \<notin> claimed key db"
  shows "index_ok (reservations (take_line clk order_ref key item db))"
  using assms by (auto simp: index_ok_def claimed_def indexed_def image_iff)

lemma take_line_db_ok:
  assumes ok: "db_ok db" and fit: "line_fits item db" and "fits order_ref" "fits key"
    and free: "key = '''' \<or> ri_product item \<notin> claimed key db"
  shows "db_ok (take_line clk order_ref key item db)" (is "db_ok ?db")
proof -
  from fit have known: "known db (ri_product item)" and pos: "0 < ri_quantity item"
    by (auto simp: line_fits_def)
  have seq: "r_id r < res_seq db" if "r \<in> set (reservations db)" for r
    using ok that by (rule db_okD(7))
  show ?thesis
  proof (rule db_okI)
    show "distinct (map r_id (reservations ?db))"
      using db_okD(3) [OF ok] seq by fastforce
    show "\<And>p. p \<in> set (products ?db) \<Longrightarrow> 0 \<le> p_available p"
      using ok fit available_nonneg [OF ok]
      by (auto simp: db_okD take_line_available known line_fits_def
          elim!: products_available_nonneg [rotated 2])
    show "index_ok (reservations ?db)"
      using db_okD(4) [OF ok] free by (rule take_line_index_ok)
  qed (use ok known pos assms(3,4) seq in
      \<open>auto simp: db_okD stock_bound take_line_stock intro: less_imp_le\<close>)
qed

section \<open>The loop in closed form\<close>

definition need :: "reserve_item list \<Rightarrow> int \<Rightarrow> int" where
  "need items pid = sum_on ri_quantity (filter (\<lambda>i. ri_product i = pid) items)"

definition feasible :: "reserve_item list \<Rightarrow> inventory_db \<Rightarrow> bool" where
  "feasible items db \<longleftrightarrow>
     (\<forall>i \<in> set items. 0 < ri_quantity i \<and> known db (ri_product i)
        \<and> need items (ri_product i) \<le> available db (ri_product i))"

definition key_free :: "string \<Rightarrow> reserve_item list \<Rightarrow> inventory_db \<Rightarrow> bool" where
  "key_free key items db \<longleftrightarrow> key = '''' \<or>
     (distinct (map ri_product items) \<and> (\<forall>i \<in> set items. ri_product i \<notin> claimed key db))"

fun take_lines ::
  "(int \<Rightarrow> int) \<Rightarrow> string \<Rightarrow> string \<Rightarrow> reserve_item list \<Rightarrow> inventory_db \<Rightarrow> inventory_db" where
  "take_lines clk order_ref key [] db = db"
| "take_lines clk order_ref key (item # items) db =
     take_lines clk order_ref key items (take_line clk order_ref key item db)"

fun line_rows ::
  "(int \<Rightarrow> int) \<Rightarrow> string \<Rightarrow> string \<Rightarrow> reserve_item list \<Rightarrow> int \<Rightarrow> reservation list" where
  "line_rows clk order_ref key [] i = []"
| "line_rows clk order_ref key (item # items) i =
     line_row clk order_ref key item i # line_rows clk order_ref key items (i + 1)"

lemma need_simps [simp]:
  "need [] pid = 0"
  "need (i # items) pid = (if ri_product i = pid then ri_quantity i else 0) + need items pid"
  by (simp_all add: need_def)

lemma need_absent: "pid \<notin> ri_product ` set items \<Longrightarrow> need items pid = 0"
  unfolding need_def by (rule sum_on_filter_none) auto

lemma need_nonneg: "\<forall>i \<in> set items. 0 < ri_quantity i \<Longrightarrow> 0 \<le> need items pid"
  unfolding need_def by (rule sum_on_nonneg) auto

lemma need_sort [simp]: "need (sort_key f items) pid = need items pid"
  unfolding need_def by (intro sum_on_mset) (simp add: mset_filter)

lemma feasible_Cons:
  assumes "db_ok db"
  shows "feasible (item # items) db \<longleftrightarrow>
    line_fits item db \<and> feasible items (take_line clk order_ref key item db)" (is "?L \<longleftrightarrow> ?R")
proof
  assume L: ?L
  then have "0 \<le> need items (ri_product item)" by (intro need_nonneg) (simp add: feasible_def)
  with L have "line_fits item db" by (auto simp: feasible_def line_fits_def)
  with L show ?R by (fastforce simp: feasible_def line_fits_def take_line_available)
next
  assume R: ?R
  then have known: "known db (ri_product item)" by (simp add: line_fits_def)
  have tail: "need (item # items) (ri_product j) \<le> available db (ri_product j)"
    if "j \<in> set items" for j
  proof -
    from R that have "need items (ri_product j)
        \<le> available (take_line clk order_ref key item db) (ri_product j)"
      by (simp add: feasible_def)
    then show ?thesis by (simp add: take_line_available known split: if_splits)
  qed
  have "need (item # items) (ri_product item) \<le> available db (ri_product item)"
  proof (cases "ri_product item \<in> ri_product ` set items")
    case True
    then obtain j where "j \<in> set items" "ri_product j = ri_product item" by auto
    with tail show ?thesis by metis
  next
    case False
    with R show ?thesis by (simp add: line_fits_def need_absent)
  qed
  with R known tail show ?L by (simp add: feasible_def line_fits_def)
qed

lemma key_free_Cons:
  "key_free key (item # items) db \<longleftrightarrow>
     (key = '''' \<or> ri_product item \<notin> claimed key db)
     \<and> key_free key items (take_line clk order_ref key item db)"
  by (auto simp: key_free_def take_line_claimed image_iff)

lemma reserve_line_all_ok:
  assumes "reserve_line clk order_ref key item t = Inr u" "rs_all_ok u"
  shows "rs_all_ok t" "fits order_ref" "fits key"
  using assms
  by (auto simp: reserve_line_def refuse_line_def and_then_Inr_iff dest: reservation_create_Inr
      split: if_splits option.splits)

lemma all_ok_mono:
  "reserve_lines clk order_ref key items t = Inr t' \<Longrightarrow> rs_all_ok t' \<Longrightarrow> rs_all_ok t"
  by (induction items arbitrary: t) (auto simp: and_then_Inr_iff dest: reserve_line_all_ok(1))

lemma all_ok_fits:
  "reserve_lines clk order_ref key items t = Inr t' \<Longrightarrow> rs_all_ok t' \<Longrightarrow> items \<noteq> []
     \<Longrightarrow> fits order_ref \<and> fits key"
  by (cases items) (auto simp: and_then_Inr_iff dest: all_ok_mono reserve_line_all_ok)

lemma reserve_lines_success:
  assumes "db_ok (rs_db t)" "fits order_ref" "fits key"
    and "feasible items (rs_db t)" "key_free key items (rs_db t)"
  shows "reserve_lines clk order_ref key items t =
    Inr (t\<lparr>rs_db := take_lines clk order_ref key items (rs_db t),
           rs_outcomes := rs_outcomes t @ map (reserved_outcome \<circ> ri_product) items\<rparr>)"
  using assms
proof (induction items arbitrary: t)
  case Nil
  then show ?case by simp
next
  case (Cons item items)
  let ?db = "take_line clk order_ref key item (rs_db t)"
  from Cons.prems have fit: "line_fits item (rs_db t)" "feasible items ?db"
    using feasible_Cons by blast+
  from Cons.prems(5) have free: "key = '''' \<or> ri_product item \<notin> claimed key (rs_db t)"
      "key_free key items ?db"
    using key_free_Cons by blast+
  have "db_ok ?db" using Cons.prems fit free by (intro take_line_db_ok) auto
  with Cons fit free show ?case by (simp add: reserve_line_cases)
qed

lemma reserve_lines_success_only:
  assumes "db_ok (rs_db t)" "fits order_ref" "fits key"
    and "reserve_lines clk order_ref key items t = Inr t'" "rs_all_ok t'"
  shows "feasible items (rs_db t) \<and> key_free key items (rs_db t)"
  using assms
proof (induction items arbitrary: t)
  case Nil
  then show ?case by (simp add: feasible_def key_free_def)
next
  case (Cons item items)
  let ?db = "take_line clk order_ref key item (rs_db t)"
  from Cons.prems obtain u where u: "reserve_line clk order_ref key item t = Inr u"
    and rest: "reserve_lines clk order_ref key items u = Inr t'"
    by (auto simp: and_then_Inr_iff)
  have "rs_all_ok u" using rest Cons.prems(5) by (rule all_ok_mono)
  then have fit: "line_fits item (rs_db t)"
      and free: "key = '''' \<or> ri_product item \<notin> claimed key (rs_db t)" and db: "rs_db u = ?db"
    using u Cons.prems(1-3) by (auto simp: reserve_line_cases refuse_line_def split: if_splits)
  have "db_ok ?db" using Cons.prems fit free by (intro take_line_db_ok) auto
  with Cons rest db have "feasible items ?db \<and> key_free key items ?db" by metis
  with fit free Cons.prems(1) show ?case using feasible_Cons key_free_Cons by blast
qed

lemma reserve_lines_no_DataError:
  assumes "db_ok (rs_db t)" "fits order_ref" "fits key"
  shows "reserve_lines clk order_ref key items t \<noteq> Inl DataError"
  using assms
proof (induction items arbitrary: t)
  case Nil
  then show ?case by simp
next
  case (Cons item items)
  show ?case
  proof
    assume "reserve_lines clk order_ref key (item # items) t = Inl DataError"
    then obtain u where u: "reserve_line clk order_ref key item t = Inr u"
      and rest: "reserve_lines clk order_ref key items u = Inl DataError"
      using Cons.prems by (auto simp: and_then_Inl_iff reserve_line_cases split: if_splits)
    have "db_ok (rs_db u)"
      using u Cons.prems
      by (auto simp: reserve_line_cases refuse_line_def intro!: take_line_db_ok split: if_splits)
    with Cons rest show False by blast
  qed
qed

subsection \<open>What taking the lines changes\<close>

lemma line_rows_sel [simp]:
  "map r_product (line_rows clk order_ref key items i) = map ri_product items"
  "map r_quantity (line_rows clk order_ref key items i) = map ri_quantity items"
  "length (line_rows clk order_ref key items i) = length items"
  by (induction items arbitrary: i) simp_all

lemma line_rows_member:
  assumes "r \<in> set (line_rows clk order_ref key items i)"
  shows "r_order_ref r = order_ref" "r_key r = key" "r_status r = RESERVED"
    "r_product r \<in> ri_product ` set items" "r_created r = clk (r_id r)"
  using assms by (induction items arbitrary: i) auto

lemma line_rows_ids: "map r_id (line_rows clk order_ref key items i) = [i..i + int (length items) - 1]"
proof (induction items arbitrary: i)
  case Nil
  then show ?case by simp
next
  case (Cons item items)
  then show ?case by (simp add: upto_rec1 algebra_simps)
qed

lemma line_rows_empty_iff [simp]: "line_rows clk order_ref key items i = [] \<longleftrightarrow> items = []"
  by (cases items) simp_all

lemma take_lines_sel [simp]:
  "reservations (take_lines clk order_ref key items db) =
     reservations db @ line_rows clk order_ref key items (res_seq db)"
  "res_seq (take_lines clk order_ref key items db) = res_seq db + int (length items)"
  "known (take_lines clk order_ref key items db) pid = known db pid"
  "map p_id (products (take_lines clk order_ref key items db)) = map p_id (products db)"
  by (induction items arbitrary: db) simp_all

lemma take_lines_available:
  "\<forall>i \<in> set items. known db (ri_product i) \<Longrightarrow>
   available (take_lines clk order_ref key items db) pid = available db pid - need items pid"
  by (induction items arbitrary: db) (simp_all add: take_line_available)

lemma take_lines_held:
  "held (take_lines clk order_ref key items db) pid = held db pid + need items pid"
  by (induction items arbitrary: db) (simp_all add: take_line_held)

lemma take_lines_held_for:
  "held_for (take_lines clk order_ref key items db) r pid =
     held_for db r pid + (if r = order_ref then need items pid else 0)"
  by (induction items arbitrary: db) (simp_all add: take_line_held_for)

lemma take_lines_stock:
  "\<forall>i \<in> set items. known db (ri_product i) \<Longrightarrow>
   stock (take_lines clk order_ref key items db) pid = stock db pid"
  by (simp add: stock_def take_lines_available take_lines_held)

lemma take_lines_db_ok:
  assumes "db_ok db" "fits order_ref" "fits key" "feasible items db" "key_free key items db"
  shows "db_ok (take_lines clk order_ref key items db)"
  using assms
proof (induction items arbitrary: db)
  case Nil
  then show ?case by simp
next
  case (Cons item items)
  then have "db_ok (take_line clk order_ref key item db)"
    using feasible_Cons key_free_Cons by (intro take_line_db_ok) blast+
  with Cons show ?case using feasible_Cons key_free_Cons by simp blast
qed

section \<open>The function by cases\<close>

lemma feasible_sort [simp]: "feasible (sort_key f items) db = feasible items db"
  by (simp add: feasible_def)

lemma key_free_sort [simp]: "key_free key (sort_key f items) db = key_free key items db"
proof -
  have "mset (map ri_product (sort_key f items)) = mset (map ri_product items)" by simp
  then have "distinct (map ri_product (sort_key f items)) = distinct (map ri_product items)"
    by (rule mset_eq_imp_distinct_iff)
  then show ?thesis by (simp add: key_free_def)
qed

lemma active_by_key_set [simp]:
  "set (active_by_key key db) = {r \<in> set (reservations db). r_key r = key \<and> r_status r = RESERVED}"
  by (simp add: active_by_key_def)

lemma replayed_claimed: "replayed key db = [] \<Longrightarrow> key \<noteq> '''' \<Longrightarrow> claimed key db = {}"
  by (auto simp: replayed_def claimed_def indexed_def simp flip: set_empty)

lemma key_free_fresh:
  "replayed key db = [] \<Longrightarrow>
   key_free key items db \<longleftrightarrow> key = '''' \<or> distinct (map ri_product items)"
  by (auto simp: key_free_def replayed_claimed)

lemma reserve_stock_replay:
  "items \<noteq> [] \<Longrightarrow> replayed key db \<noteq> [] \<Longrightarrow>
   reserve_stock clk order_ref items key db =
     (Inr \<lparr>ro_success = True, ro_results = map (reserved_outcome \<circ> r_product) (replayed key db)\<rparr>, db)"
  by (simp add: reserve_stock_def comp_def)

lemma reserve_stock_granted:
  assumes "db_ok db" "fits order_ref" "fits key" "items \<noteq> []" "replayed key db = []"
    and "feasible items db" "key = '''' \<or> distinct (map ri_product items)"
  shows "reserve_stock clk order_ref items key db =
    (Inr \<lparr>ro_success = True,
          ro_results = map (reserved_outcome \<circ> ri_product) (sort_key ri_product items)\<rparr>,
     take_lines clk order_ref key (sort_key ri_product items) db)"
  using assms by (simp add: reserve_stock_def reserve_lines_success key_free_fresh Let_def)

lemma reserve_stock_refused:
  assumes "db_ok db" "fits order_ref" "fits key" "replayed key db = []"
    and "\<not> (feasible items db \<and> (key = '''' \<or> distinct (map ri_product items)))"
  obtains rs where "reserve_stock clk order_ref items key db =
    (Inr \<lparr>ro_success = False, ro_results = rs\<rparr>, db)"
proof -
  let ?t = "\<lparr>rs_db = db, rs_outcomes = [], rs_all_ok = True\<rparr>"
  let ?items = "sort_key ri_product items"
  show thesis
  proof (cases "reserve_lines clk order_ref key ?items ?t")
    case (Inl e)
    then have "e = IntegrityError"
      using reserve_lines_no_DataError [of ?t order_ref key clk ?items] assms by (cases e) auto
    with Inl assms(4) that show thesis by (cases "items = []") (auto simp: reserve_stock_def)
  next
    case (Inr t')
    then have "\<not> rs_all_ok t'"
      using reserve_lines_success_only [of ?t order_ref key clk ?items t'] assms
      by (auto simp: key_free_fresh)
    with Inr assms(4) that show thesis by (cases "items = []") (auto simp: reserve_stock_def)
  qed
qed

text \<open>
  Every call is a replay, a granted reservation, a refusal that changes nothing, or (a
  reference or key longer than its column) an exception that changes nothing.
\<close>

lemma reserve_stock_cases:
  assumes ok: "db_ok db" and call: "reserve_stock clk order_ref items key db = (r, db')"
  obtains (replay) "items \<noteq> []" "replayed key db \<noteq> []" "db' = db"
      "r = Inr \<lparr>ro_success = True, ro_results = map (reserved_outcome \<circ> r_product) (replayed key db)\<rparr>"
  | (granted) "fits order_ref" "fits key" "items \<noteq> []" "replayed key db = []" "feasible items db"
      "key = '''' \<or> distinct (map ri_product items)"
      "db' = take_lines clk order_ref key (sort_key ri_product items) db"
      "r = Inr \<lparr>ro_success = True,
          ro_results = map (reserved_outcome \<circ> ri_product) (sort_key ri_product items)\<rparr>"
  | (refused) rs where "db' = db" "r = Inr \<lparr>ro_success = False, ro_results = rs\<rparr>"
  | (raised) "db' = db" "r = Inl DataError"
proof -
  consider (empty) "items = []" | (old) "items \<noteq> []" "replayed key db \<noteq> []"
    | (new) "items \<noteq> []" "replayed key db = []"
    by blast
  then show thesis
  proof cases
    case empty
    with call show thesis by (intro refused [of "[]"]) (simp_all add: reserve_stock_def)
  next
    case old
    with call show thesis by (intro replay) (auto simp: reserve_stock_replay)
  next
    case new
    show thesis
    proof (cases "fits order_ref \<and> fits key")
      case True
      then have fits: "fits order_ref" "fits key" by simp_all
      show thesis
      proof (cases "feasible items db \<and> (key = '''' \<or> distinct (map ri_product items))")
        case True
        with call reserve_stock_granted [OF ok fits new] show thesis
          by (intro granted [OF fits new]) auto
      next
        case False
        from ok fits new(2) False obtain rs where "reserve_stock clk order_ref items key db =
            (Inr \<lparr>ro_success = False, ro_results = rs\<rparr>, db)"
          by (rule reserve_stock_refused)
        with call show thesis by (intro refused [of rs]) simp_all
      qed
    next
      case False
      let ?t = "\<lparr>rs_db = db, rs_outcomes = [], rs_all_ok = True\<rparr>"
      have fail: "\<not> rs_all_ok t'"
        if "reserve_lines clk order_ref key (sort_key ri_product items) ?t = Inr t'" for t'
        using that False new by (auto dest: all_ok_fits)
      let ?items = "sort_key ri_product items"
      show thesis
      proof (cases "reserve_lines clk order_ref key ?items ?t")
        case (Inl e)
        with call [symmetric] new refused raised show thesis
          by (cases e) (simp_all add: reserve_stock_def Let_def)
      next
        case (Inr t')
        with fail have "\<not> rs_all_ok t'" by blast
        with Inr call [symmetric] new refused show thesis by (simp add: reserve_stock_def Let_def)
      qed
    qed
  qed
qed

section \<open>Properties\<close>

subsection \<open>A concrete database for the witnesses\<close>

definition demo_db :: inventory_db where
  "demo_db = \<lparr>products =
       [\<lparr>p_id = 1, p_sku = ''SKU-WIDGET'', p_name = ''Standard Widget'', p_available = 100\<rparr>,
        \<lparr>p_id = 2, p_sku = ''SKU-GADGET'', p_name = ''Premium Gadget'', p_available = 50\<rparr>,
        \<lparr>p_id = 3, p_sku = ''SKU-GIZMO'', p_name = ''Limited Gizmo'', p_available = 10\<rparr>],
     reservations = [], res_seq = 1, notified = []\<rparr>"

abbreviation line :: "int \<Rightarrow> int \<Rightarrow> reserve_item" where
  "line pid qty \<equiv> \<lparr>ri_product = pid, ri_quantity = qty\<rparr>"

lemmas demo_simps = demo_db_def product_get_def known_def available_def held_def stock_def
  holds_def index_ok_def indexed_def fits_def max_int4_def replayed_def active_by_key_def
  feasible_def need_def

lemma demo_db_ok: "db_ok demo_db"
  by (simp add: db_ok_def demo_simps)

lemma demo_values:
  "known demo_db pid \<longleftrightarrow> pid \<in> {1, 2, 3}"
  "available demo_db 1 = 100" "available demo_db 2 = 50" "available demo_db 3 = 10"
  "held_for demo_db ref pid = 0" "held demo_db pid = 0" "claimed key demo_db = {}"
  "reservations demo_db = []"
  by (auto simp: demo_simps held_for_def claimed_def)

lemma demo_feasible: "feasible [line 3 4, line 1 2] demo_db"
  by (simp add: demo_simps)

lemma demo_fresh: "replayed key demo_db = []"
  by (simp add: demo_simps)

text \<open>
  C9: on a database whose invariant holds, a reservation with column-sized reference and key,
  at least one line and no active reservation for its key succeeds exactly when every line has
  a positive quantity and an existing product, the lines of each product together do not
  exceed what is available, and, for a non-empty key, no product occurs in two lines.
\<close>

theorem reserve_stock_success_iff:
  assumes "db_ok db" "fits order_ref" "fits key" "items \<noteq> []" "replayed key db = []"
  shows "(\<exists>rs db'. reserve_stock clk order_ref items key db =
            (Inr \<lparr>ro_success = True, ro_results = rs\<rparr>, db')) \<longleftrightarrow>
    feasible items db \<and> (key = '''' \<or> distinct (map ri_product items))"
proof (cases "feasible items db \<and> (key = '''' \<or> distinct (map ri_product items))")
  case True
  with assms show ?thesis by (simp add: reserve_stock_granted)
next
  case False
  with assms obtain rs where "reserve_stock clk order_ref items key db =
      (Inr \<lparr>ro_success = False, ro_results = rs\<rparr>, db)"
    by (elim reserve_stock_refused)
  with False show ?thesis by simp
qed

theorem reserve_stock_success_iff_witness:
  "\<exists>rs db'. reserve_stock (\<lambda>i. i) ''o1'' [line 3 4, line 1 2] ''k1'' demo_db =
            (Inr \<lparr>ro_success = True, ro_results = rs\<rparr>, db')"
  using reserve_stock_success_iff [OF demo_db_ok, of "''o1''" "''k1''" "[line 3 4, line 1 2]" "\<lambda>i. i"]
    demo_feasible demo_fresh
  by (simp add: fits_def)

text \<open>
  A granted reservation takes exactly the requested quantity of each product from what is
  available and holds it under the order reference, leaves what other orders hold, appends one
  \<open>RESERVED\<close> row per line in product order and keeps the database invariant.
\<close>

theorem reserve_stock_effect:
  assumes "db_ok db" "fits order_ref" "fits key" "items \<noteq> []" "replayed key db = []"
    and "feasible items db" "key = '''' \<or> distinct (map ri_product items)"
  shows "\<exists>db' rows. reserve_stock clk order_ref items key db =
      (Inr \<lparr>ro_success = True, ro_results =
         map (\<lambda>i. reserved_outcome (ri_product i)) (sort_key ri_product items)\<rparr>, db')
    \<and> (\<forall>pid. available db' pid = available db pid - need items pid)
    \<and> (\<forall>ref pid. held_for db' ref pid =
          held_for db ref pid + (if ref = order_ref then need items pid else 0))
    \<and> reservations db' = reservations db @ rows
    \<and> map (\<lambda>r. (r_product r, r_quantity r)) rows =
        map (\<lambda>i. (ri_product i, ri_quantity i)) (sort_key ri_product items)
    \<and> list_all (\<lambda>r. r_order_ref r = order_ref \<and> r_key r = key \<and> r_status r = RESERVED) rows
    \<and> db_ok db'"
proof -
  let ?db = "take_lines clk order_ref key (sort_key ri_product items) db"
  have "map (\<lambda>r. (r_product r, r_quantity r)) (line_rows clk order_ref key xs n) =
      map (\<lambda>i. (ri_product i, ri_quantity i)) xs" for xs n
    by (induction xs arbitrary: n) simp_all
  moreover have "db_ok ?db"
    using assms by (intro take_lines_db_ok) (simp_all add: key_free_fresh)
  moreover have "\<forall>i \<in> set items. known db (ri_product i)"
    using assms(6) by (simp add: feasible_def)
  ultimately show ?thesis
    using assms
    by (auto simp: reserve_stock_granted comp_def take_lines_available take_lines_held_for list_all_iff
        dest: line_rows_member intro!: exI [of _ ?db])
qed

theorem reserve_stock_effect_witness:
  "\<exists>db'. snd (reserve_stock (\<lambda>i. i) ''o1'' [line 3 4, line 1 2] ''k1'' demo_db) = db'
    \<and> available db' 1 = 98 \<and> available db' 2 = 50 \<and> available db' 3 = 6 \<and> held_for db' ''o1'' 3 = 4"
proof -
  have fits: "fits ''o1''" "fits ''k1''" by (simp_all add: fits_def)
  from reserve_stock_effect [OF demo_db_ok fits _ demo_fresh demo_feasible, of "\<lambda>i. i"]
  obtain db' where db': "snd (reserve_stock (\<lambda>i. i) ''o1'' [line 3 4, line 1 2] ''k1'' demo_db) = db'"
    and "\<forall>pid. available db' pid = available demo_db pid - need [line 3 4, line 1 2] pid"
    and "\<forall>ref pid. held_for db' ref pid = held_for demo_db ref pid
          + (if ref = ''o1'' then need [line 3 4, line 1 2] pid else 0)"
    by auto
  then show ?thesis by (simp add: held_for_def demo_simps)
qed

subsection \<open>Failures and retries\<close>

lemma reserve_line_outcome:
  assumes "reserve_line clk order_ref key item t = Inr u"
  shows "\<exists>x. rs_outcomes u = rs_outcomes t @ [x] \<and> io_product x = ri_product item
    \<and> (io_reserved x \<longleftrightarrow> io_reason x = '''') \<and> (rs_all_ok u \<longleftrightarrow> rs_all_ok t \<and> io_reserved x)"
  using assms
  by (auto simp: reserve_line_def refuse_line_def insufficient_reason_def and_then_Inr_iff
      split: if_splits option.splits)

lemma reserve_lines_outcomes:
  assumes "reserve_lines clk order_ref key items t = Inr t'"
  shows "\<exists>xs. rs_outcomes t' = rs_outcomes t @ xs \<and> map io_product xs = map ri_product items
    \<and> (\<forall>x \<in> set xs. io_reserved x \<longleftrightarrow> io_reason x = '''')
    \<and> (rs_all_ok t' \<longleftrightarrow> rs_all_ok t \<and> (\<forall>x \<in> set xs. io_reserved x))"
  using assms
proof (induction items arbitrary: t)
  case Nil
  then show ?case by simp
next
  case (Cons item items)
  then obtain u where u: "reserve_line clk order_ref key item t = Inr u"
    and rest: "reserve_lines clk order_ref key items u = Inr t'"
    by (auto simp: and_then_Inr_iff)
  from reserve_line_outcome [OF u] obtain x where
    x: "rs_outcomes u = rs_outcomes t @ [x]" "io_product x = ri_product item"
    "io_reserved x \<longleftrightarrow> io_reason x = ''''" "rs_all_ok u \<longleftrightarrow> rs_all_ok t \<and> io_reserved x"
    by blast
  from Cons.IH [OF rest] obtain xs where
    "rs_outcomes t' = rs_outcomes u @ xs" "map io_product xs = map ri_product items"
    "\<forall>x \<in> set xs. io_reserved x \<longleftrightarrow> io_reason x = ''''"
    "rs_all_ok t' \<longleftrightarrow> rs_all_ok u \<and> (\<forall>x \<in> set xs. io_reserved x)"
    by blast
  with x show ?case by (intro exI [of _ "x # xs"]) auto
qed

lemma reserve_lines_duplicate:
  assumes "db_ok (rs_db t)" "fits order_ref" "fits key"
    and "feasible items (rs_db t)" "\<not> key_free key items (rs_db t)"
  shows "reserve_lines clk order_ref key items t = Inl IntegrityError"
  using assms
proof (induction items arbitrary: t)
  case Nil
  then show ?case by (simp add: key_free_def)
next
  case (Cons item items)
  let ?db = "take_line clk order_ref key item (rs_db t)"
  from Cons.prems have fit: "line_fits item (rs_db t)" "feasible items ?db"
    using feasible_Cons by blast+
  show ?case
  proof (cases "key = '''' \<or> ri_product item \<notin> claimed key (rs_db t)")
    case True
    with Cons.prems fit have "db_ok ?db" by (intro take_line_db_ok) auto
    moreover have "\<not> key_free key items ?db"
      using True Cons.prems(5) key_free_Cons by blast
    ultimately show ?thesis using True Cons fit by (auto simp: reserve_line_cases)
  next
    case False
    with Cons.prems fit show ?thesis by (simp add: reserve_line_cases)
  qed
qed

text \<open>
  All or nothing. A call that does not report success, whether it returns a failed outcome
  or raises, leaves the whole database (stock, reservations, pending notifications) as it was.
\<close>

theorem reserve_stock_atomic:
  assumes "reserve_stock clk order_ref items key db = (r, db')"
    and "\<And>out. r = Inr out \<Longrightarrow> \<not> ro_success out"
  shows "db' = db"
  using assms
  by (auto simp: reserve_stock_def Let_def split: if_splits sum.splits db_error.splits)

theorem reserve_stock_atomic_witness:
  "snd (reserve_stock (\<lambda>i. i) ''o1'' [line 3 4, line 1 200] ''k1'' demo_db) = demo_db"
proof -
  have "fits ''o1''" "fits ''k1''" by (simp_all add: fits_def)
  moreover have "\<not> feasible [line 3 4, line 1 200] demo_db" by (simp add: demo_simps)
  ultimately obtain rs where call: "reserve_stock (\<lambda>i. i) ''o1'' [line 3 4, line 1 200] ''k1'' demo_db
      = (Inr \<lparr>ro_success = False, ro_results = rs\<rparr>, demo_db)"
    using reserve_stock_refused [OF demo_db_ok _ _ demo_fresh, where items = "[line 3 4, line 1 200]"]
    by blast
  then have "snd (Inr \<lparr>ro_success = False, ro_results = rs\<rparr> :: db_error + reservation_outcome, demo_db)
      = demo_db"
    using reserve_stock_atomic [OF call] by simp
  with call show ?thesis by simp
qed

text \<open>
  C11: a retry is safe. After a successful reservation under a non-empty key, any further call
  with that key and at least one line succeeds again, reports the products of the original
  reservation (in the order of the newest line first, so as a multiset) and changes nothing,
  whatever reference and lines it carries.
\<close>

theorem reserve_stock_retry:
  assumes "db_ok db" "key \<noteq> ''''"
    and "reserve_stock clk order_ref items key db = (Inr out, db1)" "ro_success out"
    and "items' \<noteq> []"
  shows "\<exists>out'. reserve_stock clk' order_ref' items' key db1 = (Inr out', db1) \<and> ro_success out'
    \<and> mset (map io_product (ro_results out')) = mset (map io_product (ro_results out))"
  using assms(1,3)
proof (cases rule: reserve_stock_cases)
  case replay
  with assms show ?thesis by (simp add: reserve_stock_replay del: map_map)
next
  case granted
  let ?rows = "line_rows clk order_ref key (sort_key ri_product items) (res_seq db)"
  have "filter (\<lambda>r. r_key r = key \<and> r_status r = RESERVED) (reservations db) = []"
    using granted(4) assms(2) by (simp add: replayed_def active_by_key_def)
  moreover have "filter (\<lambda>r. r_key r = key \<and> r_status r = RESERVED) ?rows = ?rows"
    by (simp add: filter_id_conv line_rows_member)
  ultimately have old: "replayed key db1 = sort_key (\<lambda>r. - r_created r) ?rows"
    using granted(7) assms(2) by (simp add: replayed_def active_by_key_def)
  then have "replayed key db1 \<noteq> []" using granted(3) by simp
  moreover have "mset (map r_product (replayed key db1)) = mset (map ri_product items)"
    unfolding old mset_map mset_sort by (simp flip: mset_map) (simp add: mset_map)
  ultimately show ?thesis
    using granted(8) assms(5) by (simp add: reserve_stock_replay del: map_map)
qed (use assms(4) in auto)

theorem reserve_stock_retry_witness:
  "\<exists>out'. reserve_stock (\<lambda>i. i + 9) ''o1'' [line 2 7] ''k1''
        (take_lines (\<lambda>i. i) ''o1'' ''k1'' (sort_key ri_product [line 3 4, line 1 2]) demo_db) =
      (Inr out', take_lines (\<lambda>i. i) ''o1'' ''k1'' (sort_key ri_product [line 3 4, line 1 2]) demo_db)
    \<and> ro_success out' \<and> mset (map io_product (ro_results out')) = {#1, 3#}"
proof -
  have fits: "fits ''o1''" "fits ''k1''" by (simp_all add: fits_def)
  have call: "reserve_stock (\<lambda>i. i) ''o1'' [line 3 4, line 1 2] ''k1'' demo_db =
      (Inr \<lparr>ro_success = True, ro_results = [reserved_outcome 1, reserved_outcome 3]\<rparr>,
       take_lines (\<lambda>i. i) ''o1'' ''k1'' (sort_key ri_product [line 3 4, line 1 2]) demo_db)"
    using reserve_stock_granted [OF demo_db_ok fits _ demo_fresh demo_feasible, of "\<lambda>i. i"] by simp
  show ?thesis
    using reserve_stock_retry [OF demo_db_ok _ call, of "[line 2 7]" "\<lambda>i. i + 9" "''o1''"] by simp
qed

text \<open>
  An order that names a product in two lines. The lines fit the stock and succeed without
  a key, but under a fresh non-empty key the second line of the product violates the unique
  index that the first one entered, and every line is reported as a duplicate in progress.
\<close>

theorem reserve_stock_repeated_product:
  assumes "db_ok db" "fits order_ref" "fits key" "replayed key db = []" "key \<noteq> ''''"
    and "feasible items db" "\<not> distinct (map ri_product items)"
  shows "reserve_stock clk order_ref items key db =
      (Inr \<lparr>ro_success = False, ro_results =
         map (\<lambda>i. refused_outcome (ri_product i) ''duplicate reservation in progress'')
             (sort_key ri_product items)\<rparr>, db)
    \<and> (\<exists>rs db'. reserve_stock clk order_ref items '''' db =
         (Inr \<lparr>ro_success = True, ro_results = rs\<rparr>, db'))"
proof -
  have "\<not> key_free key (sort_key ri_product items) db"
    using assms(4,5,7) key_free_fresh by simp
  then have "reserve_lines clk order_ref key (sort_key ri_product items)
      \<lparr>rs_db = db, rs_outcomes = [], rs_all_ok = True\<rparr> = Inl IntegrityError"
    using assms by (intro reserve_lines_duplicate) simp_all
  moreover have "items \<noteq> []" using assms(7) by auto
  ultimately have "reserve_stock clk order_ref items key db =
      (Inr \<lparr>ro_success = False, ro_results =
         map (\<lambda>i. refused_outcome (ri_product i) ''duplicate reservation in progress'')
             (sort_key ri_product items)\<rparr>, db)"
    using assms(4) by (simp add: reserve_stock_def)
  moreover have "replayed '''' db = []" "fits ''''" by (simp_all add: replayed_def fits_def)
  then have "\<exists>rs db'. reserve_stock clk order_ref items '''' db =
      (Inr \<lparr>ro_success = True, ro_results = rs\<rparr>, db')"
    using reserve_stock_granted [OF assms(1,2), of "''''" items] assms(6) \<open>items \<noteq> []\<close> by blast
  ultimately show ?thesis by blast
qed

theorem reserve_stock_repeated_product_witness:
  "reserve_stock (\<lambda>i. i) ''o1'' [line 1 2, line 1 3] ''k1'' demo_db =
      (Inr \<lparr>ro_success = False, ro_results =
         [refused_outcome 1 ''duplicate reservation in progress'',
          refused_outcome 1 ''duplicate reservation in progress'']\<rparr>, demo_db)"
  using reserve_stock_repeated_product [OF demo_db_ok, of "''o1''" "''k1''" "[line 1 2, line 1 3]"]
  by (simp add: demo_simps)

end
