(* ===== verification/ReleaseStock.thy ===== *)
theory ReleaseStock
  imports ReserveStock
begin

text \<open>
  \<^verbatim>\<open>release_stock\<close> of \<^verbatim>\<open>inventory_app/services.py\<close>: the compensating action that gives
  the held lines of an order reference back to the available stock.
\<close>

section \<open>The function\<close>

record release_outcome =
  rl_released :: bool
  rl_released_count :: int

definition release_line :: "reservation \<Rightarrow> inventory_db \<Rightarrow> db_error + inventory_db" where
  "release_line r db =
     and_then (update_available (\<lambda>a. a + r_quantity r) (r_product r) db)
       (\<lambda>db1. Inr (set_reservation_status (r_id r) RELEASED db1))"

fun release_lines :: "reservation list \<Rightarrow> inventory_db \<Rightarrow> db_error + inventory_db" where
  "release_lines [] db = Inr db"
| "release_lines (r # rs) db = and_then (release_line r db) (release_lines rs)"

definition release_stock ::
  "string \<Rightarrow> inventory_db \<Rightarrow> (db_error + release_outcome) \<times> inventory_db" where
  "release_stock order_ref db =
     (let rs = active_by_order_ref order_ref db in
      case release_lines rs db of
        Inl e \<Rightarrow> (Inl e, db)
      | Inr db' \<Rightarrow>
          (Inr \<lparr>rl_released = (rs \<noteq> []), rl_released_count = int (length rs)\<rparr>, db'))"

section \<open>One line in closed form\<close>

definition put_line :: "reservation \<Rightarrow> inventory_db \<Rightarrow> inventory_db" where
  "put_line r db =
     (let a = available db (r_product r); v = a + r_quantity r in
      db\<lparr>products := write_available v (r_product r) (products db),
         reservations :=
           map (\<lambda>s. if r_id s = r_id r then s\<lparr>r_status := RELEASED\<rparr> else s) (reservations db),
         notified := notified db @ notify_stock_change (r_product r) a v\<rparr>)"

fun put_lines :: "reservation list \<Rightarrow> inventory_db \<Rightarrow> inventory_db" where
  "put_lines [] db = db"
| "put_lines (r # rs) db = put_lines rs (put_line r db)"

definition give_back :: "reservation list \<Rightarrow> int \<Rightarrow> int" where
  "give_back rs pid = sum_on r_quantity (filter (\<lambda>r. r_product r = pid) rs)"

lemma give_back_simps [simp]:
  "give_back [] pid = 0"
  "give_back (r # rs) pid = (if r_product r = pid then r_quantity r else 0) + give_back rs pid"
  by (simp_all add: give_back_def)

lemma give_back_nonneg: "\<forall>r \<in> set rs. 0 < r_quantity r \<Longrightarrow> 0 \<le> give_back rs pid"
  unfolding give_back_def by (rule sum_on_nonneg) auto

lemma release_line_put:
  assumes "known db (r_product r)" "0 < r_quantity r" "0 \<le> available db (r_product r)"
    and "available db (r_product r) + r_quantity r \<le> max_int4"
  shows "release_line r db = Inr (put_line r db)"
  using assms
  by (auto simp: release_line_def update_available_def put_line_def Let_def known_def
      set_reservation_status_def)

lemma put_line_sel [simp]:
  "res_seq (put_line r db) = res_seq db"
  "map p_id (products (put_line r db)) = map p_id (products db)"
  "map p_sku (products (put_line r db)) = map p_sku (products db)"
  by (simp_all add: put_line_def Let_def)

lemma put_line_known [simp]: "known (put_line r db) pid = known db pid"
  by (metis known_iff list.set_map put_line_sel(2))

lemma put_line_available:
  "known db (r_product r) \<Longrightarrow>
   available (put_line r db) pid =
     available db pid + (if pid = r_product r then r_quantity r else 0)"
  by (auto simp: available_def product_get_def put_line_def Let_def find_write_available known_def
      split: option.splits)

lemma release_lines_put:
  assumes "\<forall>r \<in> set rs. known db (r_product r) \<and> 0 < r_quantity r"
    and "\<And>pid. 0 \<le> available db pid" "\<And>pid. available db pid + give_back rs pid \<le> max_int4"
  shows "release_lines rs db = Inr (put_lines rs db)"
  using assms
proof (induction rs arbitrary: db)
  case Nil
  then show ?case by simp
next
  case (Cons r rs)
  have "0 \<le> give_back rs (r_product r)" using Cons.prems(1) by (intro give_back_nonneg) simp
  moreover have "available db (r_product r) + give_back (r # rs) (r_product r) \<le> max_int4"
    by (rule Cons.prems(3))
  ultimately have "release_line r db = Inr (put_line r db)"
    using Cons.prems(1,2) by (intro release_line_put) auto
  moreover have "available (put_line r db) pid + give_back rs pid \<le> max_int4" for pid
    using Cons.prems(1) Cons.prems(3) [of pid] by (simp add: put_line_available split: if_splits)
  moreover have "0 \<le> available (put_line r db) pid" for pid
    using Cons.prems(1) Cons.prems(2) [of pid] by (simp add: put_line_available)
  ultimately have "release_line r db = Inr (put_line r db)"
    and "release_lines rs (put_line r db) = Inr (put_lines rs (put_line r db))"
    using Cons.prems(1) by (simp_all add: Cons.IH)
  then show ?case by simp
qed

lemma put_lines_sel [simp]:
  "res_seq (put_lines rs db) = res_seq db"
  "map p_id (products (put_lines rs db)) = map p_id (products db)"
  "map p_sku (products (put_lines rs db)) = map p_sku (products db)"
  "known (put_lines rs db) pid = known db pid"
  by (induction rs arbitrary: db) simp_all

lemma put_lines_available:
  "\<forall>r \<in> set rs. known db (r_product r) \<Longrightarrow>
   available (put_lines rs db) pid = available db pid + give_back rs pid"
  by (induction rs arbitrary: db) (simp_all add: put_line_available)

lemma put_lines_reservations:
  "reservations (put_lines rs db) =
     map (\<lambda>s. if r_id s \<in> r_id ` set rs then s\<lparr>r_status := RELEASED\<rparr> else s) (reservations db)"
  by (induction rs arbitrary: db) (auto simp: put_line_def Let_def)

section \<open>All active lines of a reference\<close>

definition release_rows :: "string \<Rightarrow> reservation list \<Rightarrow> reservation list" where
  "release_rows order_ref =
     map (\<lambda>s. if r_order_ref s = order_ref \<and> r_status s = RESERVED
              then s\<lparr>r_status := RELEASED\<rparr> else s)"

lemma active_by_order_ref_set [simp]:
  "set (active_by_order_ref order_ref db) =
     {r \<in> set (reservations db). r_order_ref r = order_ref \<and> r_status r = RESERVED}"
  by (simp add: active_by_order_ref_def)

lemma give_back_active: "give_back (active_by_order_ref order_ref db) pid = held_for db order_ref pid"
proof -
  have "mset (filter (\<lambda>r. r_product r = pid) (active_by_order_ref order_ref db)) =
      mset (filter (\<lambda>r. holds pid r \<and> r_order_ref r = order_ref) (reservations db))"
    by (auto simp: active_by_order_ref_def mset_filter holds_def filter_filter_mset
        intro!: filter_mset_cong)
  then show ?thesis unfolding give_back_def held_for_def by (rule sum_on_mset)
qed

lemma held_release_rows:
  "sum_on r_quantity (filter (holds pid) (release_rows order_ref rs)) =
     sum_on r_quantity (filter (holds pid) rs)
     - sum_on r_quantity (filter (\<lambda>r. holds pid r \<and> r_order_ref r = order_ref) rs)"
  by (induction rs) (auto simp: release_rows_def holds_def)

lemma held_for_release_rows:
  "sum_on r_quantity (filter (\<lambda>r. holds pid r \<and> r_order_ref r = ref) (release_rows order_ref rs)) =
     (if ref = order_ref then 0
      else sum_on r_quantity (filter (\<lambda>r. holds pid r \<and> r_order_ref r = ref) rs))"
  by (induction rs) (auto simp: release_rows_def holds_def)

lemma release_rows_ids [simp]: "map r_id (release_rows order_ref rs) = map r_id rs"
  by (induction rs) (simp_all add: release_rows_def)

lemma release_rows_index_ok: "index_ok rs \<Longrightarrow> index_ok (release_rows order_ref rs)"
  by (induction rs) (force simp: index_ok_def release_rows_def indexed_def split: if_splits)+

lemma release_rows_member:
  "r \<in> set (release_rows order_ref rs) \<Longrightarrow>
   \<exists>s \<in> set rs. r = s \<or> r = s\<lparr>r_status := RELEASED\<rparr>"
  by (auto simp: release_rows_def)

lemma release_rows_inactive:
  "r \<in> set (release_rows order_ref rs) \<Longrightarrow> \<not> (r_order_ref r = order_ref \<and> r_status r = RESERVED)"
  by (induction rs) (auto simp: release_rows_def split: if_splits)

section \<open>The function in closed form\<close>

definition released :: "string \<Rightarrow> inventory_db \<Rightarrow> inventory_db" where
  "released order_ref db = put_lines (active_by_order_ref order_ref db) db"

lemma active_facts:
  assumes "db_ok db" "r \<in> set (active_by_order_ref order_ref db)"
  shows "known db (r_product r)" "0 < r_quantity r"
  using assms by (auto dest: db_okD)

lemma held_split:
  assumes "db_ok db"
  shows "held_for db order_ref pid \<le> held db pid" "0 \<le> held_for db order_ref pid"
proof -
  have pos: "\<forall>r \<in> set (reservations db). 0 < r_quantity r" using assms by (auto dest: db_okD)
  have "sum_on r_quantity (filter (\<lambda>r. holds pid r \<and> r_order_ref r = order_ref) rs)
      \<le> sum_on r_quantity (filter (holds pid) rs)
    \<and> 0 \<le> sum_on r_quantity (filter (\<lambda>r. holds pid r \<and> r_order_ref r = order_ref) rs)"
    if "\<forall>r \<in> set rs. 0 < r_quantity r" for rs
    using that by (induction rs) auto
  with pos show "held_for db order_ref pid \<le> held db pid" "0 \<le> held_for db order_ref pid"
    by (auto simp: held_def held_for_def)
qed

lemma release_stock_eq:
  assumes ok: "db_ok db"
  shows "release_stock order_ref db =
    (Inr \<lparr>rl_released = (active_by_order_ref order_ref db \<noteq> []),
          rl_released_count = int (length (active_by_order_ref order_ref db))\<rparr>,
     released order_ref db)"
proof -
  have "available db pid + give_back (active_by_order_ref order_ref db) pid \<le> max_int4" for pid
    using stock_bound [OF ok, of pid] held_split [OF ok, of order_ref pid]
    by (simp add: give_back_active stock_def)
  then have "release_lines (active_by_order_ref order_ref db) db = Inr (released order_ref db)"
    unfolding released_def using active_facts [OF ok] available_nonneg [OF ok]
    by (intro release_lines_put) blast+
  then show ?thesis by (simp add: release_stock_def Let_def)
qed

lemma released_sel [simp]:
  "res_seq (released order_ref db) = res_seq db"
  "map p_id (products (released order_ref db)) = map p_id (products db)"
  "map p_sku (products (released order_ref db)) = map p_sku (products db)"
  "known (released order_ref db) pid = known db pid"
  by (simp_all add: released_def)

lemma released_reservations:
  assumes "db_ok db"
  shows "reservations (released order_ref db) = release_rows order_ref (reservations db)"
proof -
  have "r_id s \<in> r_id ` set (active_by_order_ref order_ref db) \<longleftrightarrow>
      r_order_ref s = order_ref \<and> r_status s = RESERVED" if "s \<in> set (reservations db)" for s
    using that db_okD(3) [OF assms] by (auto simp: distinct_map inj_on_def)
  then show ?thesis
    unfolding released_def put_lines_reservations release_rows_def by (intro map_cong) auto
qed

lemma released_available:
  "db_ok db \<Longrightarrow>
   available (released order_ref db) pid = available db pid + held_for db order_ref pid"
  unfolding released_def by (subst put_lines_available) (auto simp: active_facts give_back_active)

lemma released_held:
  "db_ok db \<Longrightarrow> held (released order_ref db) pid = held db pid - held_for db order_ref pid"
  by (simp add: held_def held_for_def released_reservations held_release_rows)

lemma released_held_for:
  "db_ok db \<Longrightarrow>
   held_for (released order_ref db) ref pid = (if ref = order_ref then 0 else held_for db ref pid)"
  unfolding held_for_def by (simp add: released_reservations held_for_release_rows)

lemma released_stock: "db_ok db \<Longrightarrow> stock (released order_ref db) pid = stock db pid"
  by (simp add: stock_def released_available released_held)

lemma released_active:
  assumes "db_ok db"
  shows "active_by_order_ref order_ref (released order_ref db) = []"
proof -
  have "set (active_by_order_ref order_ref (released order_ref db)) = {}"
    using release_rows_inactive released_reservations [OF assms] by auto
  then show ?thesis by (simp only: set_empty)
qed

lemma released_db_ok:
  assumes ok: "db_ok db"
  shows "db_ok (released order_ref db)" (is "db_ok ?db")
proof (rule db_okI)
  fix r
  assume "r \<in> set (reservations ?db)"
  then obtain s where "s \<in> set (reservations db)" "r = s \<or> r = s\<lparr>r_status := RELEASED\<rparr>"
    using release_rows_member released_reservations [OF ok] by metis
  with ok show "r_id r < res_seq ?db" "0 < r_quantity r" "known ?db (r_product r)"
    "fits (r_order_ref r) \<and> fits (r_key r)"
    by (auto dest: db_okD)
next
  show "\<And>p. p \<in> set (products ?db) \<Longrightarrow> 0 \<le> p_available p"
    using ok held_split [OF ok] available_nonneg [OF ok]
    by (auto simp: db_okD released_available elim!: products_available_nonneg [rotated 2])
qed (use ok in \<open>simp_all add: db_okD released_reservations released_stock stock_bound
      release_rows_index_ok\<close>)

section \<open>Properties\<close>

text \<open>
  C13: on a database whose invariant holds, releasing an order reference never raises, reports
  the number of its active lines, gives exactly their quantities back to the available stock,
  leaves nothing held for the reference and everything held for the others, and keeps the
  database invariant.
\<close>

theorem release_stock_effect:
  assumes "db_ok db"
  shows "\<exists>db'. release_stock order_ref db =
      (Inr \<lparr>rl_released = (active_by_order_ref order_ref db \<noteq> []),
            rl_released_count = int (length (active_by_order_ref order_ref db))\<rparr>, db')
    \<and> (\<forall>pid. available db' pid = available db pid + held_for db order_ref pid)
    \<and> (\<forall>ref pid. held_for db' ref pid = (if ref = order_ref then 0 else held_for db ref pid))
    \<and> db_ok db'"
  using assms
  by (auto simp: release_stock_eq released_available released_held_for released_db_ok)

abbreviation reserved_demo_db :: inventory_db where
  "reserved_demo_db \<equiv> take_lines (\<lambda>i. i) ''o1'' ''k1'' [line 1 2, line 3 4] demo_db"

lemma reserved_demo_db_ok: "db_ok reserved_demo_db"
  by (intro take_lines_db_ok demo_db_ok)
    (simp_all add: fits_def key_free_def claimed_def demo_db_def feasible_def known_def
      product_get_def available_def)

theorem release_stock_effect_witness:
  "\<exists>db'. release_stock ''o1'' reserved_demo_db =
      (Inr \<lparr>rl_released = True, rl_released_count = 2\<rparr>, db')
    \<and> available db' 1 = 100 \<and> available db' 3 = 10 \<and> held_for db' ''o1'' 3 = 0"
proof -
  have "available reserved_demo_db 1 = 98" "available reserved_demo_db 3 = 6"
    "held_for reserved_demo_db ''o1'' 1 = 2" "held_for reserved_demo_db ''o1'' 3 = 4"
    by (simp_all add: take_line_available take_line_held_for demo_values)
  moreover have "length (active_by_order_ref ''o1'' reserved_demo_db) = 2"
    by (simp add: active_by_order_ref_def demo_db_def)
  ultimately show ?thesis
    using release_stock_effect [OF reserved_demo_db_ok, of "''o1''"] by fastforce
qed

text \<open>
  A second release of the same reference is a no-op: it reports that nothing was released
  and changes nothing.
\<close>

theorem release_stock_idempotent:
  assumes "db_ok db" "release_stock order_ref db = (Inr out, db')"
  shows "release_stock order_ref db' =
    (Inr \<lparr>rl_released = False, rl_released_count = 0\<rparr>, db')"
proof -
  from assms have "db' = released order_ref db" by (simp add: release_stock_eq)
  moreover have "released order_ref (released order_ref db) = released order_ref db"
    using assms(1) by (simp add: released_def [of _ "released order_ref db"] released_active)
  ultimately show ?thesis
    using assms(1) by (simp add: release_stock_eq released_db_ok released_active)
qed

theorem release_stock_idempotent_witness:
  "release_stock ''o1'' (released ''o1'' reserved_demo_db) =
    (Inr \<lparr>rl_released = False, rl_released_count = 0\<rparr>, released ''o1'' reserved_demo_db)"
  using release_stock_idempotent [OF reserved_demo_db_ok release_stock_eq [OF reserved_demo_db_ok]] .

text \<open>
  C15: the compensation undoes the reservation. After a granted reservation, releasing its
  order reference restores the available quantity of every product (plus whatever older lines
  of that reference were still held), and the same key can then be reserved afresh: it has no
  active line left to replay.
\<close>

theorem release_undoes_reserve:
  assumes "db_ok db" "replayed key db = []"
    and "reserve_stock clk order_ref items key db = (Inr out, db1)" "ro_success out"
    and "release_stock order_ref db1 = (Inr out', db2)"
  shows "available db2 pid = available db pid + held_for db order_ref pid \<and> replayed key db2 = []"
  using assms(1,3)
proof (cases rule: reserve_stock_cases)
  case granted
  let ?items = "sort_key ri_product items"
  have "db_ok db1"
    using granted assms(1,2) by (auto simp: key_free_fresh intro!: take_lines_db_ok)
  then have db2: "db2 = released order_ref db1"
    using assms(5) by (simp add: release_stock_eq)
  have known: "\<forall>i \<in> set ?items. known db (ri_product i)"
    using granted(5) by (simp add: feasible_def)
  have "available db2 pid = available db pid + held_for db order_ref pid"
    using \<open>db_ok db1\<close> granted(7)
    by (simp add: db2 released_available take_lines_available [OF known] take_lines_held_for)
  moreover have "replayed key db2 = []"
  proof (cases "key = ''''")
    case False
    then have "\<forall>r \<in> set (reservations db). \<not> (r_key r = key \<and> r_status r = RESERVED)"
      using assms(2) by (auto simp: replayed_def simp flip: set_empty)
    then have "\<forall>r \<in> set (reservations db2). \<not> (r_key r = key \<and> r_status r = RESERVED)"
      using \<open>db_ok db1\<close> granted(7)
      by (auto simp: db2 released_reservations release_rows_def dest: line_rows_member)
    then show ?thesis by (auto simp: replayed_def simp flip: set_empty)
  qed (simp add: replayed_def)
  ultimately show ?thesis by blast
qed (use assms(2,4) in auto)

theorem release_undoes_reserve_witness:
  "available (released ''o1'' (take_lines (\<lambda>i. i) ''o1'' ''k1''
      (sort_key ri_product [line 3 4, line 1 2]) demo_db)) 3 = 10"
proof -
  have fits: "fits ''o1''" "fits ''k1''" by (simp_all add: fits_def)
  have call: "reserve_stock (\<lambda>i. i) ''o1'' [line 3 4, line 1 2] ''k1'' demo_db =
      (Inr \<lparr>ro_success = True, ro_results = [reserved_outcome 1, reserved_outcome 3]\<rparr>,
       reserved_demo_db)"
    using reserve_stock_granted [OF demo_db_ok fits _ demo_fresh demo_feasible, of "\<lambda>i. i"] by simp
  show ?thesis
    using release_undoes_reserve [OF demo_db_ok demo_fresh call _
        release_stock_eq [OF reserved_demo_db_ok], of 3]
    by (simp add: demo_values)
qed

end
