(* ===== verification/ServiceMachines.thy ===== *)
theory ServiceMachines
  imports Prelude
begin

text \<open>
  Contracts of a service that handles one request at a time: every request keeps an
  invariant, leaves a quantity unchanged, or does what a specification prescribes. Each
  contract is stated for one request and lifted here, once, to sequences of requests.
\<close>

fun run_ops :: "('op \<Rightarrow> 's \<Rightarrow> 'out \<times> 's) \<Rightarrow> 'op list \<Rightarrow> 's \<Rightarrow> 'out list \<times> 's" where
  "run_ops step [] s = ([], s)"
| "run_ops step (x # xs) s =
     (let (out, s1) = step x s; (outs, s2) = run_ops step xs s1 in (out # outs, s2))"

lemma run_ops_append:
  "run_ops step (xs @ ys) s =
     (let (outs, s1) = run_ops step xs s; (outs', s2) = run_ops step ys s1 in (outs @ outs', s2))"
  by (induction xs arbitrary: s) (simp_all add: split_def Let_def)

lemma length_run_ops [simp]: "length (fst (run_ops step xs s)) = length xs"
  by (induction xs arbitrary: s) (simp_all add: split_def Let_def)

text \<open>Requests can be restricted to those that the environment allows.\<close>

locale guarded_machine =
  fixes step :: "'op \<Rightarrow> 's \<Rightarrow> 'out \<times> 's"
    and inv :: "'s \<Rightarrow> bool"
    and allowed :: "'op \<Rightarrow> bool"
  assumes inv_allowed: "inv s \<Longrightarrow> allowed x \<Longrightarrow> inv (snd (step x s))"
begin

lemma inv_allowed_run: "inv s \<Longrightarrow> list_all allowed xs \<Longrightarrow> inv (snd (run_ops step xs s))"
  by (induction xs arbitrary: s) (simp_all add: split_def Let_def inv_allowed)

end

locale service_machine =
  fixes step :: "'op \<Rightarrow> 's \<Rightarrow> 'out \<times> 's"
    and inv :: "'s \<Rightarrow> bool"
  assumes inv_step: "inv s \<Longrightarrow> inv (snd (step x s))"
begin

end

sublocale service_machine \<subseteq> guarded_machine step inv "\<lambda>_. True"
  by unfold_locales (rule inv_step)

context service_machine
begin

lemma inv_run: "inv s \<Longrightarrow> inv (snd (run_ops step xs s))"
  by (rule inv_allowed_run) (simp_all add: list_all_iff)

end

locale conserving_machine = service_machine +
  fixes quantity :: "'b \<Rightarrow> 'k \<Rightarrow> int"
  assumes conserved: "inv s \<Longrightarrow> quantity (snd (step x s)) k = quantity s k"
begin

lemma conserved_run: "inv s \<Longrightarrow> quantity (snd (run_ops step xs s)) k = quantity s k"
  by (induction xs arbitrary: s) (simp_all add: split_def Let_def inv_step conserved)

end

locale implementing_machine = service_machine +
  fixes abstract :: "'b \<Rightarrow> 't"
    and spec_step :: "'a \<Rightarrow> 't \<Rightarrow> 'c \<times> 't"
  assumes simulates: "inv s \<Longrightarrow> spec_step x (abstract s) = apsnd abstract (step x s)"
begin

lemma simulates_run:
  "inv s \<Longrightarrow> run_ops spec_step xs (abstract s) = apsnd abstract (run_ops step xs s)"
  by (induction xs arbitrary: s) (simp_all add: split_def Let_def inv_step simulates apsnd_def)

end

end
