(* ===== verification/InventoryLedger.thy ===== *)
theory InventoryLedger
  imports ReleaseStock ServiceMachines
begin

text \<open>
  What the inventory's write path promises, without rows, loops or transactions: a ledger of
  the stock per product, the lines held per order reference and, per idempotency key, the
  references it currently holds lines for. The reservation and release functions implement
  it, request by request and over any sequence of requests.
\<close>

section \<open>The specification\<close>

record ledger =
  lg_stock :: "int \<Rightarrow> int option"
  lg_lines :: "string \<Rightarrow> (int \<times> int) multiset"
  lg_keys :: "string \<Rightarrow> string set"

datatype inventory_op = Reserve string "reserve_item list" string | Release string

datatype inventory_reply = Reserved bool | Released int

definition line_sum :: "(int \<times> int) multiset \<Rightarrow> int \<Rightarrow> int" where
  "line_sum M pid = (\<Sum>x \<in># M. if fst x = pid then snd x else 0)"

definition grantable :: "reserve_item list \<Rightarrow> ledger \<Rightarrow> bool" where
  "grantable items L \<longleftrightarrow>
     (\<forall>i \<in> set items. 0 < ri_quantity i \<and>
        (case lg_stock L (ri_product i) of None \<Rightarrow> False
         | Some a \<Rightarrow> need items (ri_product i) \<le> a))"

definition ledger_grant :: "string \<Rightarrow> reserve_item list \<Rightarrow> string \<Rightarrow> ledger \<Rightarrow> ledger" where
  "ledger_grant order_ref items key L =
     \<lparr>lg_stock = (\<lambda>pid. map_option (\<lambda>a. a - need items pid) (lg_stock L pid)),
      lg_lines = (lg_lines L)(order_ref := lg_lines L order_ref
        + mset (map (\<lambda>i. (ri_product i, ri_quantity i)) items)),
      lg_keys = (lg_keys L)(key := insert order_ref (lg_keys L key))\<rparr>"

definition ledger_release :: "string \<Rightarrow> ledger \<Rightarrow> ledger" where
  "ledger_release order_ref L =
     \<lparr>lg_stock = (\<lambda>pid. map_option (\<lambda>a. a + line_sum (lg_lines L order_ref) pid) (lg_stock L pid)),
      lg_lines = (lg_lines L)(order_ref := {#}),
      lg_keys = (\<lambda>k. lg_keys L k - {order_ref})\<rparr>"

fun ledger_step :: "inventory_op \<Rightarrow> ledger \<Rightarrow> inventory_reply \<times> ledger" where
  "ledger_step (Reserve order_ref items key) L =
     (if items = [] then (Reserved False, L)
      else if key \<noteq> '''' \<and> lg_keys L key \<noteq> {} then (Reserved True, L)
      else if fits order_ref \<and> fits key \<and> grantable items L
           \<and> (key = '''' \<or> distinct (map ri_product items))
        then (Reserved True, ledger_grant order_ref items key L)
      else (Reserved False, L))"
| "ledger_step (Release order_ref) L =
     (Released (int (size (lg_lines L order_ref))), ledger_release order_ref L)"

section \<open>The implementation and its abstraction\<close>

text \<open>A request of the service layer; a raised exception is reported as not reserved.\<close>

fun inventory_step ::
  "(int \<Rightarrow> int) \<Rightarrow> inventory_op \<Rightarrow> inventory_db \<Rightarrow> inventory_reply \<times> inventory_db" where
  "inventory_step clk (Reserve order_ref items key) db =
     (case reserve_stock clk order_ref items key db of (r, db') \<Rightarrow>
        (Reserved (case r of Inl _ \<Rightarrow> False | Inr out \<Rightarrow> ro_success out), db'))"
| "inventory_step clk (Release order_ref) db =
     (case release_stock order_ref db of (r, db') \<Rightarrow>
        (Released (case r of Inl _ \<Rightarrow> 0 | Inr out \<Rightarrow> rl_released_count out), db'))"

definition active :: "reservation \<Rightarrow> bool" where
  "active r \<longleftrightarrow> r_status r = RESERVED"

definition lines_of :: "inventory_db \<Rightarrow> string \<Rightarrow> (int \<times> int) multiset" where
  "lines_of db order_ref =
     mset (map (\<lambda>r. (r_product r, r_quantity r))
       (filter (\<lambda>r. active r \<and> r_order_ref r = order_ref) (reservations db)))"

definition refs_of_key :: "inventory_db \<Rightarrow> string \<Rightarrow> string set" where
  "refs_of_key db key =
     r_order_ref ` set (filter (\<lambda>r. active r \<and> r_key r = key) (reservations db))"

definition ledger_of :: "inventory_db \<Rightarrow> ledger" where
  "ledger_of db =
     \<lparr>lg_stock = (\<lambda>pid. map_option p_available (product_get pid db)),
      lg_lines = lines_of db, lg_keys = refs_of_key db\<rparr>"

lemma ledger_of_sel [simp]:
  "lg_stock (ledger_of db) pid = (if known db pid then Some (available db pid) else None)"
  "lg_lines (ledger_of db) = lines_of db" "lg_keys (ledger_of db) = refs_of_key db"
  by (auto simp: ledger_of_def known_def)

lemma ledger_eqI:
  assumes "\<And>pid. lg_stock L pid = lg_stock M pid" "\<And>r. lg_lines L r = lg_lines M r"
    and "\<And>k. lg_keys L k = lg_keys M k"
  shows "L = (M :: ledger)"
  using assms by (intro ledger.equality) auto

lemma held_for_lines: "held_for db order_ref pid = line_sum (lines_of db order_ref) pid"
proof -
  have "sum_on r_quantity (filter (\<lambda>r. holds pid r \<and> r_order_ref r = order_ref) rs) =
      line_sum (mset (map (\<lambda>r. (r_product r, r_quantity r))
        (filter (\<lambda>r. active r \<and> r_order_ref r = order_ref) rs))) pid" for rs
    by (induction rs) (auto simp: line_sum_def holds_def active_def)
  then show ?thesis by (simp add: held_for_def lines_of_def)
qed

lemma active_by_order_ref_size:
  "length (active_by_order_ref order_ref db) = size (lines_of db order_ref)"
  by (simp only: active_by_order_ref_def lines_of_def active_def length_sort size_mset length_map
      conj_commute)

lemma replayed_refs: "replayed key db \<noteq> [] \<longleftrightarrow> key \<noteq> '''' \<and> refs_of_key db key \<noteq> {}"
proof -
  have "active_by_key key db \<noteq> [] \<longleftrightarrow> set (active_by_key key db) \<noteq> {}"
    by (simp only: set_empty not_not)
  also have "\<dots> \<longleftrightarrow> refs_of_key db key \<noteq> {}" by (auto simp: refs_of_key_def active_def)
  finally show ?thesis by (simp add: replayed_def)
qed

lemma grantable_ledger_of: "grantable items (ledger_of db) \<longleftrightarrow> feasible items db"
  by (auto simp: grantable_def feasible_def)

section \<open>Each request simulates\<close>

lemma lines_of_take_line:
  "lines_of (take_line clk order_ref key item db) ref =
     lines_of db ref
     + (if ref = order_ref then {#(ri_product item, ri_quantity item)#} else {#})"
  by (simp add: lines_of_def active_def)

lemma lines_of_take_lines:
  "lines_of (take_lines clk order_ref key items db) ref =
     lines_of db ref
     + (if ref = order_ref then mset (map (\<lambda>i. (ri_product i, ri_quantity i)) items) else {#})"
  by (induction items arbitrary: db) (simp_all add: lines_of_take_line)

lemma refs_of_key_take_lines:
  "items \<noteq> [] \<Longrightarrow> refs_of_key (take_lines clk order_ref key items db) k =
     (if k = key then insert order_ref (refs_of_key db k) else refs_of_key db k)"
  by (cases items) (auto simp: refs_of_key_def active_def dest: line_rows_member)

lemma ledger_of_granted:
  assumes "feasible items db" "items \<noteq> []"
  shows "ledger_of (take_lines clk order_ref key (sort_key ri_product items) db) =
    ledger_grant order_ref items key (ledger_of db)"
proof (rule ledger_eqI)
  have known: "\<forall>i \<in> set (sort_key ri_product items). known db (ri_product i)"
    using assms(1) by (simp add: feasible_def)
  show "lg_stock (ledger_of (take_lines clk order_ref key (sort_key ri_product items) db)) pid =
      lg_stock (ledger_grant order_ref items key (ledger_of db)) pid" for pid
    by (simp add: ledger_grant_def take_lines_available [OF known])
qed (use assms(2) in \<open>simp_all add: ledger_grant_def lines_of_take_lines refs_of_key_take_lines\<close>)

lemma lines_of_released:
  "db_ok db \<Longrightarrow>
   lines_of (released order_ref db) ref = (if ref = order_ref then {#} else lines_of db ref)"
proof -
  have "filter (\<lambda>r. active r \<and> r_order_ref r = ref) (release_rows order_ref rs) =
      (if ref = order_ref then [] else filter (\<lambda>r. active r \<and> r_order_ref r = ref) rs)" for rs
    by (induction rs) (auto simp: release_rows_def active_def)
  then show "db_ok db \<Longrightarrow> ?thesis" by (simp add: lines_of_def released_reservations)
qed

lemma refs_of_key_released:
  "db_ok db \<Longrightarrow> refs_of_key (released order_ref db) key = refs_of_key db key - {order_ref}"
proof -
  have "filter (\<lambda>r. active r \<and> r_key r = key) (release_rows order_ref rs) =
      filter (\<lambda>r. active r \<and> r_key r = key \<and> r_order_ref r \<noteq> order_ref) rs" for rs
    by (induction rs) (auto simp: release_rows_def active_def)
  then show "db_ok db \<Longrightarrow> ?thesis" by (auto simp: refs_of_key_def released_reservations)
qed

lemma ledger_of_released:
  assumes "db_ok db"
  shows "ledger_of (released order_ref db) = ledger_release order_ref (ledger_of db)"
  using assms
  by (intro ledger_eqI)
    (auto simp: ledger_release_def released_available held_for_lines lines_of_released
      refs_of_key_released)

lemma inventory_step_Reserve:
  assumes ok: "db_ok db"
  shows "inventory_step clk (Reserve order_ref items key) db =
    (if items = [] then (Reserved False, db)
     else if replayed key db \<noteq> [] then (Reserved True, db)
     else if fits order_ref \<and> fits key \<and> feasible items db
             \<and> (key = '''' \<or> distinct (map ri_product items))
       then (Reserved True, take_lines clk order_ref key (sort_key ri_product items) db)
     else (Reserved False, db))" (is "_ = ?R")
proof -
  obtain r db' where call: "reserve_stock clk order_ref items key db = (r, db')" by fastforce
  have new: "\<not> (items \<noteq> [] \<and> replayed key db = [] \<and> fits order_ref \<and> fits key
      \<and> feasible items db \<and> (key = '''' \<or> distinct (map ri_product items)))"
    if "r = Inl e \<or> r = Inr \<lparr>ro_success = False, ro_results = rs\<rparr>" for e rs
    using that call reserve_stock_granted [OF ok] by auto
  have old: "items = [] \<or> replayed key db = []"
    if "r = Inl e \<or> r = Inr \<lparr>ro_success = False, ro_results = rs\<rparr>" for e rs
    using that call reserve_stock_replay [of items key db clk order_ref] by auto
  from ok call show ?thesis
  proof (cases rule: reserve_stock_cases)
    case (refused rs)
    with call new old show ?thesis by auto
  next
    case raised
    with call new old show ?thesis by auto
  qed (use call in simp_all)
qed

lemma inventory_step_Release:
  "db_ok db \<Longrightarrow> inventory_step clk (Release order_ref) db =
     (Released (int (size (lines_of db order_ref))), released order_ref db)"
  by (simp add: release_stock_eq active_by_order_ref_size)

lemma inventory_step_db_ok: "db_ok db \<Longrightarrow> db_ok (snd (inventory_step clk x db))"
  by (cases x) (auto simp: inventory_step_Reserve inventory_step_Release released_db_ok key_free_fresh
      simp del: inventory_step.simps intro!: take_lines_db_ok)

lemma inventory_step_stock:
  "db_ok db \<Longrightarrow> stock (snd (inventory_step clk x db)) pid = stock db pid"
  by (cases x) (auto simp: inventory_step_Reserve inventory_step_Release released_stock feasible_def
      simp del: inventory_step.simps intro!: take_lines_stock)

lemma inventory_step_simulates:
  "db_ok db \<Longrightarrow> ledger_step x (ledger_of db) = apsnd ledger_of (inventory_step clk x db)"
  by (cases x) (auto simp: inventory_step_Reserve inventory_step_Release ledger_of_granted
      ledger_of_released replayed_refs grantable_ledger_of simp del: inventory_step.simps)

interpretation write_path: conserving_machine "inventory_step clk" db_ok stock for clk
  by unfold_locales (auto simp: inventory_step_db_ok inventory_step_stock simp del: inventory_step.simps)

interpretation ledger_path: implementing_machine "inventory_step clk" db_ok ledger_of ledger_step
  for clk
  by unfold_locales (rule inventory_step_simulates)

section \<open>Properties\<close>

text \<open>
  C1: nothing is oversold. From a database whose invariant holds, after any sequence of
  reservations (keyed or not, valid or not) and releases, every product's available quantity
  is non-negative and, together with what active reservations hold of it, is exactly the stock
  at the start; the invariant, with the unique index, still holds.
\<close>

theorem inventory_never_oversells:
  assumes "db_ok db" and "snd (run_ops (inventory_step clk) xs db) = db'"
  shows "0 \<le> available db' pid \<and> available db' pid + held db' pid = available db pid + held db pid
    \<and> db_ok db'"
  using write_path.inv_run [OF assms(1), of clk xs] write_path.conserved_run [OF assms(1), of clk xs pid]
    assms(2)
  by (auto simp: stock_def available_nonneg)

theorem inventory_never_oversells_witness:
  "\<exists>db'. snd (run_ops (inventory_step (\<lambda>i. i))
        [Reserve ''o1'' [line 3 4, line 1 2] ''k1'', Reserve ''o2'' [line 3 7] '''', Release ''o1'']
        demo_db) = db'
    \<and> 0 \<le> available db' 3 \<and> available db' 3 + held db' 3 = 10"
  using inventory_never_oversells [OF demo_db_ok refl, where pid = 3 and clk = "\<lambda>i. i" and
      xs = "[Reserve ''o1'' [line 3 4, line 1 2] ''k1'', Reserve ''o2'' [line 3 7] '''', Release ''o1'']"]
  by (simp add: demo_values del: run_ops.simps inventory_step.simps)

text \<open>
  C6: the reservation and release functions implement the ledger. For every sequence of
  requests, the replies are those of the ledger specification, and the ledger read off the
  final database is the one the specification reaches.
\<close>

theorem inventory_implements_ledger:
  assumes "db_ok db"
  shows "run_ops ledger_step xs (ledger_of db) =
    apsnd ledger_of (run_ops (inventory_step clk) xs db)"
  using assms by (rule ledger_path.simulates_run)

theorem inventory_implements_ledger_witness:
  "fst (run_ops (inventory_step (\<lambda>i. i))
      [Reserve ''o1'' [line 3 4] ''k1'', Reserve ''o1'' [line 3 4] ''k1'', Reserve ''o2'' [line 3 7] '''',
       Release ''o1'', Release ''o1''] demo_db) =
    [Reserved True, Reserved True, Reserved False, Released 1, Released 0]"
proof -
  have start: "ledger_of demo_db = \<lparr>lg_stock = [1 \<mapsto> 100, 2 \<mapsto> 50, 3 \<mapsto> 10], lg_lines = (\<lambda>_. {#}),
      lg_keys = (\<lambda>_. {})\<rparr>"
    by (rule ledger_eqI) (auto simp: demo_values lines_of_def refs_of_key_def)
  show ?thesis
    using arg_cong [OF inventory_implements_ledger [OF demo_db_ok, of
        "[Reserve ''o1'' [line 3 4] ''k1'', Reserve ''o1'' [line 3 4] ''k1'',
          Reserve ''o2'' [line 3 7] '''', Release ''o1'', Release ''o1'']" "\<lambda>i. i"], of fst]
    unfolding start
    by (simp add: fits_def grantable_def ledger_grant_def ledger_release_def Let_def
        del: inventory_step.simps)
qed

end
