(* ===== verification/InventoryRace.thy ===== *)
theory InventoryRace
  imports InventoryLedger
begin

text \<open>
  Concurrent reservations and releases. The replicas of the inventory service run the functions
  of \<^verbatim>\<open>inventory_app/services.py\<close> on pool threads against one PostgreSQL database, whose
  isolation level is \<^verbatim>\<open>READ COMMITTED\<close>: a statement sees what is committed and what its own
  transaction wrote, and a transaction that updates a row, or selects it \<^verbatim>\<open>FOR UPDATE\<close>, keeps
  the lock on the row until it ends.

  A transaction here is its local variables and its uncommitted writes; a step is one statement,
  on the view that the transaction has of the database. A statement whose row is locked by
  another transaction cannot run. The ids of a table are drawn from a sequence, which no
  rollback resets. An insertion that violates the unique index against a row that is itself not
  committed would have to wait for that row's transaction; it cannot come to that, because such
  a row was inserted under the lock of the product, which the inserting transaction holds.
\<close>

section \<open>Reserving\<close>

text \<open>
  \<open>rx_row\<close> is the product that the loop body read and locked and has not written yet. \<open>rx_lines\<close>
  are the uncommitted rows, with the ids drawn for them. \<open>rx_done\<close> records what was decided on
  each line so far.
\<close>

datatype decision = Take | Refuse string

record reserve_txn =
  rx_ref :: string
  rx_key :: string
  rx_begun :: bool
  rx_todo :: "reserve_item list"
  rx_row :: "product option"
  rx_locks :: "int set"
  rx_lines :: "(int \<times> reserve_item) list"
  rx_outcomes :: "item_outcome list"
  rx_all_ok :: bool
  rx_done :: "(reserve_item \<times> decision) list"
  rx_result :: "(db_error + reservation_outcome) option"

definition new_reserve :: "string \<Rightarrow> reserve_item list \<Rightarrow> string \<Rightarrow> reserve_txn" where
  "new_reserve order_ref items key =
     \<lparr>rx_ref = order_ref, rx_key = key, rx_begun = False, rx_todo = sort_key ri_product items,
      rx_row = None, rx_locks = {}, rx_lines = [], rx_outcomes = [], rx_all_ok = True, rx_done = [],
      rx_result = None\<rparr>"

text \<open>The two writes of an accepted line, with the id of its row; what the transaction sees.\<close>

definition insert_line ::
  "(int \<Rightarrow> int) \<Rightarrow> string \<Rightarrow> string \<Rightarrow> int \<times> reserve_item \<Rightarrow> inventory_db \<Rightarrow> inventory_db" where
  "insert_line clk order_ref key = (\<lambda>(i, item) db.
     let v = available db (ri_product item) - ri_quantity item in
     db\<lparr>products := write_available v (ri_product item) (products db),
        reservations := reservations db @ [line_row clk order_ref key item i],
        notified := notified db @ [(ri_product item, v)]\<rparr>)"

definition reserve_view :: "(int \<Rightarrow> int) \<Rightarrow> reserve_txn \<Rightarrow> inventory_db \<Rightarrow> inventory_db" where
  "reserve_view clk t db = fold (insert_line clk (rx_ref t) (rx_key t)) (rx_lines t) db"

definition refuse :: "reserve_item \<Rightarrow> string \<Rightarrow> reserve_txn \<Rightarrow> reserve_txn" where
  "refuse item reason t =
     t\<lparr>rx_todo := tl (rx_todo t), rx_row := None,
       rx_outcomes := rx_outcomes t @ [refused_outcome (ri_product item) reason],
       rx_all_ok := False, rx_done := rx_done t @ [(item, Refuse reason)]\<rparr>"

definition finish :: "db_error + reservation_outcome \<Rightarrow> reserve_txn \<Rightarrow> reserve_txn" where
  "finish r t = t\<lparr>rx_todo := [], rx_row := None, rx_locks := {}, rx_lines := [], rx_result := Some r\<rparr>"

definition duplicate_outcome :: "reserve_txn \<Rightarrow> reservation_outcome" where
  "duplicate_outcome t = \<lparr>ro_success = False,
     ro_results = map (\<lambda>item. refused_outcome (ri_product item) ''duplicate reservation in progress'')
       (map fst (rx_done t) @ rx_todo t)\<rparr>"

text \<open>
  \<open>busy\<close> are the products whose rows other transactions have locked. The replay check runs
  before the transaction begins. A failing statement rolls the transaction back; the handler
  turns an \<^verbatim>\<open>IntegrityError\<close> into a refusal.
\<close>

inductive reserve_txn_step ::
  "(int \<Rightarrow> int) \<Rightarrow> int set \<Rightarrow> reserve_txn \<times> inventory_db \<Rightarrow> reserve_txn \<times> inventory_db \<Rightarrow> bool"
  for clk busy where
  empty: "rx_result t = None \<Longrightarrow> \<not> rx_begun t \<Longrightarrow> rx_todo t = []
    \<Longrightarrow> reserve_txn_step clk busy (t, db) (finish (Inr \<lparr>ro_success = False, ro_results = []\<rparr>) t, db)"
| replay: "rx_result t = None \<Longrightarrow> \<not> rx_begun t \<Longrightarrow> rx_todo t \<noteq> [] \<Longrightarrow> replayed (rx_key t) db \<noteq> []
    \<Longrightarrow> reserve_txn_step clk busy (t, db) (finish (Inr \<lparr>ro_success = True,
          ro_results = map (\<lambda>r. reserved_outcome (r_product r)) (replayed (rx_key t) db)\<rparr>) t, db)"
| start: "rx_result t = None \<Longrightarrow> \<not> rx_begun t \<Longrightarrow> rx_todo t \<noteq> [] \<Longrightarrow> replayed (rx_key t) db = []
    \<Longrightarrow> reserve_txn_step clk busy (t, db) (t\<lparr>rx_begun := True\<rparr>, db)"
| nonpositive: "rx_result t = None \<Longrightarrow> rx_begun t \<Longrightarrow> rx_todo t = item # items \<Longrightarrow> ri_quantity item \<le> 0
    \<Longrightarrow> reserve_txn_step clk busy (t, db) (refuse item ''quantity must be positive'' t, db)"
| missing: "rx_result t = None \<Longrightarrow> rx_begun t \<Longrightarrow> rx_todo t = item # items \<Longrightarrow> 0 < ri_quantity item
    \<Longrightarrow> rx_row t = None \<Longrightarrow> product_get (ri_product item) (reserve_view clk t db) = None
    \<Longrightarrow> reserve_txn_step clk busy (t, db) (refuse item ''product not found'' t, db)"
| select: "rx_result t = None \<Longrightarrow> rx_begun t \<Longrightarrow> rx_todo t = item # items \<Longrightarrow> 0 < ri_quantity item
    \<Longrightarrow> rx_row t = None \<Longrightarrow> product_get (ri_product item) (reserve_view clk t db) = Some p
    \<Longrightarrow> ri_product item \<notin> busy
    \<Longrightarrow> reserve_txn_step clk busy (t, db)
          (t\<lparr>rx_row := Some p, rx_locks := insert (ri_product item) (rx_locks t)\<rparr>, db)"
| short: "rx_result t = None \<Longrightarrow> rx_begun t \<Longrightarrow> rx_todo t = item # items \<Longrightarrow> rx_row t = Some p
    \<Longrightarrow> p_available p < ri_quantity item
    \<Longrightarrow> reserve_txn_step clk busy (t, db)
          (refuse item (insufficient_reason (ri_quantity item) (p_available p)) t, db)"
| save: "rx_result t = None \<Longrightarrow> rx_begun t \<Longrightarrow> rx_todo t = item # items \<Longrightarrow> rx_row t = Some p
    \<Longrightarrow> ri_quantity item \<le> p_available p
    \<Longrightarrow> update_available (\<lambda>_. p_available p - ri_quantity item) (p_id p) (reserve_view clk t db) = Inr db1
    \<Longrightarrow> reservation_create clk (p_id p) (rx_ref t) (rx_key t) (ri_quantity item) RESERVED db1 = Inr db2
    \<Longrightarrow> reserve_txn_step clk busy (t, db)
          (t\<lparr>rx_todo := items, rx_row := None, rx_lines := rx_lines t @ [(res_seq db, item)],
             rx_outcomes := rx_outcomes t @ [reserved_outcome (ri_product item)],
             rx_done := rx_done t @ [(item, Take)]\<rparr>,
           db\<lparr>res_seq := res_seq db + 1\<rparr>)"
| failed: "rx_result t = None \<Longrightarrow> rx_begun t \<Longrightarrow> rx_todo t = item # items \<Longrightarrow> rx_row t = Some p
    \<Longrightarrow> ri_quantity item \<le> p_available p
    \<Longrightarrow> and_then (update_available (\<lambda>_. p_available p - ri_quantity item) (p_id p) (reserve_view clk t db))
          (reservation_create clk (p_id p) (rx_ref t) (rx_key t) (ri_quantity item) RESERVED) = Inl e
    \<Longrightarrow> reserve_txn_step clk busy (t, db)
          (finish (case e of IntegrityError \<Rightarrow> Inr (duplicate_outcome t) | DataError \<Rightarrow> Inl DataError) t,
           db\<lparr>res_seq := res_seq db + 1\<rparr>)"
| rollback: "rx_result t = None \<Longrightarrow> rx_begun t \<Longrightarrow> rx_todo t = [] \<Longrightarrow> \<not> rx_all_ok t
    \<Longrightarrow> reserve_txn_step clk busy (t, db)
          (finish (Inr \<lparr>ro_success = False, ro_results = rx_outcomes t\<rparr>) t, db)"
| commit: "rx_result t = None \<Longrightarrow> rx_begun t \<Longrightarrow> rx_todo t = [] \<Longrightarrow> rx_all_ok t
    \<Longrightarrow> reserve_txn_step clk busy (t, db)
          (finish (Inr \<lparr>ro_success = True, ro_results = rx_outcomes t\<rparr>) t, reserve_view clk t db)"

section \<open>Releasing\<close>

text \<open>
  \<^verbatim>\<open>SELECT ... FOR UPDATE\<close> in two steps: its snapshot, and, when none of the selected rows is
  locked by another transaction any more, the lock on those that are still active.
\<close>

record release_txn =
  lx_ref :: string
  lx_seen :: "reservation list option"
  lx_rows :: "reservation list option"
  lx_todo :: "reservation list"
  lx_given :: "reservation list"
  lx_locks :: "int set"
  lx_result :: "(db_error + release_outcome) option"

definition new_release :: "string \<Rightarrow> release_txn" where
  "new_release order_ref = \<lparr>lx_ref = order_ref, lx_seen = None, lx_rows = None, lx_todo = [], lx_given = [],
     lx_locks = {}, lx_result = None\<rparr>"

definition release_view :: "release_txn \<Rightarrow> inventory_db \<Rightarrow> inventory_db" where
  "release_view t db = put_lines (lx_given t) db"

definition row_ids :: "release_txn \<Rightarrow> int set" where
  "row_ids t = (case lx_rows t of None \<Rightarrow> {} | Some rs \<Rightarrow> r_id ` set rs)"

definition finish_release :: "db_error + release_outcome \<Rightarrow> release_txn \<Rightarrow> release_txn" where
  "finish_release r t =
     t\<lparr>lx_rows := None, lx_todo := [], lx_given := [], lx_locks := {}, lx_result := Some r\<rparr>"

inductive release_txn_step ::
  "int set \<Rightarrow> int set \<Rightarrow> release_txn \<times> inventory_db \<Rightarrow> release_txn \<times> inventory_db \<Rightarrow> bool"
  for busy busy_rows where
  see: "lx_result t = None \<Longrightarrow> lx_seen t = None
    \<Longrightarrow> release_txn_step busy busy_rows (t, db) (t\<lparr>lx_seen := Some (active_by_order_ref (lx_ref t) db)\<rparr>, db)"
| lock: "lx_result t = None \<Longrightarrow> lx_seen t = Some seen \<Longrightarrow> lx_rows t = None
    \<Longrightarrow> \<forall>r \<in> set seen. r_id r \<notin> busy_rows
    \<Longrightarrow> rows = filter (\<lambda>r. r \<in> set (active_by_order_ref (lx_ref t) db)) seen
    \<Longrightarrow> release_txn_step busy busy_rows (t, db) (t\<lparr>lx_rows := Some rows, lx_todo := rows\<rparr>, db)"
| give: "lx_result t = None \<Longrightarrow> lx_todo t = r # rs \<Longrightarrow> r_product r \<notin> busy
    \<Longrightarrow> release_line r (release_view t db) = Inr db1
    \<Longrightarrow> release_txn_step busy busy_rows (t, db)
          (t\<lparr>lx_todo := rs, lx_given := lx_given t @ [r], lx_locks := insert (r_product r) (lx_locks t)\<rparr>, db)"
| failed: "lx_result t = None \<Longrightarrow> lx_todo t = r # rs \<Longrightarrow> r_product r \<notin> busy
    \<Longrightarrow> release_line r (release_view t db) = Inl e
    \<Longrightarrow> release_txn_step busy busy_rows (t, db) (finish_release (Inl e) t, db)"
| commit: "lx_result t = None \<Longrightarrow> lx_rows t = Some rows \<Longrightarrow> lx_todo t = []
    \<Longrightarrow> release_txn_step busy busy_rows (t, db)
          (finish_release (Inr \<lparr>rl_released = (rows \<noteq> []), rl_released_count = int (length rows)\<rparr>) t,
           release_view t db)"

section \<open>All transactions\<close>

datatype txn = ReserveTxn reserve_txn | ReleaseTxn release_txn

fun txn_locks :: "txn \<Rightarrow> int set" where
  "txn_locks (ReserveTxn t) = rx_locks t"
| "txn_locks (ReleaseTxn t) = lx_locks t"

fun txn_rows :: "txn \<Rightarrow> int set" where
  "txn_rows (ReserveTxn t) = {}"
| "txn_rows (ReleaseTxn t) = row_ids t"

fun txn_finished :: "txn \<Rightarrow> bool" where
  "txn_finished (ReserveTxn t) = (rx_result t \<noteq> None)"
| "txn_finished (ReleaseTxn t) = (lx_result t \<noteq> None)"

text \<open>What the transactions other than the \<open>i\<close>-th hold of a kind of lock.\<close>

definition others :: "(txn \<Rightarrow> 'a set) \<Rightarrow> txn list \<Rightarrow> nat \<Rightarrow> 'a set" where
  "others f ts i = (\<Union>j \<in> {j. j < length ts \<and> j \<noteq> i}. f (ts ! j))"

inductive txn_step ::
  "(int \<Rightarrow> int) \<Rightarrow> int set \<Rightarrow> int set \<Rightarrow> txn \<times> inventory_db \<Rightarrow> txn \<times> inventory_db \<Rightarrow> bool"
  for clk busy busy_rows where
  reserve: "reserve_txn_step clk busy (t, db) (t', db')
    \<Longrightarrow> txn_step clk busy busy_rows (ReserveTxn t, db) (ReserveTxn t', db')"
| release: "release_txn_step busy busy_rows (t, db) (t', db')
    \<Longrightarrow> txn_step clk busy busy_rows (ReleaseTxn t, db) (ReleaseTxn t', db')"

inductive inventory_step_at ::
  "(int \<Rightarrow> int) \<Rightarrow> txn list \<times> inventory_db \<Rightarrow> txn list \<times> inventory_db \<Rightarrow> bool" for clk where
  step: "i < length ts \<Longrightarrow> txn_step clk (others txn_locks ts i) (others txn_rows ts i) (ts ! i, db) (t', db')
    \<Longrightarrow> inventory_step_at clk (ts, db) (ts[i := t'], db')"

fun new_txn :: "inventory_op \<Rightarrow> txn" where
  "new_txn (Reserve order_ref items key) = ReserveTxn (new_reserve order_ref items key)"
| "new_txn (Release order_ref) = ReleaseTxn (new_release order_ref)"

end
