(* ===== verification/InventoryLocking.thy ===== *)
theory InventoryLocking
  imports InventoryRace
begin

text \<open>
  Why the row locks make concurrent transactions safe: what is decided on a line depends on the
  row of its product and on the active keys at that product only (its slice of the database),
  and nobody changes the slice of a product whose row another transaction has locked.
\<close>

section \<open>Verdicts\<close>

definition line_verdict ::
  "string \<Rightarrow> string \<Rightarrow> reserve_item \<Rightarrow> inventory_db \<Rightarrow> db_error + decision" where
  "line_verdict order_ref key item db =
     (if ri_quantity item \<le> 0 then Inr (Refuse ''quantity must be positive'')
      else case product_get (ri_product item) db of
        None \<Rightarrow> Inr (Refuse ''product not found'')
      | Some p \<Rightarrow>
          if p_available p < ri_quantity item
            then Inr (Refuse (insufficient_reason (ri_quantity item) (p_available p)))
          else if \<not> fits order_ref \<or> \<not> fits key then Inl DataError
          else if key \<noteq> '''' \<and> ri_product item \<in> claimed key db then Inl IntegrityError
          else Inr Take)"

fun decision_outcome :: "reserve_item \<times> decision \<Rightarrow> item_outcome" where
  "decision_outcome (item, Take) = reserved_outcome (ri_product item)"
| "decision_outcome (item, Refuse reason) = refused_outcome (ri_product item) reason"

definition taken :: "(reserve_item \<times> decision) list \<Rightarrow> reserve_item list" where
  "taken ds = map fst (filter (\<lambda>(_, v). v = Take) ds)"

lemma taken_simps [simp]:
  "taken [] = []" "taken ((item, Take) # ds) = item # taken ds" "taken ((item, Refuse r) # ds) = taken ds"
  "taken (ds @ es) = taken ds @ taken es"
  by (simp_all add: taken_def)

lemma available_column: "db_ok db \<Longrightarrow> product_get pid db = Some p \<Longrightarrow> p_available p \<le> max_int4"
  using stock_bound [of db pid] held_nonneg [of db pid] by (simp add: stock_def)

text \<open>Writing an accepted line, on any copy of the database.\<close>

definition write_line ::
  "(int \<Rightarrow> int) \<Rightarrow> string \<Rightarrow> string \<Rightarrow> reserve_item \<Rightarrow> product \<Rightarrow> inventory_db \<Rightarrow> db_error + inventory_db" where
  "write_line clk order_ref key item p db =
     and_then (update_available (\<lambda>_. p_available p - ri_quantity item) (p_id p) db)
       (reservation_create clk (p_id p) order_ref key (ri_quantity item) RESERVED)"

lemma write_line_cases:
  assumes "product_get (ri_product item) db = Some p" "0 < ri_quantity item" "ri_quantity item \<le> p_available p"
    and "p_available p \<le> max_int4"
  shows "write_line clk order_ref key item p db =
    (if \<not> fits order_ref \<or> \<not> fits key then Inl DataError
     else if key \<noteq> '''' \<and> ri_product item \<in> claimed key db then Inl IntegrityError
     else Inr (take_line clk order_ref key item db))"
  using assms product_get_SomeD(2) [OF assms(1)]
  by (auto simp: write_line_def update_available_def reservation_create_def Let_def take_line_def
      notify_stock_change_def index_conflict_line_row simp flip: line_row_def)

lemma reserve_line_verdict:
  assumes "db_ok (rs_db t)"
  shows "reserve_line clk order_ref key item t =
    (case line_verdict order_ref key item (rs_db t) of
       Inl e \<Rightarrow> Inl e
     | Inr Take \<Rightarrow> Inr (t\<lparr>rs_db := take_line clk order_ref key item (rs_db t),
         rs_outcomes := rs_outcomes t @ [reserved_outcome (ri_product item)]\<rparr>)
     | Inr (Refuse reason) \<Rightarrow> Inr (refuse_line item reason t))"
proof (cases "product_get (ri_product item) (rs_db t)")
  case None
  then show ?thesis by (simp add: reserve_line_def line_verdict_def)
next
  case (Some p)
  have step: "and_then (update_available (\<lambda>_. p_available p - ri_quantity item) (p_id p) (rs_db t))
      (\<lambda>db1. and_then (reservation_create clk (p_id p) order_ref key (ri_quantity item) RESERVED db1)
         (\<lambda>db2. Inr (t\<lparr>rs_db := db2, rs_outcomes := rs_outcomes t @ [reserved_outcome (ri_product item)]\<rparr>))) =
      and_then (write_line clk order_ref key item p (rs_db t))
         (\<lambda>db2. Inr (t\<lparr>rs_db := db2, rs_outcomes := rs_outcomes t @ [reserved_outcome (ri_product item)]\<rparr>))"
    by (simp add: write_line_def and_then_def split: sum.split)
  show ?thesis
    using write_line_cases [OF Some _ _ available_column [OF assms Some]] Some step
    by (auto simp: reserve_line_def line_verdict_def not_le not_less)
qed

lemma take_verdict:
  "line_verdict order_ref key item db = Inr Take \<Longrightarrow>
     line_fits item db \<and> fits order_ref \<and> fits key \<and> (key = '''' \<or> ri_product item \<notin> claimed key db)"
  by (auto simp: line_verdict_def line_fits_def known_def split: if_splits option.splits)

fun after_verdict ::
  "(int \<Rightarrow> int) \<Rightarrow> string \<Rightarrow> string \<Rightarrow> reserve_item \<times> decision \<Rightarrow> inventory_db \<Rightarrow> inventory_db" where
  "after_verdict clk order_ref key (item, Take) db = take_line clk order_ref key item db"
| "after_verdict clk order_ref key (item, Refuse _) db = db"

text \<open>These verdicts are the ones that the loop reaches on this database.\<close>

fun decided ::
  "(int \<Rightarrow> int) \<Rightarrow> string \<Rightarrow> string \<Rightarrow> (reserve_item \<times> decision) list \<Rightarrow> inventory_db \<Rightarrow> bool" where
  "decided clk order_ref key [] db = True"
| "decided clk order_ref key ((item, v) # ds) db =
     (line_verdict order_ref key item db = Inr v
      \<and> decided clk order_ref key ds (after_verdict clk order_ref key (item, v) db))"

lemma after_verdict_db_ok:
  "db_ok db \<Longrightarrow> line_verdict order_ref key item db = Inr v \<Longrightarrow> db_ok (after_verdict clk order_ref key (item, v) db)"
  by (cases v) (auto dest!: take_verdict intro: take_line_db_ok)

lemma decided_take_lines:
  "db_ok db \<Longrightarrow> decided clk order_ref key ds db \<Longrightarrow> db_ok (take_lines clk order_ref key (taken ds) db)"
proof (induction ds arbitrary: db)
  case (Cons d ds)
  then show ?case
    using after_verdict_db_ok by (cases d; cases "snd d") fastforce+
qed simp

lemma decided_snoc:
  "decided clk order_ref key (ds @ [(item, v)]) db \<longleftrightarrow> decided clk order_ref key ds db
     \<and> line_verdict order_ref key item (take_lines clk order_ref key (taken ds) db) = Inr v"
proof (induction ds arbitrary: db)
  case (Cons d ds)
  then show ?case by (cases d; cases "snd d") auto
qed simp

lemma decided_reserve_lines:
  assumes "db_ok (rs_db t)" "decided clk order_ref key ds (rs_db t)"
  shows "reserve_lines clk order_ref key (map fst ds) t =
    Inr \<lparr>rs_db = take_lines clk order_ref key (taken ds) (rs_db t),
         rs_outcomes = rs_outcomes t @ map decision_outcome ds,
         rs_all_ok = (rs_all_ok t \<and> (\<forall>d \<in> set ds. snd d = Take))\<rparr>"
  using assms
proof (induction ds arbitrary: t)
  case (Cons d ds)
  obtain item v where d: "d = (item, v)" by fastforce
  have v: "line_verdict order_ref key item (rs_db t) = Inr v" using Cons.prems(2) d by simp
  have ok: "db_ok (after_verdict clk order_ref key (item, v) (rs_db t))"
    using after_verdict_db_ok [OF Cons.prems(1) v] .
  show ?case
  proof (cases v)
    case Take
    then show ?thesis using Cons ok v d by (simp add: reserve_line_verdict [OF Cons.prems(1)])
  next
    case (Refuse r)
    then show ?thesis using Cons ok v d
      by (simp add: reserve_line_verdict [OF Cons.prems(1)] refuse_line_def)
  qed
qed simp

lemma reserve_lines_stops:
  assumes "db_ok (rs_db t)" "decided clk order_ref key ds (rs_db t)"
    and "line_verdict order_ref key item (take_lines clk order_ref key (taken ds) (rs_db t)) = Inl e"
  shows "reserve_lines clk order_ref key (map fst ds @ item # items) t = Inl e"
proof -
  have split: "reserve_lines clk order_ref key (as @ bs) t =
      and_then (reserve_lines clk order_ref key as t) (reserve_lines clk order_ref key bs)" for as bs
    by (induction as arbitrary: t) (simp_all add: and_then_def split: sum.split)
  show ?thesis
    using assms decided_take_lines [OF assms(1,2)]
    by (simp add: split decided_reserve_lines [OF assms(1,2)] reserve_line_verdict)
qed

section \<open>Slices\<close>

definition same_slice :: "int \<Rightarrow> inventory_db \<Rightarrow> inventory_db \<Rightarrow> bool" where
  "same_slice pid db db' \<longleftrightarrow> product_get pid db = product_get pid db'
     \<and> (\<forall>key. pid \<in> claimed key db \<longleftrightarrow> pid \<in> claimed key db')"

lemma same_slice_refl [simp]: "same_slice pid db db"
  by (simp add: same_slice_def)

lemma same_slice_sym: "same_slice pid db db' \<Longrightarrow> same_slice pid db' db"
  by (simp add: same_slice_def)

lemma same_slice_trans: "same_slice pid a b \<Longrightarrow> same_slice pid b c \<Longrightarrow> same_slice pid a c"
  by (simp add: same_slice_def)

lemma line_verdict_local:
  "ri_quantity item \<le> 0 \<or> same_slice (ri_product item) db db' \<Longrightarrow>
     line_verdict order_ref key item db = line_verdict order_ref key item db'"
proof (cases "ri_quantity item \<le> 0")
  case False
  assume "ri_quantity item \<le> 0 \<or> same_slice (ri_product item) db db'"
  with False have eq: "product_get (ri_product item) db = product_get (ri_product item) db'"
      "ri_product item \<in> claimed key db \<longleftrightarrow> ri_product item \<in> claimed key db'"
    by (simp_all add: same_slice_def)
  show ?thesis unfolding line_verdict_def eq ..
qed (simp add: line_verdict_def)

lemma product_get_take_line:
  "product_get pid (take_line clk order_ref key item db) =
     map_option (\<lambda>q. if pid = ri_product item
       then q\<lparr>p_available := available db (ri_product item) - ri_quantity item\<rparr> else q) (product_get pid db)"
  by (simp add: product_get_def take_line_def Let_def find_write_available)

lemma claimed_take_line:
  "pid \<in> claimed k (take_line clk order_ref key item db) \<longleftrightarrow>
     pid \<in> claimed k db \<or> k = key \<and> key \<noteq> '''' \<and> pid = ri_product item"
  by (auto simp: claimed_def indexed_def)

lemma take_line_same_slice:
  assumes "same_slice pid db db'"
  shows "same_slice pid (take_line clk order_ref key item db) (take_line clk' order_ref key item db')"
proof -
  have eq: "product_get pid db = product_get pid db'" using assms by (simp add: same_slice_def)
  then have "available db pid = available db' pid" by (simp add: available_def)
  with assms eq show ?thesis
    by (cases "pid = ri_product item") (auto simp: same_slice_def product_get_take_line claimed_take_line)
qed

lemma take_line_frame:
  "pid \<noteq> ri_product item \<Longrightarrow> same_slice pid db (take_line clk order_ref key item db)"
  by (simp add: same_slice_def product_get_take_line claimed_take_line option.map_ident)

lemma take_lines_same_slice:
  "same_slice pid db db' \<Longrightarrow>
     same_slice pid (take_lines clk order_ref key items db) (take_lines clk' order_ref key items db')"
  by (induction items arbitrary: db db') (simp_all add: take_line_same_slice)

lemma decided_local:
  assumes "\<forall>d \<in> set ds. ri_quantity (fst d) \<le> 0 \<or> same_slice (ri_product (fst d)) db db'"
  shows "decided clk order_ref key ds db = decided clk order_ref key ds db'"
  using assms
proof (induction ds arbitrary: db db')
  case (Cons d ds)
  obtain item v where d: "d = (item, v)" by fastforce
  have "line_verdict order_ref key item db = line_verdict order_ref key item db'"
    using Cons.prems d by (intro line_verdict_local) simp
  moreover have "decided clk order_ref key ds (after_verdict clk order_ref key (item, v) db) =
      decided clk order_ref key ds (after_verdict clk order_ref key (item, v) db')"
    using Cons.prems d by (cases v; intro Cons.IH) (auto intro: take_line_same_slice)
  ultimately show ?case by (simp add: d)
qed simp

section \<open>Databases up to the ids of the reservations\<close>

definition forget :: "reservation \<Rightarrow> reservation" where
  "forget r = r\<lparr>r_id := 0, r_created := 0\<rparr>"

definition same_shop :: "inventory_db \<Rightarrow> inventory_db \<Rightarrow> bool" where
  "same_shop db db' \<longleftrightarrow> products db = products db'
     \<and> map forget (reservations db) = map forget (reservations db')"

lemma forget_sel [simp]:
  "r_product (forget r) = r_product r" "r_order_ref (forget r) = r_order_ref r" "r_key (forget r) = r_key r"
  "r_quantity (forget r) = r_quantity r" "r_status (forget r) = r_status r"
  "holds pid (forget r) = holds pid r" "indexed (forget r) = indexed r" "active (forget r) = active r"
  by (simp_all add: forget_def holds_def indexed_def active_def)

text \<open>What does not look at the ids is the same on both.\<close>

lemma forget_filter_map:
  assumes "\<And>r. P (forget r) = P r" "\<And>r. f (forget r) = f r"
  shows "map f (filter P rs) = map f (filter P (map forget rs))"
  by (induction rs) (simp_all add: assms)

lemma same_shop_filter_map:
  assumes "same_shop db db'" "\<And>r. P (forget r) = P r" "\<And>r. f (forget r) = f r"
  shows "map f (filter P (reservations db)) = map f (filter P (reservations db'))"
  using assms(1) forget_filter_map [of P f, OF assms(2,3)] by (metis same_shop_def)

lemma same_shop_claimed:
  assumes "same_shop db db'"
  shows "claimed key db = claimed key db'"
proof -
  have "map r_product (filter (\<lambda>s. indexed s \<and> r_key s = key) (reservations db)) =
      map r_product (filter (\<lambda>s. indexed s \<and> r_key s = key) (reservations db'))"
    by (rule same_shop_filter_map [OF assms]) simp_all
  then show ?thesis unfolding claimed_def by (metis list.set_map)
qed

lemma same_shop_facts:
  assumes "same_shop db db'"
  shows "product_get pid db = product_get pid db'" "known db pid = known db' pid"
    "available db pid = available db' pid" "held db pid = held db' pid" "stock db pid = stock db' pid"
    "lines_of db ref = lines_of db' ref" "index_ok (reservations db) = index_ok (reservations db')"
    "same_slice pid db db'"
proof -
  show get: "product_get pid db = product_get pid db'" for pid
    using assms by (simp add: product_get_def same_shop_def)
  then show "known db pid = known db' pid" and av: "available db pid = available db' pid"
    by (simp_all add: known_def available_def)
  have "map r_quantity (filter (holds pid) (reservations db)) = map r_quantity (filter (holds pid) (reservations db'))"
    by (rule same_shop_filter_map [OF assms]) simp_all
  then show held: "held db pid = held db' pid" by (simp add: held_def sum_on_def)
  show "stock db pid = stock db' pid" using av held by (simp add: stock_def)
  have "map (\<lambda>r. (r_product r, r_quantity r)) (filter (\<lambda>r. active r \<and> r_order_ref r = ref) (reservations db)) =
      map (\<lambda>r. (r_product r, r_quantity r)) (filter (\<lambda>r. active r \<and> r_order_ref r = ref) (reservations db'))"
    by (rule same_shop_filter_map [OF assms]) simp_all
  then show "lines_of db ref = lines_of db' ref" by (simp add: lines_of_def)
  have "map (\<lambda>r. (r_key r, r_product r)) (filter indexed (reservations db)) =
      map (\<lambda>r. (r_key r, r_product r)) (filter indexed (reservations db'))"
    by (rule same_shop_filter_map [OF assms]) simp_all
  then show "index_ok (reservations db) = index_ok (reservations db')" by (simp add: index_ok_def)
  show "same_slice pid db db'"
    using get same_shop_claimed [OF assms] by (simp add: same_slice_def)
qed

lemma same_shop_refl [simp]: "same_shop db db"
  by (simp add: same_shop_def)

lemma same_shop_sym: "same_shop db db' \<Longrightarrow> same_shop db' db"
  by (simp add: same_shop_def)

lemma insert_line_shop:
  "same_shop db db' \<Longrightarrow>
     same_shop (insert_line clk order_ref key (i, item) db) (take_line clk order_ref key item db')"
  using same_shop_facts(3) [of db db']
  by (simp add: same_shop_def insert_line_def take_line_def Let_def forget_def line_row_def new_reservation_def)

lemma insert_lines_shop:
  "same_shop db db' \<Longrightarrow> same_shop (fold (insert_line clk order_ref key) ls db)
     (take_lines clk order_ref key (map snd ls) db')"
proof (induction ls arbitrary: db db')
  case (Cons l ls)
  then show ?case using insert_line_shop by (cases l) simp
qed simp

lemma insert_lines_sel:
  "reservations (fold (insert_line clk order_ref key) ls db) =
     reservations db @ map (\<lambda>(i, item). line_row clk order_ref key item i) ls"
  "res_seq (fold (insert_line clk order_ref key) ls db) = res_seq db"
  by (induction ls arbitrary: db) (auto simp: insert_line_def Let_def)

lemma same_shop_db_ok:
  assumes "db_ok db" "same_shop db' db" "distinct (map r_id (reservations db'))"
    and "\<forall>r \<in> set (reservations db'). r_id r < res_seq db'"
  shows "db_ok db'"
proof -
  note facts = same_shop_facts [OF assms(2)]
  have prods: "products db' = products db" using assms(2) by (simp add: same_shop_def)
  have rows: "\<exists>s \<in> set (reservations db). forget s = forget r" if "r \<in> set (reservations db')" for r
  proof -
    have "forget r \<in> forget ` set (reservations db')" using that by blast
    also have "forget ` set (reservations db') = forget ` set (reservations db)"
      using assms(2) by (metis list.set_map same_shop_def)
    finally show ?thesis by auto
  qed
  show ?thesis
  proof (rule db_okI)
    fix r assume "r \<in> set (reservations db')"
    from rows [OF this] obtain s where s: "s \<in> set (reservations db)" "forget s = forget r" by blast
    from s(2) have "r_quantity s = r_quantity r" "r_product s = r_product r" "r_order_ref s = r_order_ref r"
        "r_key s = r_key r"
      by (metis forget_sel(4), metis forget_sel(1), metis forget_sel(2), metis forget_sel(3))
    with s(1) assms(1) facts show "0 < r_quantity r" "known db' (r_product r)"
        "fits (r_order_ref r) \<and> fits (r_key r)"
      by (metis db_okD(8), metis db_okD(9), metis db_okD(10))
  next
    show "index_ok (reservations db')" using facts(7) db_okD(4) [OF assms(1)] by simp
    show "stock db' pid \<le> max_int4" for pid
      using same_shop_facts(5) [OF assms(2), of pid] stock_bound [OF assms(1)] by simp
  qed (use assms prods db_okD in auto)
qed


section \<open>The invariant of one transaction\<close>

definition reserve_running :: "(int \<Rightarrow> int) \<Rightarrow> reserve_txn \<Rightarrow> inventory_db \<Rightarrow> bool" where
  "reserve_running clk t db \<longleftrightarrow>
     decided clk (rx_ref t) (rx_key t) (rx_done t) db
     \<and> map snd (rx_lines t) = taken (rx_done t)
     \<and> rx_outcomes t = map decision_outcome (rx_done t)
     \<and> (rx_all_ok t \<longleftrightarrow> (\<forall>d \<in> set (rx_done t). snd d = Take))
     \<and> (\<forall>d \<in> set (rx_done t). ri_quantity (fst d) \<le> 0 \<or> ri_product (fst d) \<in> rx_locks t
          \<or> \<not> known db (ri_product (fst d)))
     \<and> (\<forall>l \<in> rx_locks t. known db l \<and> (\<forall>item \<in> set (rx_todo t). l \<le> ri_product item))
     \<and> sorted (map ri_product (rx_todo t))
     \<and> (\<forall>p. rx_row t = Some p \<longrightarrow> (\<exists>item items. rx_todo t = item # items \<and> 0 < ri_quantity item
          \<and> ri_product item \<in> rx_locks t
          \<and> product_get (ri_product item) (reserve_view clk t db) = Some p))
     \<and> distinct (map fst (rx_lines t))
     \<and> (\<forall>i \<in> fst ` set (rx_lines t). i < res_seq db \<and> i \<notin> r_id ` set (reservations db))"

lemma reserve_runningD:
  assumes "reserve_running clk t db"
  shows "decided clk (rx_ref t) (rx_key t) (rx_done t) db"
    and "map snd (rx_lines t) = taken (rx_done t)"
    and "rx_outcomes t = map decision_outcome (rx_done t)"
    and "rx_all_ok t \<longleftrightarrow> (\<forall>d \<in> set (rx_done t). snd d = Take)"
    and "d \<in> set (rx_done t) \<Longrightarrow> ri_quantity (fst d) \<le> 0 \<or> ri_product (fst d) \<in> rx_locks t
      \<or> \<not> known db (ri_product (fst d))"
    and "l \<in> rx_locks t \<Longrightarrow> known db l"
    and "l \<in> rx_locks t \<Longrightarrow> item \<in> set (rx_todo t) \<Longrightarrow> l \<le> ri_product item"
    and "sorted (map ri_product (rx_todo t))"
    and "rx_row t = Some p \<Longrightarrow> rx_todo t = item # items \<Longrightarrow> 0 < ri_quantity item
      \<and> ri_product item \<in> rx_locks t \<and> product_get (ri_product item) (reserve_view clk t db) = Some p"
    and "rx_row t = Some p \<Longrightarrow> rx_todo t \<noteq> []"
    and "distinct (map fst (rx_lines t))"
    and "i \<in> fst ` set (rx_lines t) \<Longrightarrow> i < res_seq db \<and> i \<notin> r_id ` set (reservations db)"
proof -
  have row: "\<forall>p. rx_row t = Some p \<longrightarrow> (\<exists>item items. rx_todo t = item # items \<and> 0 < ri_quantity item
      \<and> ri_product item \<in> rx_locks t \<and> product_get (ri_product item) (reserve_view clk t db) = Some p)"
    using assms unfolding reserve_running_def by (elim conjE)
  show "rx_row t = Some p \<Longrightarrow> rx_todo t = item # items \<Longrightarrow> 0 < ri_quantity item
      \<and> ri_product item \<in> rx_locks t \<and> product_get (ri_product item) (reserve_view clk t db) = Some p"
    "rx_row t = Some p \<Longrightarrow> rx_todo t \<noteq> []"
    using row by fastforce+
qed (use assms in \<open>unfold reserve_running_def, elim conjE, (assumption | simp (no_asm_simp) | (drule (1) bspec, simp))+\<close>)

lemma reserve_runningI:
  assumes "decided clk (rx_ref t) (rx_key t) (rx_done t) db"
    and "map snd (rx_lines t) = taken (rx_done t)"
    and "rx_outcomes t = map decision_outcome (rx_done t)"
    and "rx_all_ok t \<longleftrightarrow> (\<forall>d \<in> set (rx_done t). snd d = Take)"
    and "\<And>d. d \<in> set (rx_done t) \<Longrightarrow> ri_quantity (fst d) \<le> 0 \<or> ri_product (fst d) \<in> rx_locks t
      \<or> \<not> known db (ri_product (fst d))"
    and "\<And>l. l \<in> rx_locks t \<Longrightarrow> known db l"
    and "\<And>l item. l \<in> rx_locks t \<Longrightarrow> item \<in> set (rx_todo t) \<Longrightarrow> l \<le> ri_product item"
    and "sorted (map ri_product (rx_todo t))"
    and "\<And>p. rx_row t = Some p \<Longrightarrow> \<exists>item items. rx_todo t = item # items \<and> 0 < ri_quantity item
      \<and> ri_product item \<in> rx_locks t \<and> product_get (ri_product item) (reserve_view clk t db) = Some p"
    and "distinct (map fst (rx_lines t))"
    and "\<And>i. i \<in> fst ` set (rx_lines t) \<Longrightarrow> i < res_seq db \<and> i \<notin> r_id ` set (reservations db)"
  shows "reserve_running clk t db"
  using assms unfolding reserve_running_def by blast

definition reserve_idle :: "reserve_txn \<Rightarrow> bool" where
  "reserve_idle t \<longleftrightarrow> rx_locks t = {} \<and> rx_lines t = []"

text \<open>\<open>op\<close> is the request that the transaction runs.\<close>

definition reserve_ok ::
  "(int \<Rightarrow> int) \<Rightarrow> string \<Rightarrow> reserve_item list \<Rightarrow> string \<Rightarrow> reserve_txn \<Rightarrow> inventory_db \<Rightarrow> bool" where
  "reserve_ok clk order_ref items key t db \<longleftrightarrow> rx_ref t = order_ref \<and> rx_key t = key \<and>
     (if rx_result t \<noteq> None then reserve_idle t
      else reserve_running clk t db
        \<and> map fst (rx_done t) @ rx_todo t = sort_key ri_product items
        \<and> (if rx_begun t then items \<noteq> [] else rx_done t = [] \<and> rx_row t = None \<and> reserve_idle t))"

definition locked_rows :: "string \<Rightarrow> reservation list \<Rightarrow> inventory_db \<Rightarrow> bool" where
  "locked_rows order_ref rows db \<longleftrightarrow> distinct (map r_id rows) \<and> sorted (map r_product rows)
     \<and> (\<forall>r \<in> set rows. r \<in> set (reservations db) \<and> r_status r = RESERVED \<and> r_order_ref r = order_ref)"

definition release_running :: "release_txn \<Rightarrow> inventory_db \<Rightarrow> bool" where
  "release_running t db \<longleftrightarrow>
     (case lx_seen t of None \<Rightarrow> lx_rows t = None
      | Some seen \<Rightarrow> sorted (map r_product seen) \<and> distinct (map r_id seen))
     \<and> (case lx_rows t of None \<Rightarrow> lx_todo t = [] \<and> lx_given t = []
        | Some rows \<Rightarrow> lx_seen t \<noteq> None \<and> rows = lx_given t @ lx_todo t \<and> locked_rows (lx_ref t) rows db)
     \<and> lx_locks t = r_product ` set (lx_given t)"

definition release_ok :: "string \<Rightarrow> release_txn \<Rightarrow> inventory_db \<Rightarrow> bool" where
  "release_ok order_ref t db \<longleftrightarrow> lx_ref t = order_ref \<and>
     (case lx_result t of None \<Rightarrow> release_running t db
      | Some r \<Rightarrow> lx_rows t = None \<and> lx_todo t = [] \<and> lx_locks t = {} \<and> \<not> isl r)"

fun txn_ok :: "(int \<Rightarrow> int) \<Rightarrow> inventory_op \<Rightarrow> txn \<Rightarrow> inventory_db \<Rightarrow> bool" where
  "txn_ok clk (Reserve order_ref items key) (ReserveTxn t) db = reserve_ok clk order_ref items key t db"
| "txn_ok clk (Release order_ref) (ReleaseTxn t) db = release_ok order_ref t db"
| "txn_ok clk _ _ db = False"

fun txn_ids :: "txn \<Rightarrow> int set" where
  "txn_ids (ReserveTxn t) = fst ` set (rx_lines t)"
| "txn_ids (ReleaseTxn t) = {}"

text \<open>What a step of a transaction with these locks, rows and drawn ids may do to the database.\<close>

definition confined :: "int set \<Rightarrow> int set \<Rightarrow> int set \<Rightarrow> inventory_db \<Rightarrow> inventory_db \<Rightarrow> bool" where
  "confined locks rows ids db db' \<longleftrightarrow>
     (\<forall>pid. pid \<notin> locks \<longrightarrow> same_slice pid db db') \<and> (\<forall>pid. known db' pid = known db pid)
     \<and> (\<forall>r \<in> set (reservations db). r_id r \<notin> rows \<longrightarrow> r \<in> set (reservations db'))
     \<and> res_seq db \<le> res_seq db'
     \<and> r_id ` set (reservations db') \<subseteq> r_id ` set (reservations db) \<union> ids"

lemma confined_refl [simp]: "confined locks rows ids db db"
  by (simp add: confined_def)

lemma reserve_view_slice:
  "same_slice pid db db' \<Longrightarrow> same_slice pid (reserve_view clk t db) (reserve_view clk t db')"
proof -
  assume same: "same_slice pid db db'"
  let ?lines = "\<lambda>d. take_lines clk (rx_ref t) (rx_key t) (map snd (rx_lines t)) d"
  have view: "same_slice pid (reserve_view clk t d) (?lines d)" for d
    unfolding reserve_view_def by (rule same_shop_facts(8)) (rule insert_lines_shop, simp)
  show ?thesis
    using same_slice_trans [OF view same_slice_trans [OF take_lines_same_slice [OF same] same_slice_sym [OF view]]] .
qed

text \<open>A transaction does not notice a step of another one.\<close>

lemma reserve_running_confined:
  assumes "reserve_running clk t db" "confined locks rows ids db db'"
    and "rx_locks t \<inter> locks = {}" "fst ` set (rx_lines t) \<inter> ids = {}" "locks \<subseteq> {pid. known db pid}"
  shows "reserve_running clk t db'"
proof -
  note D = reserve_runningD [OF assms(1)]
  have slice: "same_slice pid db db'" if "pid \<in> rx_locks t \<or> \<not> known db pid" for pid
    using that assms(2,3,5) by (auto simp: confined_def)
  have known: "known db' pid = known db pid" for pid using assms(2) by (simp add: confined_def)
  have view: "product_get pid (reserve_view clk t db') = product_get pid (reserve_view clk t db)"
    if "pid \<in> rx_locks t" for pid
    using reserve_view_slice [OF slice, of pid] that by (simp add: same_slice_def)
  have "\<forall>d \<in> set (rx_done t). ri_quantity (fst d) \<le> 0 \<or> same_slice (ri_product (fst d)) db db'"
    using D(5) slice by blast
  then have decided: "decided clk (rx_ref t) (rx_key t) (rx_done t) db'"
    using D(1) decided_local by blast
  show ?thesis
  proof (rule reserve_runningI)
    fix p assume row: "rx_row t = Some p"
    obtain item items where todo: "rx_todo t = item # items"
      using D(10) [OF row] by (auto simp: neq_Nil_conv)
    with D(9) [OF row todo] view show "\<exists>item items. rx_todo t = item # items \<and> 0 < ri_quantity item
        \<and> ri_product item \<in> rx_locks t \<and> product_get (ri_product item) (reserve_view clk t db') = Some p"
      by simp
  next
    fix i assume i: "i \<in> fst ` set (rx_lines t)"
    then have "i \<notin> ids" using assms(4) by blast
    with D(12) [OF i] show "i < res_seq db' \<and> i \<notin> r_id ` set (reservations db')"
      using assms(2) by (auto simp: confined_def)
  next
    show "ri_quantity (fst d) \<le> 0 \<or> ri_product (fst d) \<in> rx_locks t \<or> \<not> known db' (ri_product (fst d))"
      if "d \<in> set (rx_done t)" for d
      using D(5) [OF that] known by simp
    show "known db' l" if "l \<in> rx_locks t" for l using D(6) [OF that] known by simp
  qed (fact decided D(2-4,7,8,11))+
qed

lemma release_running_confined:
  assumes "release_running t db" "confined locks rows ids db db'" "row_ids t \<inter> rows = {}"
  shows "release_running t db'"
proof (cases "lx_rows t")
  case None
  then show ?thesis using assms(1) by (auto simp: release_running_def)
next
  case (Some rs)
  have rs: "locked_rows (lx_ref t) rs db" using assms(1) Some by (auto simp: release_running_def)
  have "r \<in> set (reservations db')" if "r \<in> set rs" for r
  proof -
    have "r \<in> set (reservations db)" using rs that by (simp add: locked_rows_def)
    moreover have "r_id r \<notin> rows" using assms(3) that Some by (auto simp: row_ids_def)
    ultimately show ?thesis using assms(2) by (simp add: confined_def)
  qed
  with rs have "locked_rows (lx_ref t) rs db'" by (simp add: locked_rows_def)
  with assms(1) Some show ?thesis by (auto simp: release_running_def)
qed

lemma txn_ok_confined:
  assumes "txn_ok clk op t db" "confined locks rows ids db db'"
    and "txn_locks t \<inter> locks = {}" "txn_rows t \<inter> rows = {}" "txn_ids t \<inter> ids = {}"
    and "locks \<subseteq> {pid. known db pid}"
  shows "txn_ok clk op t db'"
proof (cases t)
  case (ReserveTxn u)
  then show ?thesis
    using assms reserve_running_confined [of clk u db locks rows ids db']
    by (cases op) (auto simp: reserve_ok_def)
next
  case (ReleaseTxn u)
  then show ?thesis
    using assms release_running_confined [of u db locks rows ids db']
    by (cases op) (auto simp: release_ok_def split: option.splits)
qed

end
