(* ===== verification/InventoryIsolation.thy ===== *)
theory InventoryIsolation
  imports InventoryLocking
begin

text \<open>
  Every step of a transaction keeps its own invariant and the database's, and is confined to the
  rows it holds the locks of. So the invariant of the system of all transactions is inductive;
  it gives safety in every interleaving.
\<close>

section \<open>Giving rows back\<close>

lemma put_line_ids [simp]: "map r_id (reservations (put_line r db)) = map r_id (reservations db)"
  by (simp add: put_line_def Let_def)

lemma held_put:
  assumes "distinct (map r_id rs)" "r \<in> set rs" "r_status r = RESERVED"
  shows "sum_on r_quantity (filter (holds pid)
      (map (\<lambda>s. if r_id s = r_id r then s\<lparr>r_status := RELEASED\<rparr> else s) rs)) =
    sum_on r_quantity (filter (holds pid) rs) - (if r_product r = pid then r_quantity r else 0)"
  using assms
proof (induction rs)
  case (Cons s rs)
  show ?case
  proof (cases "r = s")
    case True
    then have "map (\<lambda>s. if r_id s = r_id r then s\<lparr>r_status := RELEASED\<rparr> else s) rs = rs"
      using Cons.prems(1) by (intro map_idI) (force simp: image_iff)
    with True Cons.prems(3) show ?thesis by (auto simp: holds_def)
  next
    case False
    with Cons show ?thesis by force
  qed
qed simp

lemma put_line_held:
  "db_ok db \<Longrightarrow> r \<in> set (reservations db) \<Longrightarrow> r_status r = RESERVED \<Longrightarrow>
     held (put_line r db) pid = held db pid - (if r_product r = pid then r_quantity r else 0)"
  using held_put [OF db_okD(3)] by (simp add: held_def put_line_def Let_def)

lemma put_line_stock:
  assumes "db_ok db" "r \<in> set (reservations db)" "r_status r = RESERVED"
  shows "stock (put_line r db) pid = stock db pid"
  using put_line_held [OF assms] put_line_available [OF db_okD(9) [OF assms(1,2)]] by (simp add: stock_def)

lemma index_ok_released:
  "index_ok rs \<Longrightarrow> index_ok (map (\<lambda>s. if P s then s\<lparr>r_status := RELEASED\<rparr> else s) rs)"
  by (induction rs) (force simp: index_ok_def indexed_def split: if_splits)+

lemma active_row_fits:
  assumes "db_ok db" "r \<in> set (reservations db)" "r_status r = RESERVED"
  shows "available db (r_product r) + r_quantity r \<le> max_int4"
proof -
  have "0 \<le> held db (r_product r) - r_quantity r"
  proof -
    have "0 \<le> sum_on r_quantity (filter (holds (r_product r)) (reservations (put_line r db)))"
      using db_okD(8) [OF assms(1)]
      by (intro sum_on_nonneg) (fastforce simp: put_line_def Let_def intro: order_less_imp_le split: if_splits)
    then show ?thesis using put_line_held [OF assms] by (simp add: held_def)
  qed
  then show ?thesis using stock_bound [OF assms(1), of "r_product r"] by (simp add: stock_def)
qed

lemma release_line_ok:
  assumes "db_ok db" "r \<in> set (reservations db)" "r_status r = RESERVED"
  shows "release_line r db = Inr (put_line r db)"
  using active_row_fits [OF assms] db_okD(8,9) [OF assms(1,2)] available_nonneg [OF assms(1)]
  by (intro release_line_put) auto

lemma put_line_db_ok:
  assumes ok: "db_ok db" and r: "r \<in> set (reservations db)" "r_status r = RESERVED"
  shows "db_ok (put_line r db)" (is "db_ok ?db")
proof (rule db_okI)
  fix s assume "s \<in> set (reservations ?db)"
  then obtain u where "u \<in> set (reservations db)" "s = u \<or> s = u\<lparr>r_status := RELEASED\<rparr>"
    by (auto simp: put_line_def Let_def split: if_splits)
  with ok show "r_id s < res_seq ?db" "0 < r_quantity s" "known ?db (r_product s)"
    "fits (r_order_ref s) \<and> fits (r_key s)"
    by (auto dest: db_okD)
next
  have "0 \<le> available ?db pid" for pid
    using available_nonneg [OF ok, of pid] db_okD(8) [OF ok r(1)]
    by (simp add: put_line_available [OF db_okD(9) [OF ok r(1)]])
  then show "0 \<le> p_available p" if "p \<in> set (products ?db)" for p
    using that ok by (intro products_available_nonneg [of ?db]) (simp_all add: db_okD)
  show "index_ok (reservations ?db)"
    using index_ok_released [OF db_okD(4) [OF ok]] by (simp add: put_line_def Let_def)
  show "stock ?db pid \<le> max_int4" for pid using put_line_stock [OF assms] stock_bound [OF ok] by simp
qed (use ok in \<open>simp_all add: db_okD\<close>)

lemma locked_rows_Cons:
  "locked_rows ref (r # rs) db \<Longrightarrow>
     r \<in> set (reservations db) \<and> r_status r = RESERVED \<and> locked_rows ref rs (put_line r db)"
proof -
  assume rows: "locked_rows ref (r # rs) db"
  then have free: "r_id r \<notin> r_id ` set rs" and sub: "set rs \<subseteq> set (reservations db)"
    by (auto simp: locked_rows_def)
  have "s \<in> set (reservations (put_line r db))" if "s \<in> set rs" for s
  proof -
    have "r_id s \<noteq> r_id r" using free that by (metis imageI)
    moreover have "s \<in> set (reservations db)" using sub that by blast
    ultimately show ?thesis
      using rev_image_eqI [of s "set (reservations db)" s
          "\<lambda>s. if r_id s = r_id r then s\<lparr>r_status := RELEASED\<rparr> else s"]
      by (simp add: put_line_def Let_def)
  qed
  with rows show ?thesis by (simp add: locked_rows_def)
qed

lemma put_lines_ok:
  "db_ok db \<Longrightarrow> locked_rows ref rs db \<Longrightarrow> db_ok (put_lines rs db)"
  by (induction rs arbitrary: db) (auto dest!: locked_rows_Cons intro: put_line_db_ok)

lemma put_lines_stock:
  "db_ok db \<Longrightarrow> locked_rows ref rs db \<Longrightarrow> stock (put_lines rs db) pid = stock db pid"
  by (induction rs arbitrary: db) (auto dest!: locked_rows_Cons simp: put_line_stock put_line_db_ok)

lemma put_lines_append [simp]: "put_lines (as @ bs) db = put_lines bs (put_lines as db)"
  by (induction as arbitrary: db) simp_all

lemma locked_rows_append:
  "locked_rows ref (as @ bs) db \<Longrightarrow> locked_rows ref as db \<and> locked_rows ref bs (put_lines as db)"
proof (induction as arbitrary: db)
  case (Cons r as)
  have "locked_rows ref (r # as) db" using Cons.prems by (simp add: locked_rows_def sorted_append)
  moreover have "locked_rows ref bs (put_lines as (put_line r db))"
    using Cons.IH [of "put_line r db"] locked_rows_Cons [of ref r "as @ bs" db] Cons.prems by simp
  ultimately show ?case by simp
qed (simp add: locked_rows_def)

lemma put_lines_ids [simp]: "map r_id (reservations (put_lines rs db)) = map r_id (reservations db)"
  by (induction rs arbitrary: db) simp_all

lemma put_lines_row:
  "s \<in> set (reservations (put_lines rs db)) \<longleftrightarrow> s \<in> set (reservations db) \<and> r_id s \<notin> r_id ` set rs
     \<or> (\<exists>u \<in> set (reservations db). r_id u \<in> r_id ` set rs \<and> s = u\<lparr>r_status := RELEASED\<rparr>)"
  unfolding put_lines_reservations by (auto simp del: image_iff split: if_splits)

lemma put_lines_confined:
  assumes ok: "db_ok db" and rs: "locked_rows ref rs db"
  shows "confined (r_product ` set rs) (r_id ` set rs) {} db (put_lines rs db)"
proof -
  have own: "s \<in> set rs" if "s \<in> set (reservations db)" "r_id s \<in> r_id ` set rs" for s
    using that rs db_okD(3) [OF ok] by (auto simp: locked_rows_def distinct_map inj_on_def)
  have get: "product_get pid (put_lines rs d) = product_get pid d" if "pid \<notin> r_product ` set rs" for pid d
    using that
  proof (induction rs arbitrary: d)
    case (Cons r rs)
    then show ?case
      by (simp add: product_get_def put_line_def Let_def find_write_available option.map_ident)
  qed simp
  have "same_slice pid db (put_lines rs db)" if pid: "pid \<notin> r_product ` set rs" for pid
  proof -
    have "r_id s \<notin> r_id ` set rs" if "s \<in> set (reservations db)" "r_product s = pid" for s
      using own [OF that(1)] that(2) pid by blast
    then have "s \<in> set (reservations (put_lines rs db)) \<longleftrightarrow> s \<in> set (reservations db)"
      if "r_product s = pid" for s
      using that put_lines_row [of s rs db] by fastforce
    then have "pid \<in> claimed key (put_lines rs db) \<longleftrightarrow> pid \<in> claimed key db" for key
      unfolding claimed_iff by blast
    then show ?thesis using get [OF pid] by (simp add: same_slice_def)
  qed
  moreover have "r_id ` set (reservations (put_lines rs db)) \<subseteq> r_id ` set (reservations db)"
    by (metis list.set_map order_refl put_lines_ids)
  ultimately show ?thesis by (simp add: confined_def put_lines_row)
qed

section \<open>What a reserving transaction sees\<close>

lemma view_shop:
  "reserve_running clk t db \<Longrightarrow>
     same_shop (reserve_view clk t db) (take_lines clk (rx_ref t) (rx_key t) (taken (rx_done t)) db)"
  using insert_lines_shop [OF same_shop_refl, of clk "rx_ref t" "rx_key t" "rx_lines t" db]
  by (simp add: reserve_view_def reserve_running_def)

lemma take_lines_known [simp]: "known (take_lines clk ref key items db) pid = known db pid"
  by (induction items arbitrary: db) simp_all

lemma line_verdict_view:
  "reserve_running clk t db \<Longrightarrow> line_verdict (rx_ref t) (rx_key t) item (reserve_view clk t db) =
     line_verdict (rx_ref t) (rx_key t) item (take_lines clk (rx_ref t) (rx_key t) (taken (rx_done t)) db)"
  using same_shop_facts(8) [OF view_shop] by (intro line_verdict_local) blast

lemma view_known: "known (reserve_view clk t db) pid = known db pid"
  unfolding reserve_view_def
  using same_shop_facts(2) [OF insert_lines_shop [OF same_shop_refl]] by simp

lemma view_max:
  assumes "reserve_running clk t db" "db_ok db" "product_get pid (reserve_view clk t db) = Some p"
  shows "p_available p \<le> max_int4"
proof -
  have "db_ok (take_lines clk (rx_ref t) (rx_key t) (taken (rx_done t)) db)"
    using assms(1,2) by (intro decided_take_lines) (simp_all add: reserve_running_def)
  then show ?thesis
    using available_column same_shop_facts(1) [OF view_shop [OF assms(1)]] assms(3) by metis
qed

text \<open>The invariant survives a decision, with or without the writes of an accepted line.\<close>

lemma refuse_running:
  assumes run: "reserve_running clk t db" and todo: "rx_todo t = item # items"
    and v: "line_verdict (rx_ref t) (rx_key t) item (reserve_view clk t db) = Inr (Refuse reason)"
    and scope: "ri_quantity item \<le> 0 \<or> ri_product item \<in> rx_locks t \<or> \<not> known db (ri_product item)"
  shows "reserve_running clk (refuse item reason t) db"
  using run scope v [unfolded line_verdict_view [OF run]] todo
  unfolding reserve_running_def by (simp add: refuse_def decided_snoc)

lemma select_running:
  assumes run: "reserve_running clk t db" and todo: "rx_todo t = item # items" "0 < ri_quantity item"
    and p: "product_get (ri_product item) (reserve_view clk t db) = Some p"
  shows "reserve_running clk (t\<lparr>rx_row := Some p, rx_locks := insert (ri_product item) (rx_locks t)\<rparr>) db"
proof -
  let ?t = "t\<lparr>rx_row := Some p, rx_locks := insert (ri_product item) (rx_locks t)\<rparr>"
  have known: "known db (ri_product item)" using p view_known by (metis known_def option.distinct(1))
  have least: "\<forall>i \<in> set (rx_todo t). ri_product item \<le> ri_product i"
    using reserve_runningD(8) [OF run] todo(1) by simp
  show ?thesis
  proof (rule reserve_runningI)
    show "known db l" if "l \<in> rx_locks ?t" for l using that known reserve_runningD(6) [OF run] by auto
    show "l \<le> ri_product i" if "l \<in> rx_locks ?t" "i \<in> set (rx_todo ?t)" for l i
      using that least reserve_runningD(7) [OF run] by auto
    show "ri_quantity (fst d) \<le> 0 \<or> ri_product (fst d) \<in> rx_locks ?t \<or> \<not> known db (ri_product (fst d))"
      if "d \<in> set (rx_done ?t)" for d
      using that reserve_runningD(5) [OF run, of d] by auto
    show "i < res_seq db \<and> i \<notin> r_id ` set (reservations db)" if "i \<in> fst ` set (rx_lines ?t)" for i
      using that reserve_runningD(12) [OF run] by simp
  qed (use todo p reserve_runningD(1-4,8,11) [OF run] in \<open>simp_all add: reserve_view_def\<close>)
qed

lemma save_running:
  assumes run: "reserve_running clk t db" and ok: "db_ok db" and todo: "rx_todo t = item # items"
    and v: "line_verdict (rx_ref t) (rx_key t) item (reserve_view clk t db) = Inr Take"
    and lock: "ri_product item \<in> rx_locks t"
  shows "reserve_running clk
      (t\<lparr>rx_todo := items, rx_row := None, rx_lines := rx_lines t @ [(res_seq db, item)],
         rx_outcomes := rx_outcomes t @ [reserved_outcome (ri_product item)],
         rx_done := rx_done t @ [(item, Take)]\<rparr>)
      (db\<lparr>res_seq := res_seq db + 1\<rparr>)" (is "reserve_running clk ?t ?db")
proof -
  note D = reserve_runningD [OF run]
  have same: "same_shop db ?db" by (simp add: same_shop_def)
  have slice: "same_slice pid db ?db" for pid by (rule same_shop_facts(8) [OF same])
  have "decided clk (rx_ref t) (rx_key t) (rx_done t @ [(item, Take)]) db"
    using run v [unfolded line_verdict_view [OF run]] by (simp add: decided_snoc reserve_running_def)
  then have decided: "decided clk (rx_ref ?t) (rx_key ?t) (rx_done ?t) ?db"
    using decided_local [of "rx_done t @ [(item, Take)]" db ?db] slice by simp
  have fresh: "res_seq db \<notin> r_id ` set (reservations db)" using db_okD(7) [OF ok] by fastforce
  have known: "known ?db pid = known db pid" for pid using same_shop_facts(2) [OF same] by simp
  show ?thesis
  proof (rule reserve_runningI)
    show "i < res_seq ?db \<and> i \<notin> r_id ` set (reservations ?db)" if "i \<in> fst ` set (rx_lines ?t)" for i
    proof -
      have "i = res_seq db \<or> i \<in> fst ` set (rx_lines t)" using that by simp
      then show ?thesis using fresh D(12) [of i] by (elim disjE) simp_all
    qed
    have "res_seq db \<notin> fst ` set (rx_lines t)" using D(12) by blast
    then show "distinct (map fst (rx_lines ?t))" using D(11) by simp
    show "known ?db l" if "l \<in> rx_locks ?t" for l using that D(6) known by simp
    show "l \<le> ri_product i" if "l \<in> rx_locks ?t" "i \<in> set (rx_todo ?t)" for l i
      using that D(7) todo by simp
    show "ri_quantity (fst d) \<le> 0 \<or> ri_product (fst d) \<in> rx_locks ?t \<or> \<not> known ?db (ri_product (fst d))"
      if "d \<in> set (rx_done ?t)" for d
      using that D(5) [of d] lock known by auto
  qed (use todo D(2-4,8) decided in simp_all)
qed

section \<open>The commit of a reservation\<close>

lemma decided_taken:
  "decided clk ref key ds db \<Longrightarrow> item \<in> set (taken ds) \<Longrightarrow>
     0 < ri_quantity item \<and> known db (ri_product item) \<and> (item, Take) \<in> set ds"
proof (induction ds arbitrary: db)
  case (Cons d ds)
  then show ?case
    by (cases d; cases "snd d") (fastforce dest: take_verdict simp: line_fits_def)+
qed simp

lemma taken_locked:
  assumes "reserve_running clk t db" "item \<in> set (map snd (rx_lines t))"
  shows "ri_product item \<in> rx_locks t" "known db (ri_product item)"
proof -
  have taken: "item \<in> set (taken (rx_done t))" using assms reserve_runningD(2) [OF assms(1)] by simp
  note d = decided_taken [OF reserve_runningD(1) [OF assms(1)] taken]
  from d show "known db (ri_product item)" by simp
  from d have "(item, Take) \<in> set (rx_done t)" by simp
  from reserve_runningD(5) [OF assms(1) this] d show "ri_product item \<in> rx_locks t" by simp
qed


lemma take_lines_frame:
  "pid \<notin> ri_product ` set items \<Longrightarrow> same_slice pid db (take_lines clk ref key items db)"
proof (induction items arbitrary: db)
  case (Cons item items)
  show ?case using Cons.prems by (auto intro: same_slice_trans [OF take_line_frame Cons.IH])
qed simp

lemma view_ids:
  "map r_id (reservations (reserve_view clk t db)) = map r_id (reservations db) @ map fst (rx_lines t)"
  by (simp add: reserve_view_def insert_lines_sel comp_def case_prod_beta)

lemma view_seq [simp]: "res_seq (reserve_view clk t db) = res_seq db"
  by (simp add: reserve_view_def insert_lines_sel)

lemma view_db_ok:
  assumes run: "reserve_running clk t db" and ok: "db_ok db"
  shows "db_ok (reserve_view clk t db)"
proof (rule same_shop_db_ok)
  note D = reserve_runningD [OF run]
  show "same_shop (reserve_view clk t db) (take_lines clk (rx_ref t) (rx_key t) (taken (rx_done t)) db)"
    by (rule view_shop [OF run])
  show "db_ok (take_lines clk (rx_ref t) (rx_key t) (taken (rx_done t)) db)"
    using ok D(1) by (rule decided_take_lines)
  have "set (map fst (rx_lines t)) \<inter> set (map r_id (reservations db)) = {}" using D(12) by auto
  then show "distinct (map r_id (reservations (reserve_view clk t db)))"
    unfolding view_ids using db_okD(3) [OF ok] D(11) by (simp only: distinct_append) blast
  have "\<forall>i \<in> set (map r_id (reservations (reserve_view clk t db))). i < res_seq db"
    unfolding view_ids using D(12) db_okD(7) [OF ok] by auto
  then show "\<forall>r \<in> set (reservations (reserve_view clk t db)). r_id r < res_seq (reserve_view clk t db)"
    by simp
qed

lemma view_stock:
  assumes run: "reserve_running clk t db"
  shows "stock (reserve_view clk t db) pid = stock db pid"
proof -
  have "\<forall>item \<in> set (taken (rx_done t)). known db (ri_product item)"
    using decided_taken [OF reserve_runningD(1) [OF run]] by blast
  then show ?thesis using same_shop_facts(5) [OF view_shop [OF run]] take_lines_stock by metis
qed

lemma view_confined:
  assumes run: "reserve_running clk t db"
  shows "confined (rx_locks t) {} (fst ` set (rx_lines t)) db (reserve_view clk t db)"
proof -
  have "same_slice pid db (reserve_view clk t db)" if "pid \<notin> rx_locks t" for pid
  proof -
    have "pid \<notin> ri_product ` set (map snd (rx_lines t))" using that taken_locked(1) [OF run] by blast
    then have "same_slice pid db (take_lines clk (rx_ref t) (rx_key t) (taken (rx_done t)) db)"
      unfolding reserve_runningD(2) [OF run] by (rule take_lines_frame)
    then show ?thesis using same_shop_facts(8) [OF view_shop [OF run]]
      by (blast intro: same_slice_trans same_slice_sym)
  qed
  moreover have "r_id ` set (reservations (reserve_view clk t db)) =
      r_id ` set (reservations db) \<union> fst ` set (rx_lines t)"
    using arg_cong [OF view_ids, of set clk t db] by simp
  moreover have "set (reservations db) \<subseteq> set (reservations (reserve_view clk t db))"
    by (simp add: reserve_view_def insert_lines_sel)
  ultimately show ?thesis by (auto simp: confined_def view_known)
qed

section \<open>One step of a transaction\<close>

text \<open>
  What a step of a transaction guarantees to the others: it keeps the database invariant and every
  product's stock, writes only under the locks and ids it holds, and acquires only locks that
  nobody else has, and ids that nobody has drawn.
\<close>

definition step_guarantee ::
  "int set \<Rightarrow> int set \<Rightarrow> txn \<times> inventory_db \<Rightarrow> txn \<times> inventory_db \<Rightarrow> bool" where
  "step_guarantee busy busy_rows = (\<lambda>(t, db) (t', db').
     db_ok db' \<and> (\<forall>pid. stock db' pid = stock db pid)
     \<and> confined (txn_locks t) (txn_rows t) (txn_ids t) db db'
     \<and> txn_locks t' \<subseteq> txn_locks t \<union> (- busy)
     \<and> txn_rows t' \<subseteq> txn_rows t \<union> (- busy_rows)
     \<and> txn_ids t' \<subseteq> txn_ids t \<union> {i. i = res_seq db \<and> res_seq db < res_seq db'})"

lemma seq_guarantee:
  "db_ok db \<Longrightarrow> db_ok (db\<lparr>res_seq := res_seq db + 1\<rparr>)
     \<and> (\<forall>pid. stock (db\<lparr>res_seq := res_seq db + 1\<rparr>) pid = stock db pid)
     \<and> confined locks rows ids db (db\<lparr>res_seq := res_seq db + 1\<rparr>)"
proof -
  assume ok: "db_ok db"
  have same: "same_shop (db\<lparr>res_seq := res_seq db + 1\<rparr>) db" by (simp add: same_shop_def)
  have "\<forall>r \<in> set (reservations db). r_id r < res_seq db + 1" using db_okD(7) [OF ok] by fastforce
  then have "db_ok (db\<lparr>res_seq := res_seq db + 1\<rparr>)"
    using same_shop_db_ok [OF ok same] db_okD(3) [OF ok] by simp
  moreover have "same_slice pid db (db\<lparr>res_seq := res_seq db + 1\<rparr>)" for pid
    using same_slice_sym [OF same_shop_facts(8) [OF same]] .
  ultimately show ?thesis
    using same_shop_facts(2,5) [OF same] by (simp add: confined_def)
qed

lemma finish_sel [simp]:
  "rx_ref (finish r t) = rx_ref t" "rx_key (finish r t) = rx_key t" "rx_result (finish r t) = Some r"
  "rx_locks (finish r t) = {}" "rx_lines (finish r t) = []" "rx_todo (finish r t) = []"
  by (simp_all add: finish_def)

lemma idle_finish [simp]: "reserve_idle (finish r t)"
  by (simp add: reserve_idle_def)

lemma finished_ok [simp]:
  "reserve_ok clk (rx_ref t) items (rx_key t) (finish r t) db"
  by (simp add: reserve_ok_def)

lemma finish_release_sel [simp]:
  "lx_ref (finish_release r t) = lx_ref t" "lx_result (finish_release r t) = Some r"
  "lx_locks (finish_release r t) = {}" "lx_rows (finish_release r t) = None"
  "lx_todo (finish_release r t) = []"
  by (simp_all add: finish_release_def)

lemma write_verdict:
  assumes run: "reserve_running clk t db" and ok: "db_ok db" and row: "rx_row t = Some p" "rx_todo t = item # items"
    and enough: "ri_quantity item \<le> p_available p"
  shows "line_verdict (rx_ref t) (rx_key t) item (reserve_view clk t db) =
    (case write_line clk (rx_ref t) (rx_key t) item p (reserve_view clk t db) of
       Inl e \<Rightarrow> Inl e | Inr _ \<Rightarrow> Inr Take)"
proof -
  from reserve_runningD(9) [OF run row] have pos: "0 < ri_quantity item"
    and get: "product_get (ri_product item) (reserve_view clk t db) = Some p" by auto
  show ?thesis
    unfolding write_line_cases [OF get pos enough view_max [OF run ok get]]
    using pos enough get by (simp add: line_verdict_def)
qed

lemma reserve_ok_running:
  "reserve_ok clk ref items key t db \<Longrightarrow> rx_result t = None \<Longrightarrow>
     rx_ref t = ref \<and> rx_key t = key \<and> reserve_running clk t db
     \<and> map fst (rx_done t) @ rx_todo t = sort_key ri_product items
     \<and> (if rx_begun t then items \<noteq> [] else rx_done t = [] \<and> rx_row t = None \<and> reserve_idle t)"
  by (simp add: reserve_ok_def)

lemma reserve_okI:
  "rx_ref t = ref \<Longrightarrow> rx_key t = key \<Longrightarrow> rx_result t = None \<Longrightarrow> rx_begun t \<Longrightarrow> reserve_running clk t db \<Longrightarrow>
     map fst (rx_done t) @ rx_todo t = sort_key ri_product items \<Longrightarrow> items \<noteq> [] \<Longrightarrow> reserve_ok clk ref items key t db"
  by (simp add: reserve_ok_def)

lemma reserve_running_begun [simp]:
  "reserve_running clk (t\<lparr>rx_begun := b\<rparr>) db = reserve_running clk t db"
  by (simp add: reserve_running_def reserve_view_def)

lemma refuse_sel [simp]:
  "rx_ref (refuse item reason t) = rx_ref t" "rx_key (refuse item reason t) = rx_key t"
  "rx_result (refuse item reason t) = rx_result t" "rx_begun (refuse item reason t) = rx_begun t"
  "rx_locks (refuse item reason t) = rx_locks t" "rx_lines (refuse item reason t) = rx_lines t"
  "rx_todo (refuse item reason t) = tl (rx_todo t)"
  "rx_done (refuse item reason t) = rx_done t @ [(item, Refuse reason)]"
  by (simp_all add: refuse_def)

lemma refuse_ok:
  assumes "reserve_ok clk ref items key t db" "rx_result t = None" "rx_begun t" "rx_todo t = item # rest"
    and "line_verdict ref key item (reserve_view clk t db) = Inr (Refuse reason)"
    and "ri_quantity item \<le> 0 \<or> ri_product item \<in> rx_locks t \<or> \<not> known db (ri_product item)"
  shows "reserve_ok clk ref items key (refuse item reason t) db"
  using reserve_ok_running [OF assms(1,2)] assms(2-) refuse_running [of clk t db item rest reason]
  by (intro reserve_okI) auto

lemma still_guarantee:
  assumes "db_ok db" "txn_locks t' \<subseteq> txn_locks t" "txn_rows t' \<subseteq> txn_rows t" "txn_ids t' \<subseteq> txn_ids t"
  shows "step_guarantee busy busy_rows (t, db) (t', db)"
    and "step_guarantee busy busy_rows (t, db) (t', db\<lparr>res_seq := res_seq db + 1\<rparr>)"
  using assms seq_guarantee [OF assms(1)] by (auto simp: step_guarantee_def)

lemma reserve_step_ok:
  assumes step: "reserve_txn_step clk busy (t, db) (t', db')"
    and inv: "reserve_ok clk ref items key t db" and ok: "db_ok db"
  shows "reserve_ok clk ref items key t' db'
    \<and> step_guarantee busy busy_rows (ReserveTxn t, db) (ReserveTxn t', db')"
  using step
proof cases
  case empty
  then show ?thesis using inv ok
    by (auto simp: reserve_ok_def intro!: still_guarantee)
next
  case replay
  then show ?thesis using inv ok by (auto simp: reserve_ok_def intro!: still_guarantee)
next
  case start
  then show ?thesis using inv ok by (auto simp: reserve_ok_def intro!: still_guarantee)
next
  case (nonpositive item rest)
  then show ?thesis using inv ok
    by (auto intro!: still_guarantee refuse_ok simp: line_verdict_def)
next
  case (missing item rest)
  have "\<not> known db (ri_product item)" using missing(8) view_known by (metis known_def)
  with missing show ?thesis using inv ok
    by (auto intro!: still_guarantee refuse_ok simp: line_verdict_def)
next
  case (select item rest p)
  note run = reserve_ok_running [OF inv select(3)]
  have "reserve_ok clk ref items key t' db'"
    using run select select_running [of clk t db item rest p] by (intro reserve_okI) auto
  moreover have "step_guarantee busy busy_rows (ReserveTxn t, db) (ReserveTxn t', db')"
    using select ok by (auto simp: step_guarantee_def)
  ultimately show ?thesis ..
next
  case (short item rest p)
  note run = reserve_ok_running [OF inv short(3)]
  from run reserve_runningD(9) [of clk t db p item rest] short have
    "0 < ri_quantity item \<and> ri_product item \<in> rx_locks t
      \<and> product_get (ri_product item) (reserve_view clk t db) = Some p" by blast
  then show ?thesis using inv ok short
    by (auto intro!: still_guarantee refuse_ok simp: line_verdict_def)
next
  case (save item rest p db1 db2)
  note run = reserve_ok_running [OF inv save(3)]
  have "write_line clk (rx_ref t) (rx_key t) item p (reserve_view clk t db) = Inr db2"
    using save by (simp add: write_line_def and_then_def)
  then have v: "line_verdict (rx_ref t) (rx_key t) item (reserve_view clk t db) = Inr Take"
    using write_verdict [of clk t db p item rest] run ok save by simp
  have lock: "ri_product item \<in> rx_locks t"
    using run reserve_runningD(9) [of clk t db p item rest] save by blast
  have "reserve_ok clk ref items key t' db'"
    using run save save_running [of clk t db item rest] ok v lock by (intro reserve_okI) auto
  moreover have "step_guarantee busy busy_rows (ReserveTxn t, db) (ReserveTxn t', db')"
    using save seq_guarantee [OF ok] by (auto simp: step_guarantee_def)
  ultimately show ?thesis ..
next
  case failed
  then show ?thesis using inv ok by (auto simp: reserve_ok_def intro!: still_guarantee)
next
  case rollback
  then show ?thesis using inv ok by (auto simp: reserve_ok_def intro!: still_guarantee)
next
  case commit
  note run = reserve_ok_running [OF inv commit(3)]
  have "reserve_ok clk ref items key t' db'" using run commit by auto
  moreover have "step_guarantee busy busy_rows (ReserveTxn t, db) (ReserveTxn t', db')"
    using commit run view_db_ok [OF _ ok] view_stock view_confined by (auto simp: step_guarantee_def)
  ultimately show ?thesis ..
qed

lemma release_ok_running:
  "release_ok ref t db \<Longrightarrow> lx_result t = None \<Longrightarrow> lx_ref t = ref \<and> release_running t db"
  by (simp add: release_ok_def)

lemma release_rows_running:
  assumes "release_running t db" "lx_rows t = Some rows"
  shows "rows = lx_given t @ lx_todo t" "locked_rows (lx_ref t) rows db" "lx_seen t \<noteq> None"
    "lx_locks t = r_product ` set (lx_given t)" "row_ids t = r_id ` set rows"
proof -
  from assms have "lx_seen t \<noteq> None \<and> rows = lx_given t @ lx_todo t \<and> locked_rows (lx_ref t) rows db"
    by (cases "lx_seen t") (auto simp: release_running_def)
  then show "rows = lx_given t @ lx_todo t" "locked_rows (lx_ref t) rows db" "lx_seen t \<noteq> None"
    by blast+
qed (use assms in \<open>simp_all add: release_running_def row_ids_def\<close>)

lemma todo_rows: "release_running t db \<Longrightarrow> lx_todo t \<noteq> [] \<Longrightarrow> \<exists>rows. lx_rows t = Some rows"
  by (cases "lx_rows t") (simp_all add: release_running_def)

text \<open>The next row of a release can always be given back: the update never overflows.\<close>

lemma release_next:
  assumes "release_running t db" "db_ok db" "lx_todo t = r # rs"
  shows "release_line r (release_view t db) = Inr (put_line r (release_view t db))"
    "r \<in> set (reservations db)" "r_product r \<notin> lx_locks t \<Longrightarrow> \<forall>l \<in> lx_locks t. l \<le> r_product r"
proof -
  obtain rows where rows: "lx_rows t = Some rows" using todo_rows [OF assms(1)] assms(3) by auto
  note R = release_rows_running [OF assms(1) rows]
  have "locked_rows (lx_ref t) (lx_given t) db" "locked_rows (lx_ref t) (r # rs) (release_view t db)"
    using locked_rows_append R(2) assms(3) unfolding R(1) release_view_def by metis+
  then show "release_line r (release_view t db) = Inr (put_line r (release_view t db))"
    using locked_rows_Cons put_lines_ok [OF assms(2)] release_line_ok unfolding release_view_def by blast
  show "r \<in> set (reservations db)" using R(1,2) assms(3) by (simp add: locked_rows_def)
  show "\<forall>l \<in> lx_locks t. l \<le> r_product r"
    using R(1,2,4) assms(3) by (auto simp: locked_rows_def sorted_append)
qed

lemma release_next_bounds:
  assumes run: "release_running t db" and ok: "db_ok db" and todo: "lx_todo t = r # rs"
  shows "0 \<le> available (release_view t db) (r_product r) + r_quantity r"
    "available (release_view t db) (r_product r) + r_quantity r \<le> max_int4"
proof -
  obtain rows where rows: "lx_rows t = Some rows" using todo_rows [OF run] todo by auto
  note R = release_rows_running [OF run rows]
  have given: "locked_rows (lx_ref t) (lx_given t) db" "locked_rows (lx_ref t) (r # rs) (release_view t db)"
    using locked_rows_append R(2) todo unfolding R(1) release_view_def by metis+
  have view: "db_ok (release_view t db)" using put_lines_ok [OF ok given(1)] by (simp add: release_view_def)
  from locked_rows_Cons [OF given(2)] have r: "r \<in> set (reservations (release_view t db))" "r_status r = RESERVED"
    by blast+
  show "available (release_view t db) (r_product r) + r_quantity r \<le> max_int4"
    by (rule active_row_fits [OF view r])
  show "0 \<le> available (release_view t db) (r_product r) + r_quantity r"
    using available_nonneg [OF view, of "r_product r"] db_okD(8) [OF view r(1)] by linarith
qed

lemma release_step_ok:
  assumes step: "release_txn_step busy busy_rows (t, db) (t', db')"
    and inv: "release_ok ref t db" and ok: "db_ok db"
  shows "release_ok ref t' db'
    \<and> step_guarantee busy busy_rows (ReleaseTxn t, db) (ReleaseTxn t', db')"
  using step
proof cases
  case see
  from release_ok_running [OF inv see(3)] see(4) have "lx_rows t = None" "lx_todo t = []" "lx_given t = []"
    "lx_locks t = {}"
    by (auto simp: release_running_def split: option.splits)
  moreover have "distinct (map r_id (active_by_order_ref (lx_ref t) db))"
    using db_okD(3) [OF ok] by (auto simp: active_by_order_ref_def distinct_map inj_on_def)
  moreover have "sorted (map r_product (active_by_order_ref (lx_ref t) db))"
    by (simp add: active_by_order_ref_def)
  ultimately show ?thesis
    using see inv ok by (auto simp: release_ok_def release_running_def row_ids_def intro!: still_guarantee)
next
  case (lock seen rows)
  note run = release_ok_running [OF inv lock(3)]
  from run lock have "lx_todo t = []" "lx_given t = []" "lx_locks t = {}" "sorted (map r_product seen)"
    "distinct (map r_id seen)"
    by (auto simp: release_running_def)
  moreover from this have "locked_rows (lx_ref t) rows db"
    unfolding lock(7) by (auto simp: locked_rows_def sorted_filter distinct_map_filter)
  moreover have "r_id ` set rows \<subseteq> - busy_rows" unfolding lock(7) using lock(6) by auto
  ultimately show ?thesis
    using lock run ok by (auto simp: release_ok_def release_running_def step_guarantee_def row_ids_def)
next
  case (give r rs db1)
  note run = release_ok_running [OF inv give(3)]
  then obtain rows where rows: "lx_rows t = Some rows" using todo_rows give(4) by fastforce
  note R = release_rows_running [OF conjunct2 [OF run] rows]
  have "release_ok ref t' db'"
    using give run rows R by (auto simp: release_ok_def release_running_def)
  moreover have "step_guarantee busy busy_rows (ReleaseTxn t, db) (ReleaseTxn t', db')"
    using give ok rows by (auto simp: step_guarantee_def row_ids_def)
  ultimately show ?thesis ..
next
  case (failed r rs e)
  then show ?thesis using release_next(1) [OF _ ok failed(4)] release_ok_running [OF inv failed(3)] by simp
next
  case (commit rows)
  note run = release_ok_running [OF inv commit(3)]
  note R = release_rows_running [OF conjunct2 [OF run] commit(4)]
  have given: "locked_rows (lx_ref t) (lx_given t) db" "rows = lx_given t" using R commit(5) by auto
  have "step_guarantee busy busy_rows (ReleaseTxn t, db) (ReleaseTxn t', db')"
    using commit put_lines_ok [OF ok given(1)] put_lines_stock [OF ok given(1)]
      put_lines_confined [OF ok given(1)] R(4,5) given(2)
    by (auto simp: step_guarantee_def release_view_def row_ids_def)
  moreover have "release_ok ref t' db'" using commit run by (auto simp: release_ok_def)
  ultimately show ?thesis by simp
qed

lemma txn_step_ok:
  assumes "txn_step clk busy busy_rows (t, db) (t', db')" "txn_ok clk op t db" "db_ok db"
  shows "txn_ok clk op t' db' \<and> step_guarantee busy busy_rows (t, db) (t', db')"
  using assms reserve_step_ok release_step_ok by (cases op) (auto elim!: txn_step.cases)

end
