(* ===== verification/InventoryConcurrency.thy ===== *)
theory InventoryConcurrency
  imports InventoryIsolation
begin

text \<open>
  The system of all transactions: its invariant, that it never deadlocks, and that every run of it
  ends within a bound.
\<close>

section \<open>The invariant of the system\<close>

definition apart :: "(txn \<Rightarrow> 'a set) \<Rightarrow> txn list \<Rightarrow> bool" where
  "apart f ts \<longleftrightarrow> (\<forall>i < length ts. f (ts ! i) \<inter> others f ts i = {})"

definition isolated :: "(int \<Rightarrow> int) \<Rightarrow> inventory_op list \<Rightarrow> txn list \<times> inventory_db \<Rightarrow> bool" where
  "isolated clk ops = (\<lambda>(ts, db). db_ok db \<and> length ts = length ops
     \<and> (\<forall>i < length ts. txn_ok clk (ops ! i) (ts ! i) db)
     \<and> apart txn_locks ts \<and> apart txn_rows ts \<and> apart txn_ids ts)"

lemma in_others: "j < length ts \<Longrightarrow> j \<noteq> i \<Longrightarrow> f (ts ! j) \<subseteq> others f ts i"
  by (auto simp: others_def)

lemma apart_pair: "apart f ts \<Longrightarrow> i < length ts \<Longrightarrow> j < length ts \<Longrightarrow> i \<noteq> j \<Longrightarrow> f (ts ! i) \<inter> f (ts ! j) = {}"
  using in_others [of j ts i f] by (auto simp: apart_def)

lemma apartI:
  "(\<And>i j. i < length ts \<Longrightarrow> j < length ts \<Longrightarrow> i \<noteq> j \<Longrightarrow> f (ts ! i) \<inter> f (ts ! j) = {}) \<Longrightarrow> apart f ts"
  by (fastforce simp: apart_def others_def)

lemma apart_update:
  assumes "apart f ts" "i < length ts" "f t' \<subseteq> f (ts ! i) \<union> - others f ts i"
  shows "apart f (ts[i := t'])"
proof (rule apartI)
  have new: "f t' \<inter> f (ts ! j) = {}" if "j < length ts" "j \<noteq> i" for j
    using assms(3) in_others [OF that, of f] apart_pair [OF assms(1,2) that(1)] that(2) by fastforce
  fix a b assume "a < length (ts[i := t'])" "b < length (ts[i := t'])" "a \<noteq> b"
  then show "f (ts[i := t'] ! a) \<inter> f (ts[i := t'] ! b) = {}"
    using new [of a] new [of b] apart_pair [OF assms(1), of a b]
    by (cases "a = i"; cases "b = i") (simp_all add: Int_commute)
qed

lemma txn_locks_known:
  assumes "txn_ok clk op t db" "db_ok db"
  shows "txn_locks t \<subseteq> {pid. known db pid}"
proof (cases t)
  case (ReserveTxn u)
  with assms(1) show ?thesis
    by (cases op) (auto simp: reserve_ok_def reserve_idle_def reserve_runningD(6) split: if_splits)
next
  case (ReleaseTxn u)
  have "known db pid" if pid: "pid \<in> lx_locks u" for pid
  proof -
    have run: "release_running u db" using pid ReleaseTxn assms(1)
      by (cases op) (auto simp: release_ok_def split: option.splits)
    then obtain rows where rows: "lx_rows u = Some rows"
      using pid by (cases "lx_rows u") (auto simp: release_running_def)
    note R = release_rows_running [OF run rows]
    show ?thesis using pid R(1,2,4) db_okD(9) [OF assms(2)] by (auto simp: locked_rows_def)
  qed
  with ReleaseTxn show ?thesis by auto
qed

lemma txn_ids_drawn: "txn_ok clk op t db \<Longrightarrow> i \<in> txn_ids t \<Longrightarrow> i < res_seq db"
  by (cases t; cases op) (auto simp: reserve_ok_def reserve_idle_def dest: reserve_runningD(12) split: if_splits)

lemma isolated_step:
  assumes inv: "isolated clk ops (ts, db)" and step: "inventory_step_at clk (ts, db) (ts', db')"
  shows "isolated clk ops (ts', db') \<and> (\<forall>pid. stock db' pid = stock db pid)"
  using step
proof cases
  case (step i t')
  from inv have ok: "db_ok db" and len: "length ts = length ops"
    and txns: "\<And>j. j < length ts \<Longrightarrow> txn_ok clk (ops ! j) (ts ! j) db"
    and apart: "apart txn_locks ts" "apart txn_rows ts" "apart txn_ids ts"
    by (auto simp: isolated_def)
  from txn_step_ok [OF step(3) txns [OF step(2)] ok]
  have own: "txn_ok clk (ops ! i) t' db'" "db_ok db'" "\<forall>pid. stock db' pid = stock db pid"
    and conf: "confined (txn_locks (ts ! i)) (txn_rows (ts ! i)) (txn_ids (ts ! i)) db db'"
    and grow: "txn_locks t' \<subseteq> txn_locks (ts ! i) \<union> - others txn_locks ts i"
      "txn_rows t' \<subseteq> txn_rows (ts ! i) \<union> - others txn_rows ts i"
      "txn_ids t' \<subseteq> txn_ids (ts ! i) \<union> {i. i = res_seq db \<and> res_seq db < res_seq db'}"
    by (auto simp: step_guarantee_def)
  have "others txn_ids ts i \<subseteq> - {res_seq db}"
    using txn_ids_drawn [OF txns] by (fastforce simp: others_def)
  with grow(3) have "txn_ids t' \<subseteq> txn_ids (ts ! i) \<union> - others txn_ids ts i" by blast
  with grow apart step(2) have "apart txn_locks (ts[i := t'])" "apart txn_rows (ts[i := t'])"
    "apart txn_ids (ts[i := t'])"
    by (simp_all add: apart_update)
  moreover have "txn_ok clk (ops ! j) (ts[i := t'] ! j) db'" if "j < length ts" for j
  proof (cases "j = i")
    case False
    then have "txn_ok clk (ops ! j) (ts ! j) db'"
      using txn_ok_confined [OF txns [OF that] conf] apart_pair [OF _ that step(2)] apart
        txn_locks_known [OF txns [OF step(2)] ok] by blast
    with False show ?thesis by simp
  qed (use own step(2) in simp)
  ultimately show ?thesis using own len step(1) by (simp add: isolated_def)
qed

lemma isolated_start:
  assumes "db_ok db"
  shows "isolated clk ops (map new_txn ops, db)"
proof -
  have "txn_ok clk op (new_txn op) db \<and> txn_locks (new_txn op) = {} \<and> txn_rows (new_txn op) = {}
      \<and> txn_ids (new_txn op) = {}" for op
    by (cases op) (auto simp: new_reserve_def new_release_def reserve_ok_def reserve_running_def
        reserve_idle_def release_ok_def release_running_def row_ids_def)
  moreover from this have "apart txn_locks (map new_txn ops)" "apart txn_rows (map new_txn ops)"
    "apart txn_ids (map new_txn ops)"
    by (simp_all add: apart_def)
  ultimately show ?thesis using assms by (simp add: isolated_def)
qed

lemma isolated_reachable:
  assumes "db_ok db" "(inventory_step_at clk)\<^sup>*\<^sup>* (map new_txn ops, db) s"
  shows "isolated clk ops s \<and> (\<forall>pid. stock (snd s) pid = stock db pid)"
  using assms(2)
proof (induction rule: rtranclp_induct)
  case base
  then show ?case using isolated_start [OF assms(1)] by simp
next
  case (step s u)
  then show ?case
    using isolated_step [of clk ops "fst s" "snd s" "fst u" "snd u"] by simp
qed

section \<open>Waiting\<close>

text \<open>
  A transaction that cannot run its next statement waits for the row of one product, beyond all
  those it has locked, or, when it has locked nothing yet, for rows of reservations.
\<close>

definition waits_for :: "int \<Rightarrow> txn \<Rightarrow> bool" where
  "waits_for pid t \<longleftrightarrow> (\<forall>l \<in> txn_locks t. l \<le> pid)"

lemma reserve_progress:
  assumes inv: "reserve_ok clk ref items key t db" and ok: "db_ok db" and new: "rx_result t = None"
  shows "(\<exists>u. reserve_txn_step clk busy (t, db) u) \<or> (\<exists>pid \<in> busy. waits_for pid (ReserveTxn t))"
proof (cases "rx_begun t \<and> rx_todo t \<noteq> []")
  case False
  then consider "\<not> rx_begun t" "rx_todo t = []" | "\<not> rx_begun t" "rx_todo t \<noteq> []" "replayed (rx_key t) db \<noteq> []"
    | "\<not> rx_begun t" "rx_todo t \<noteq> []" "replayed (rx_key t) db = []"
    | "rx_begun t" "rx_todo t = []" "rx_all_ok t" | "rx_begun t" "rx_todo t = []" "\<not> rx_all_ok t"
    by blast
  then show ?thesis
    by cases (use new in \<open>blast intro: reserve_txn_step.intros\<close>)+
next
  case True
  note run = reserve_ok_running [OF inv new]
  from True obtain item rest where todo: "rx_begun t" "rx_todo t = item # rest"
    by (auto simp: neq_Nil_conv)
  show ?thesis
  proof (cases "rx_row t")
    case None
    show ?thesis
    proof (cases "0 < ri_quantity item \<and> product_get (ri_product item) (reserve_view clk t db) \<noteq> None
        \<and> ri_product item \<in> busy")
      case True
      have "waits_for (ri_product item) (ReserveTxn t)"
        using run todo reserve_runningD(7) [of clk t db _ item] by (simp add: waits_for_def)
      with True show ?thesis by blast
    next
      case False
      then consider "ri_quantity item \<le> 0"
        | "0 < ri_quantity item" "product_get (ri_product item) (reserve_view clk t db) = None"
        | p where "0 < ri_quantity item" "product_get (ri_product item) (reserve_view clk t db) = Some p"
            "ri_product item \<notin> busy"
        by force
      then show ?thesis
        by cases (use new todo None in \<open>blast intro: reserve_txn_step.intros\<close>)+
    qed
  next
    case (Some p)
    show ?thesis
    proof (cases "ri_quantity item \<le> p_available p")
      case True
      let ?up = "update_available (\<lambda>_. p_available p - ri_quantity item) (p_id p) (reserve_view clk t db)"
      let ?ins = "reservation_create clk (p_id p) (rx_ref t) (rx_key t) (ri_quantity item) RESERVED"
      show ?thesis
      proof (cases "and_then ?up ?ins")
        case (Inl e)
        then show ?thesis
          using reserve_txn_step.failed [OF new todo Some True Inl] by blast
      next
        case (Inr db2)
        then obtain db1 where "?up = Inr db1" "?ins db1 = Inr db2" by (auto simp: and_then_Inr_iff)
        then show ?thesis using reserve_txn_step.save [OF new todo Some True] by blast
      qed
    next
      case False
      then show ?thesis using reserve_txn_step.short [OF new todo Some] by fastforce
    qed
  qed
qed

lemma release_progress:
  assumes inv: "release_ok ref t db" and ok: "db_ok db" and new: "lx_result t = None"
  shows "(\<exists>u. release_txn_step busy busy_rows (t, db) u)
    \<or> (\<exists>pid \<in> busy. pid \<notin> lx_locks t \<longrightarrow> waits_for pid (ReleaseTxn t))
    \<or> busy_rows \<noteq> {} \<and> lx_rows t = None \<and> lx_locks t = {}"
proof (cases "lx_rows t")
  case None
  note run = release_ok_running [OF inv new]
  have "lx_locks t = {}" using run None by (auto simp: release_running_def)
  moreover have "\<exists>u. release_txn_step busy busy_rows (t, db) u" if "busy_rows = {}"
  proof (cases "lx_seen t")
    case None
    then show ?thesis using release_txn_step.see [OF new] by blast
  next
    case (Some seen)
    then show ?thesis using release_txn_step.lock [OF new Some \<open>lx_rows t = None\<close> _ refl] that by blast
  qed
  ultimately show ?thesis using None by blast
next
  case (Some rows)
  note run = release_ok_running [OF inv new]
  show ?thesis
  proof (cases "lx_todo t")
    case Nil
    then show ?thesis using release_txn_step.commit [OF new Some] by blast
  next
    case (Cons r rs)
    note next_row = release_next [OF conjunct2 [OF run] ok Cons]
    show ?thesis
    proof (cases "r_product r \<in> busy")
      case True
      then show ?thesis using next_row(3) by (auto simp: waits_for_def)
    next
      case False
      then show ?thesis using release_txn_step.give [OF new Cons False next_row(1)] by blast
    qed
  qed
qed

lemma txn_progress:
  assumes "txn_ok clk op t db" "db_ok db" "\<not> txn_finished t" "txn_locks t \<inter> busy = {}"
  shows "(\<exists>u. txn_step clk busy busy_rows (t, db) u) \<or> (\<exists>pid \<in> busy. waits_for pid t)
    \<or> busy_rows \<noteq> {} \<and> txn_rows t = {} \<and> txn_locks t = {}"
proof (cases t)
  case (ReserveTxn x)
  then obtain ref items key where "reserve_ok clk ref items key x db" using assms(1) by (cases op) auto
  from reserve_progress [OF this assms(2), of busy] show ?thesis
    using assms(3) ReserveTxn by (fastforce intro: txn_step.reserve)
next
  case (ReleaseTxn x)
  then obtain ref where "release_ok ref x db" using assms(1) by (cases op) auto
  from release_progress [OF this assms(2), of busy busy_rows] show ?thesis
    using assms(3,4) ReleaseTxn by (fastforce intro: txn_step.release simp: row_ids_def)
qed

lemma finished_free:
  assumes "txn_ok clk op t db" "txn_finished t"
  shows "txn_locks t = {}" "txn_rows t = {}"
  using assms by (cases t; cases op; auto simp: reserve_ok_def reserve_idle_def release_ok_def row_ids_def)+

text \<open>
  The transaction that waits for the greatest product is not held up by any: whoever has that
  row locked waits for a greater one.
\<close>

lemma no_deadlock:
  assumes inv: "isolated clk ops (ts, db)" and open_txn: "\<exists>t \<in> set ts. \<not> txn_finished t"
  shows "\<exists>u. inventory_step_at clk (ts, db) u"
proof (rule ccontr)
  assume stuck: "\<nexists>u. inventory_step_at clk (ts, db) u"
  from inv have ok: "db_ok db" and txns: "\<And>i. i < length ts \<Longrightarrow> txn_ok clk (ops ! i) (ts ! i) db"
    and apart: "apart txn_locks ts"
    by (auto simp: isolated_def)
  have blocked: "(\<exists>pid \<in> others txn_locks ts i. waits_for pid (ts ! i))
      \<or> others txn_rows ts i \<noteq> {} \<and> txn_rows (ts ! i) = {} \<and> txn_locks (ts ! i) = {}"
    if "i < length ts" "\<not> txn_finished (ts ! i)" for i
  proof -
    have "\<nexists>u. txn_step clk (others txn_locks ts i) (others txn_rows ts i) (ts ! i, db) u"
      using stuck inventory_step_at.step [OF that(1)] by (metis surj_pair)
    moreover have "txn_locks (ts ! i) \<inter> others txn_locks ts i = {}"
      using apart that(1) by (simp add: apart_def)
    ultimately show ?thesis using txn_progress [OF txns [OF that(1)] ok that(2)] by blast
  qed
  have holder: "\<exists>j. j < length ts \<and> \<not> txn_finished (ts ! j) \<and> x \<in> f (ts ! j)"
    if "x \<in> others f ts i" "f = txn_locks \<or> f = txn_rows" for x i and f :: "txn \<Rightarrow> int set"
    using that finished_free [OF txns] by (fastforce simp: others_def)
  let ?W = "{i. i < length ts \<and> \<not> txn_finished (ts ! i) \<and> (\<exists>pid \<in> others txn_locks ts i. waits_for pid (ts ! i))}"
  show False
  proof (cases "?W = {}")
    case True
    obtain i where "i < length ts" "\<not> txn_finished (ts ! i)" using open_txn by (auto simp: in_set_conv_nth)
    with blocked True have "others txn_rows ts i \<noteq> {}" by blast
    then obtain j x where "j < length ts" "\<not> txn_finished (ts ! j)" "x \<in> txn_rows (ts ! j)"
      using holder [of _ txn_rows i] by blast
    with blocked [of j] True show False by blast
  next
    case False
    have "\<exists>w. \<forall>i \<in> ?W. w i \<in> others txn_locks ts i \<and> waits_for (w i) (ts ! i)"
      by (rule bchoice) blast
    then obtain w where w: "\<forall>i \<in> ?W. w i \<in> others txn_locks ts i \<and> waits_for (w i) (ts ! i)" ..
    have fin: "finite ?W" by (rule finite_subset [of _ "{..< length ts}"]) auto
    from Max_in [of "w ` ?W"] fin False obtain i where i: "i \<in> ?W" "Max (w ` ?W) = w i" by fastforce
    from w i(1) have "w i \<in> others txn_locks ts i" by blast
    from holder [OF this] obtain j where j: "j < length ts" "\<not> txn_finished (ts ! j)" "w i \<in> txn_locks (ts ! j)"
      by blast
    then have jW: "j \<in> ?W" using blocked [OF j(1,2)] by blast
    with w have wj: "w j \<in> others txn_locks ts j" "waits_for (w j) (ts ! j)" by blast+
    have "w i \<le> w j" using wj(2) j(3) by (simp add: waits_for_def)
    moreover have "w i \<noteq> w j"
      using wj(1) j(1,3) apart unfolding apart_def by (metis disjoint_iff)
    moreover have "w j \<le> w i" using Max_ge [of "w ` ?W" "w j"] fin jW i(2) by simp
    ultimately show False by simp
  qed
qed

section \<open>Runs end\<close>

text \<open>
  \<open>room\<close> is how many rows a transaction may still add. With at most \<open>n\<close> rows in the table, now
  and later, \<open>steps_left n\<close> bounds the statements that a transaction has left.
\<close>

fun room :: "txn \<Rightarrow> nat" where
  "room (ReserveTxn t) = (if rx_result t = None then length (rx_lines t) + length (rx_todo t) else 0)"
| "room (ReleaseTxn t) = 0"

fun steps_left :: "nat \<Rightarrow> txn \<Rightarrow> nat" where
  "steps_left n (ReserveTxn t) = (if rx_result t \<noteq> None then 0
     else 2 + 2 * length (rx_todo t) + (if rx_begun t then 0 else 1) - (if rx_row t = None then 0 else 1))"
| "steps_left n (ReleaseTxn t) = (if lx_result t \<noteq> None then 0 else
     (case lx_seen t of None \<Rightarrow> n + 3 | Some seen \<Rightarrow>
        (case lx_rows t of None \<Rightarrow> length seen + 2 | Some _ \<Rightarrow> length (lx_todo t) + 1)))"

lemma put_lines_length [simp]: "length (reservations (put_lines rs db)) = length (reservations db)"
  by (simp add: put_lines_reservations)

lemma reserve_step_left:
  "reserve_txn_step clk busy (t, db) (t', db') \<Longrightarrow>
     length (reservations db') + room (ReserveTxn t') \<le> length (reservations db) + room (ReserveTxn t)
     \<and> steps_left n (ReserveTxn t') < steps_left n (ReserveTxn t)"
  by - (erule reserve_txn_step.cases;
      simp add: finish_def refuse_def reserve_view_def insert_lines_sel split: if_splits)

lemma release_step_left:
  assumes "release_txn_step busy busy_rows (t, db) (t', db')" "release_ok ref t db"
  shows "length (reservations db') = length (reservations db)"
    "length (reservations db) \<le> n \<Longrightarrow> steps_left n (ReleaseTxn t') < steps_left n (ReleaseTxn t)"
proof -
  show "length (reservations db') = length (reservations db)"
    using assms(1) by cases (simp_all add: release_view_def)
  have active: "length (active_by_order_ref r db) \<le> length (reservations db)" for r
    by (simp add: active_by_order_ref_def)
  assume n: "length (reservations db) \<le> n"
  show "steps_left n (ReleaseTxn t') < steps_left n (ReleaseTxn t)"
    using assms(1)
  proof cases
    case see
    have "lx_rows t = None" using see(3,4) assms(2) by (simp add: release_ok_def release_running_def)
    then show ?thesis using see active [of "lx_ref t"] n by simp
  next
    case (lock seen rows)
    have "length rows \<le> length seen" unfolding lock(7) by simp
    then show ?thesis using lock(1,3-5) by simp
  next
    case (give r rs db1)
    then obtain rows where "lx_rows t = Some rows"
      using release_ok_running [OF assms(2)] todo_rows by fastforce
    moreover obtain seen where "lx_seen t = Some seen"
      using calculation release_ok_running [OF assms(2) give(3)] release_rows_running(3) by blast
    ultimately show ?thesis using give by simp
  next
    case failed
    then show ?thesis by (simp split: option.split)
  next
    case commit
    then show ?thesis by (simp split: option.split)
  qed
qed

lemma txn_step_left:
  assumes "txn_step clk busy busy_rows (t, db) (t', db')" "txn_ok clk op t db"
  shows "length (reservations db') + room t' \<le> length (reservations db) + room t"
    "length (reservations db) \<le> n \<Longrightarrow> steps_left n t' < steps_left n t"
proof -
  show "length (reservations db') + room t' \<le> length (reservations db) + room t"
    using assms(1)
  proof cases
    case (reserve u u')
    then show ?thesis using reserve_step_left by blast
  next
    case (release u u')
    with assms(2) obtain ref where "release_ok ref u db" by (cases op) auto
    with release release_step_left(1) [OF release(3)] show ?thesis by simp
  qed
  show "steps_left n t' < steps_left n t" if "length (reservations db) \<le> n"
    using assms(1)
  proof cases
    case (reserve u u')
    then show ?thesis using reserve_step_left by blast
  next
    case (release u u')
    with assms(2) obtain ref where "release_ok ref u db" by (cases op) auto
    with release release_step_left(2) [OF release(3) _ that] show ?thesis by blast
  qed
qed

definition run_bound :: "inventory_op list \<Rightarrow> inventory_db \<Rightarrow> nat" where
  "run_bound ops db =
     (let n = length (reservations db) + (\<Sum>op \<leftarrow> ops. room (new_txn op)) in
      \<Sum>op \<leftarrow> ops. steps_left n (new_txn op))"

lemma system_step_left:
  assumes inv: "isolated clk ops (ts, db)" and step: "inventory_step_at clk (ts, db) (ts', db')"
    and n: "length (reservations db) + (\<Sum>t \<leftarrow> ts. room t) \<le> n"
  shows "length (reservations db') + (\<Sum>t \<leftarrow> ts'. room t) \<le> n"
    "(\<Sum>t \<leftarrow> ts'. steps_left n t) < (\<Sum>t \<leftarrow> ts. steps_left n t)"
proof -
  from step obtain i t' where i: "i < length ts" "ts' = ts[i := t']"
    "txn_step clk (others txn_locks ts i) (others txn_rows ts i) (ts ! i, db) (t', db')"
    by cases auto
  have ok: "txn_ok clk (ops ! i) (ts ! i) db" using inv i(1) by (simp add: isolated_def)
  have elem: "f (ts ! i) \<le> (\<Sum>t \<leftarrow> ts. f t)" for f :: "txn \<Rightarrow> nat"
    using i(1) by (intro member_le_sum_list) auto
  have upd: "(\<Sum>t \<leftarrow> ts'. f t) = (\<Sum>t \<leftarrow> ts. f t) + f t' - f (ts ! i)" for f :: "txn \<Rightarrow> nat"
    using i by (simp add: map_update sum_list_update)
  show "length (reservations db') + (\<Sum>t \<leftarrow> ts'. room t) \<le> n"
    using txn_step_left(1) [OF i(3) ok] upd [of room] elem [of room] n by simp
  have "steps_left n t' < steps_left n (ts ! i)" using txn_step_left(2) [OF i(3) ok] n by simp
  then show "(\<Sum>t \<leftarrow> ts'. steps_left n t) < (\<Sum>t \<leftarrow> ts. steps_left n t)"
    using upd [of "steps_left n"] elem [of "steps_left n"] by simp
qed

lemma run_left:
  assumes "(inventory_step_at clk ^^ k) (ts, db) (ts', db')" "isolated clk ops (ts, db)"
    and "length (reservations db) + (\<Sum>t \<leftarrow> ts. room t) \<le> n"
  shows "k + (\<Sum>t \<leftarrow> ts'. steps_left n t) \<le> (\<Sum>t \<leftarrow> ts. steps_left n t)"
  using assms
proof (induction k arbitrary: ts db)
  case (Suc k)
  from Suc.prems(1) obtain us eb where step: "inventory_step_at clk (ts, db) (us, eb)"
    and rest: "(inventory_step_at clk ^^ k) (us, eb) (ts', db')"
    using relpowp_Suc_D2 [of k "inventory_step_at clk" "(ts, db)" "(ts', db')"] by auto
  note left = system_step_left [OF Suc.prems(2) step Suc.prems(3)]
  from Suc.IH [OF rest _ left(1)] isolated_step [OF Suc.prems(2) step] left(2) show ?case by simp
qed simp

lemma completion:
  assumes "isolated clk ops (ts, db)"
  shows "\<exists>us eb. (inventory_step_at clk)\<^sup>*\<^sup>* (ts, db) (us, eb) \<and> (\<forall>t \<in> set us. txn_finished t)"
proof -
  have "\<exists>us eb. (inventory_step_at clk)\<^sup>*\<^sup>* (ts, db) (us, eb) \<and> (\<forall>t \<in> set us. txn_finished t)"
    if "isolated clk ops (ts, db)" "length (reservations db) + (\<Sum>t \<leftarrow> ts. room t) \<le> n" for n
    using that
  proof (induction "\<Sum>t \<leftarrow> ts. steps_left n t" arbitrary: ts db rule: less_induct)
    case less
    show ?case
    proof (cases "\<forall>t \<in> set ts. txn_finished t")
      case False
      then obtain us eb where step: "inventory_step_at clk (ts, db) (us, eb)"
        using no_deadlock [OF less.prems(1)] by auto
      note left = system_step_left [OF less.prems(1) step less.prems(2)]
      show ?thesis
        using less.hyps [OF left(2) _ left(1)] isolated_step [OF less.prems(1) step]
          converse_rtranclp_into_rtranclp [of "inventory_step_at clk", OF step] by blast
    qed blast
  qed
  from this [OF assms order_refl] show ?thesis .
qed

section \<open>Properties\<close>

text \<open>
  C2: concurrent requests never oversell. Whatever reservations and releases run concurrently
  on one database, and however their statements interleave, in every state they reach the
  committed database satisfies its invariant (the unique index and the bounds of the columns
  included), no product's available quantity is negative, and what is available of it and what
  active reservations hold of it add up to the stock at the start.
\<close>

theorem concurrent_inventory_safe:
  assumes "db_ok db" and "(inventory_step_at clk)\<^sup>*\<^sup>* (map new_txn ops, db) (ts, db')"
  shows "db_ok db' \<and> 0 \<le> available db' pid
    \<and> available db' pid + held db' pid = available db pid + held db pid"
  using isolated_reachable [OF assms] by (auto simp: isolated_def stock_def available_nonneg)

theorem concurrent_inventory_safe_witness:
  "\<exists>ts db'. (inventory_step_at (\<lambda>i. i))\<^sup>*\<^sup>*
       (map new_txn [Reserve ''o1'' [line 3 4, line 1 2] ''k1'', Reserve ''o2'' [line 3 7] '''', Release ''o1''],
        demo_db) (ts, db')
     \<and> (\<forall>t \<in> set ts. txn_finished t) \<and> 0 \<le> available db' 3 \<and> available db' 3 + held db' 3 = 10"
proof -
  let ?ops = "[Reserve ''o1'' [line 3 4, line 1 2] ''k1'', Reserve ''o2'' [line 3 7] '''', Release ''o1'']"
  obtain ts db' where run: "(inventory_step_at (\<lambda>i. i))\<^sup>*\<^sup>* (map new_txn ?ops, demo_db) (ts, db')"
    "\<forall>t \<in> set ts. txn_finished t"
    using completion [OF isolated_start [OF demo_db_ok]] by blast
  from concurrent_inventory_safe [OF demo_db_ok run(1), of 3] run show ?thesis
    by (fastforce simp: demo_values)
qed

text \<open>
  C8: no deadlock and no endless run. Because a reservation locks its products in ascending
  order and a release locks its rows before it updates products in ascending order, as long as a
  request is not answered some transaction can run its next statement; and after at most
  \<open>run_bound\<close> statements, a number linear in the lines requested and the rows of the table per
  release, no transaction has any left.
\<close>

theorem concurrent_inventory_completes:
  assumes "db_ok db" and "(inventory_step_at clk ^^ k) (map new_txn ops, db) (ts, db')"
  shows "k \<le> run_bound ops db
    \<and> ((\<forall>t \<in> set ts. txn_finished t) \<or> (\<exists>u. inventory_step_at clk (ts, db') u))"
proof -
  have "(inventory_step_at clk)\<^sup>*\<^sup>* (map new_txn ops, db) (ts, db')"
    using assms(2) by (rule relpowp_imp_rtranclp)
  then have "isolated clk ops (ts, db')" using isolated_reachable [OF assms(1)] by simp
  then have "(\<forall>t \<in> set ts. txn_finished t) \<or> (\<exists>u. inventory_step_at clk (ts, db') u)"
    using no_deadlock by blast
  then show ?thesis
    using run_left [OF assms(2) isolated_start [OF assms(1)] order_refl]
    by (simp add: run_bound_def Let_def comp_def)
qed

theorem concurrent_inventory_completes_witness:
  "\<exists>k ts db'. (inventory_step_at (\<lambda>i. i) ^^ k)
       (map new_txn [Reserve ''o1'' [line 3 4, line 1 2] '''', Release ''o2''], demo_db) (ts, db')
     \<and> (\<forall>t \<in> set ts. txn_finished t) \<and> k \<le> 12"
proof -
  let ?ops = "[Reserve ''o1'' [line 3 4, line 1 2] '''', Release ''o2'']"
  obtain ts db' where run: "(inventory_step_at (\<lambda>i. i))\<^sup>*\<^sup>* (map new_txn ?ops, demo_db) (ts, db')"
    "\<forall>t \<in> set ts. txn_finished t"
    using completion [OF isolated_start [OF demo_db_ok]] by blast
  then obtain k where k: "(inventory_step_at (\<lambda>i. i) ^^ k) (map new_txn ?ops, demo_db) (ts, db')"
    by (auto dest: rtranclp_imp_relpowp)
  have "run_bound ?ops demo_db = 12"
    by (simp add: run_bound_def new_reserve_def new_release_def demo_db_def)
  with concurrent_inventory_completes [OF demo_db_ok k] k run(2) show ?thesis by auto
qed

text \<open>
  C14: the columns are wide enough in every interleaving. Whatever else runs, a release never
  fails: giving the next of its rows back takes the product's column neither below zero nor
  beyond the largest 32-bit integer, and a release that was answered was answered with an outcome.
\<close>

theorem concurrent_release_in_bounds:
  assumes "db_ok db" and "(inventory_step_at clk)\<^sup>*\<^sup>* (map new_txn ops, db) (ts, db')"
    and "ReleaseTxn t \<in> set ts"
  shows "(\<forall>e. lx_result t \<noteq> Some (Inl e))
    \<and> (lx_todo t = r # rs \<longrightarrow> 0 \<le> available (release_view t db') (r_product r) + r_quantity r
         \<and> available (release_view t db') (r_product r) + r_quantity r \<le> max_int4
         \<and> (\<exists>db1. release_line r (release_view t db') = Inr db1))"
proof -
  from assms(3) obtain i where i: "i < length ts" "ts ! i = ReleaseTxn t" by (metis in_set_conv_nth)
  have inv: "isolated clk ops (ts, db')" using isolated_reachable [OF assms(1,2)] by simp
  then have ok: "db_ok db'" and "txn_ok clk (ops ! i) (ReleaseTxn t) db'" using i by (auto simp: isolated_def)
  then obtain ref where release: "release_ok ref t db'" by (cases "ops ! i") auto
  show ?thesis
  proof (cases "lx_todo t = r # rs")
    case True
    then have new: "lx_result t = None" using release by (auto simp: release_ok_def split: option.splits)
    note run = release_ok_running [OF release new]
    show ?thesis using new release_next_bounds [OF conjunct2 [OF run] ok True]
        release_next(1) [OF conjunct2 [OF run] ok True] by auto
  qed (use release in \<open>auto simp: release_ok_def split: option.splits\<close>)
qed

theorem concurrent_release_in_bounds_witness:
  "\<exists>ts db'. (inventory_step_at (\<lambda>i. i))\<^sup>*\<^sup>* (map new_txn [Release ''o1''], reserved_demo_db) (ts, db')
     \<and> (\<forall>e. lx_result (case ts ! 0 of ReleaseTxn t \<Rightarrow> t) \<noteq> Some (Inl e))"
proof -
  obtain ts db' where run: "(inventory_step_at (\<lambda>i. i))\<^sup>*\<^sup>* (map new_txn [Release ''o1''], reserved_demo_db) (ts, db')"
    using completion [OF isolated_start [OF reserved_demo_db_ok]] by blast
  from isolated_reachable [OF reserved_demo_db_ok run]
  have len: "length ts = 1" "txn_ok (\<lambda>i. i) (Release ''o1'') (ts ! 0) db'" by (auto simp: isolated_def)
  then obtain t where t: "ts ! 0 = ReleaseTxn t" by (cases "ts ! 0") auto
  then have "ReleaseTxn t \<in> set ts" using len(1) by (metis less_one nth_mem)
  from concurrent_release_in_bounds [OF reserved_demo_db_ok run this] run t show ?thesis by fastforce
qed

end
