(* ===== verification/InventorySerial.thy ===== *)
theory InventorySerial
  imports InventoryConcurrency
begin

text \<open>
  Concurrent requests are serializable: a transaction that ends does, on the database committed
  at that moment, exactly what the sequential function does. The ledger specification, run on
  the requests in the order in which they ended, gives their replies and the final database.
\<close>

section \<open>A reservation, at the moment it ends\<close>

lemma reserve_step_open:
  "reserve_txn_step clk busy (t, db) (t', db') \<Longrightarrow> rx_result t' = None \<Longrightarrow> same_shop db' db"
  by (erule reserve_txn_step.cases) (auto simp: same_shop_def finish_def)

lemma reserve_stock_attempt:
  "items \<noteq> [] \<Longrightarrow> replayed key db = [] \<Longrightarrow> reserve_stock clk ref items key db =
     (case reserve_lines clk ref key (sort_key ri_product items) \<lparr>rs_db = db, rs_outcomes = [], rs_all_ok = True\<rparr> of
        Inl IntegrityError \<Rightarrow> (Inr \<lparr>ro_success = False,
          ro_results = map (\<lambda>item. refused_outcome (ri_product item) ''duplicate reservation in progress'')
            (sort_key ri_product items)\<rparr>, db)
      | Inl DataError \<Rightarrow> (Inl DataError, db)
      | Inr t \<Rightarrow> (Inr \<lparr>ro_success = rs_all_ok t, ro_results = rs_outcomes t\<rparr>,
          if rs_all_ok t then rs_db t else db))"
  by (simp add: reserve_stock_def Let_def)

lemma decided_attempt:
  assumes run: "reserve_running clk t db" and ok: "db_ok db"
  shows "reserve_lines clk (rx_ref t) (rx_key t) (map fst (rx_done t)) \<lparr>rs_db = db, rs_outcomes = [], rs_all_ok = True\<rparr> =
    Inr \<lparr>rs_db = take_lines clk (rx_ref t) (rx_key t) (taken (rx_done t)) db, rs_outcomes = rx_outcomes t,
         rs_all_ok = rx_all_ok t\<rparr>"
  unfolding reserve_runningD(3,4) [OF run]
  using decided_reserve_lines [of "\<lparr>rs_db = db, rs_outcomes = [], rs_all_ok = True\<rparr>"] ok
    reserve_runningD(1) [OF run] by simp

lemma reserve_step_ends:
  assumes step: "reserve_txn_step clk busy (t, db) (t', db')" and inv: "reserve_ok clk ref items key t db"
    and ok: "db_ok db" and fin: "rx_result t' = Some r" and new: "rx_begun t \<Longrightarrow> replayed key db = []"
  shows "\<exists>db2. reserve_stock clk ref items key db = (r, db2) \<and> same_shop db' db2"
  using step
proof cases
  case empty
  from reserve_ok_running [OF inv empty(3)] empty(4)
  have lines: "map fst (rx_done t) @ rx_todo t = sort_key ri_product items" "rx_done t = []" by auto
  from arg_cong [OF lines(1), of length] lines(2) empty(5) have "items = []" by simp
  then show ?thesis using empty fin by (simp add: reserve_stock_def)
next
  case replay
  from reserve_ok_running [OF inv replay(3)] replay have "items \<noteq> []" "rx_key t = key" by auto
  then show ?thesis using replay fin by (simp add: reserve_stock_def Let_def)
next
  case (failed item rest p e)
  note run = reserve_ok_running [OF inv failed(3)]
  from run have R: "reserve_running clk t db" "rx_ref t = ref" "rx_key t = key" "items \<noteq> []"
    "sort_key ri_product items = map fst (rx_done t) @ item # rest"
    using failed by auto
  have "line_verdict ref key item (take_lines clk ref key (taken (rx_done t)) db) = Inl e"
    using write_verdict [OF R(1) ok failed(6,5,7)] failed(8) line_verdict_view [OF R(1), of item] R(2,3)
    by (simp add: write_line_def)
  then have "reserve_lines clk ref key (sort_key ri_product items) \<lparr>rs_db = db, rs_outcomes = [], rs_all_ok = True\<rparr> = Inl e"
    using reserve_lines_stops [of "\<lparr>rs_db = db, rs_outcomes = [], rs_all_ok = True\<rparr>" clk ref key "rx_done t" item e rest]
      ok reserve_runningD(1) [OF R(1)] R(2,3,5) by simp
  then show ?thesis
    using failed fin new R by (cases e) (simp_all add: reserve_stock_attempt duplicate_outcome_def same_shop_def)
next
  case rollback
  note run = reserve_ok_running [OF inv rollback(3)]
  from run have R: "reserve_running clk t db" "rx_ref t = ref" "rx_key t = key" "items \<noteq> []"
    "sort_key ri_product items = map fst (rx_done t)"
    using rollback by auto
  show ?thesis
    using decided_attempt [OF R(1) ok] R(2-5) rollback fin new by (simp add: reserve_stock_attempt)
next
  case commit
  note run = reserve_ok_running [OF inv commit(3)]
  from run have R: "reserve_running clk t db" "rx_ref t = ref" "rx_key t = key" "items \<noteq> []"
    "sort_key ri_product items = map fst (rx_done t)"
    using commit by auto
  show ?thesis
    using decided_attempt [OF R(1) ok] R(2-5) commit fin new view_shop [OF R(1)]
    by (simp add: reserve_stock_attempt)
qed (use fin in \<open>simp_all\<close>)

lemma same_shop_ledger:
  assumes "same_shop db db'"
  shows "ledger_of db = ledger_of db'"
proof (rule ledger_eqI)
  note facts = same_shop_facts [OF assms]
  show "lg_stock (ledger_of db) pid = lg_stock (ledger_of db') pid" for pid
    using facts(2,3) [of pid] by simp
  show "lg_lines (ledger_of db) ref = lg_lines (ledger_of db') ref" for ref
    using facts(6) by simp
  fix key
  have "map r_order_ref (filter (\<lambda>r. active r \<and> r_key r = key) (reservations db)) =
      map r_order_ref (filter (\<lambda>r. active r \<and> r_key r = key) (reservations db'))"
    by (rule same_shop_filter_map [OF assms]) simp_all
  from arg_cong [OF this, of set] show "lg_keys (ledger_of db) key = lg_keys (ledger_of db') key"
    by (simp add: refs_of_key_def)
qed

section \<open>What a transaction relies on between two of its statements\<close>

text \<open>
  The key of a reservation stays free from the replay check on, unless another request with the
  same key and the same lines has committed meanwhile; the active lines of a reference stay the
  selected ones from the \<^verbatim>\<open>SELECT\<close> of its release on.
\<close>

fun settled :: "bool \<Rightarrow> inventory_op \<Rightarrow> txn \<Rightarrow> inventory_db \<Rightarrow> bool" where
  "settled dup (Reserve order_ref items key) (ReserveTxn t) db =
     (rx_result t = None \<and> rx_begun t \<and> key \<noteq> '''' \<longrightarrow> refs_of_key db key = {}
        \<or> dup \<and> (\<exists>r. refs_of_key db key = {r} \<and> ri_product ` set items \<subseteq> claimed key db))"
| "settled dup (Release order_ref) (ReleaseTxn t) db =
     (lx_result t = None \<longrightarrow> lx_seen t \<in> {None, Some (active_by_order_ref order_ref db)}
        \<and> lx_rows t \<in> {None, Some (active_by_order_ref order_ref db)})"
| "settled _ _ _ _ = False"

fun undisturbed :: "inventory_op \<Rightarrow> inventory_op \<Rightarrow> bool" where
  "undisturbed (Reserve _ items key) (Reserve _ items' key') = (key = '''' \<or> key' \<noteq> key \<or> items' = items)"
| "undisturbed (Reserve _ _ _) (Release _) = True"
| "undisturbed (Release order_ref) (Reserve order_ref' _ _) = (order_ref' \<noteq> order_ref)"
| "undisturbed (Release order_ref) (Release order_ref') = (order_ref' \<noteq> order_ref)"

fun key_of :: "inventory_op \<Rightarrow> string" where
  "key_of (Reserve _ _ key) = key"
| "key_of (Release _) = ''''"

definition retried :: "inventory_op list \<Rightarrow> nat \<Rightarrow> bool" where
  "retried ops i \<longleftrightarrow> key_of (ops ! i) \<noteq> ''''
     \<and> (\<exists>j < length ops. j \<noteq> i \<and> key_of (ops ! j) = key_of (ops ! i))"

definition orderly :: "inventory_op list \<Rightarrow> bool" where
  "orderly ops \<longleftrightarrow> (\<forall>i < length ops. \<forall>j < length ops. j \<noteq> i \<longrightarrow> undisturbed (ops ! i) (ops ! j))"

fun txn_reply :: "txn \<Rightarrow> inventory_reply" where
  "txn_reply (ReserveTxn t) =
     Reserved (case rx_result t of Some (Inr out) \<Rightarrow> ro_success out | _ \<Rightarrow> False)"
| "txn_reply (ReleaseTxn t) =
     Released (case lx_result t of Some (Inr out) \<Rightarrow> rl_released_count out | _ \<Rightarrow> 0)"

text \<open>What a step does to the table of reservations.\<close>

definition appends ::
  "(int \<Rightarrow> int) \<Rightarrow> inventory_op \<Rightarrow> inventory_db \<Rightarrow> inventory_db \<Rightarrow> bool" where
  "appends clk op db db' \<longleftrightarrow> (\<exists>ref items key ls. op = Reserve ref items key \<and> items \<noteq> []
     \<and> map snd ls = sort_key ri_product items \<and> (key = '''' \<or> refs_of_key db key = {})
     \<and> reservations db' = reservations db @ map (\<lambda>(i, item). line_row clk ref key item i) ls)"

definition table_effect ::
  "(int \<Rightarrow> int) \<Rightarrow> inventory_op \<Rightarrow> inventory_db \<Rightarrow> inventory_db \<Rightarrow> bool" where
  "table_effect clk op db db' \<longleftrightarrow> reservations db' = reservations db \<or> appends clk op db db'
     \<or> (\<exists>ref. op = Release ref \<and> reservations db' = release_rows ref (reservations db))"

lemma taken_all: "\<forall>d \<in> set ds. snd d = Take \<Longrightarrow> taken ds = map fst ds"
  by (induction ds) (auto simp: taken_def)

text \<open>A reservation commits only when its key is still free.\<close>

lemma commit_key_free:
  assumes inv: "reserve_ok clk ref items key t db" and settled: "settled dup (Reserve ref items key) (ReserveTxn t) db"
    and t: "rx_result t = None" "rx_begun t" "rx_todo t = []" "rx_all_ok t"
  shows "key = '''' \<or> refs_of_key db key = {}"
proof (rule ccontr)
  assume taken_key: "\<not> (key = '''' \<or> refs_of_key db key = {})"
  with settled t have claimed: "ri_product ` set items \<subseteq> claimed key db" by auto
  from reserve_ok_running [OF inv t(1)] t(2,3) have R: "reserve_running clk t db" "rx_ref t = ref" "rx_key t = key"
    "items \<noteq> []" "map fst (rx_done t) = sort_key ri_product items" by auto
  from arg_cong [OF R(5), of length] R(4) have "rx_done t \<noteq> []" by auto
  then obtain item v ds where done': "rx_done t = (item, v) # ds"
    by (metis neq_Nil_conv surj_pair)
  note D = reserve_runningD [OF R(1)]
  have "v = Take" using D(4) t(4) done' by simp
  then have "ri_product item \<notin> claimed key db"
    using take_verdict [of "rx_ref t" "rx_key t" item db] D(1) done' R(3) taken_key by simp
  moreover have "item \<in> set items"
    using arg_cong [OF R(5), of set] done' by simp blast
  ultimately show False using claimed by blast
qed

lemma txn_effect:
  assumes "txn_step clk busy busy_rows (t, db) (t', db')" "txn_ok clk op t db" "settled dup op t db" "db_ok db"
  shows "table_effect clk op db db'"
  using assms(1)
proof cases
  case (reserve u u')
  then obtain ref items key where op: "op = Reserve ref items key" and inv: "reserve_ok clk ref items key u db"
    using assms(2) by (cases op) auto
  show ?thesis
    using reserve(3)
  proof cases
    case commit
    from reserve_ok_running [OF inv commit(3)] commit have R: "reserve_running clk u db" "rx_ref u = ref" "rx_key u = key"
      "items \<noteq> []" "map fst (rx_done u) = sort_key ri_product items" by auto
    have "map snd (rx_lines u) = sort_key ri_product items"
      using reserve_runningD(2,4) [OF R(1)] commit(6) taken_all R(5) by metis
    then have "appends clk op db db'"
      using commit_key_free [OF inv _ commit(3-6)] assms(3) reserve(1) op R commit(2)
      unfolding appends_def by (auto simp: reserve_view_def insert_lines_sel)
    then show ?thesis by (simp add: table_effect_def)
  qed (simp_all add: table_effect_def)
next
  case (release u u')
  then obtain ref where op: "op = Release ref" and inv: "release_ok ref u db"
    using assms(2) by (cases op) auto
  show ?thesis
    using release(3)
  proof cases
    case (commit rows)
    note run = release_ok_running [OF inv commit(3)]
    note R = release_rows_running [OF conjunct2 [OF run] commit(4)]
    have "rows = active_by_order_ref ref db" using assms(3) release(1) op commit(3,4) by simp
    then have "release_view u db = released ref db" using R(1) commit(5) by (simp add: release_view_def released_def)
    then show ?thesis using commit(2) op released_reservations [OF assms(4)] by (simp add: table_effect_def)
  qed (simp_all add: table_effect_def)
qed

section \<open>The others do not disturb it\<close>

lemma active_same_rows:
  "reservations db' = reservations db \<Longrightarrow> active_by_order_ref ref db' = active_by_order_ref ref db
     \<and> refs_of_key db' key = refs_of_key db key \<and> claimed key db' = claimed key db"
  by (simp add: active_by_order_ref_def refs_of_key_def claimed_def)

lemma active_appended:
  "ref' \<noteq> ref \<Longrightarrow> reservations db' = reservations db @ map (\<lambda>(i, item). line_row clk ref' key item i) ls \<Longrightarrow>
     active_by_order_ref ref db' = active_by_order_ref ref db"
  by (simp add: active_by_order_ref_def filter_empty_conv case_prod_beta)

lemma keys_appended:
  assumes "reservations db' = reservations db @ map (\<lambda>(i, item). line_row clk ref' key' item i) ls"
  shows "key' \<noteq> key \<Longrightarrow> refs_of_key db' key = refs_of_key db key \<and> claimed key db' = claimed key db"
    and "ls \<noteq> [] \<Longrightarrow> refs_of_key db' key' = insert ref' (refs_of_key db key')"
    and "key' \<noteq> '''' \<Longrightarrow> claimed key' db' = claimed key' db \<union> ri_product ` set (map snd ls)"
proof -
  let ?rows = "map (\<lambda>(i, item). line_row clk ref' key' item i) ls"
  have active: "filter (\<lambda>r. active r \<and> r_key r = k) ?rows = (if key' = k then ?rows else [])" for k
    by (induction ls) (auto simp: active_def)
  have indexed: "filter (\<lambda>r. indexed r \<and> r_key r = k) ?rows = (if key' = k \<and> k \<noteq> '''' then ?rows else [])" for k
    by (induction ls) (auto simp: indexed_def)
  have "r_order_ref ` set ?rows = (if ls = [] then {} else {ref'})" "r_product ` set ?rows = ri_product ` set (map snd ls)"
    by (induction ls) auto
  then show "key' \<noteq> key \<Longrightarrow> refs_of_key db' key = refs_of_key db key \<and> claimed key db' = claimed key db"
    and "ls \<noteq> [] \<Longrightarrow> refs_of_key db' key' = insert ref' (refs_of_key db key')"
    and "key' \<noteq> '''' \<Longrightarrow> claimed key' db' = claimed key' db \<union> ri_product ` set (map snd ls)"
    unfolding refs_of_key_def claimed_def assms filter_append active indexed
    by (simp_all add: image_Un del: set_map)
qed

lemma table_effectE:
  assumes "table_effect clk op db db'"
  obtains (same) "reservations db' = reservations db"
    | (appended) ref items key ls where "op = Reserve ref items key" "items \<noteq> []"
        "map snd ls = sort_key ri_product items" "key = '''' \<or> refs_of_key db key = {}"
        "reservations db' = reservations db @ map (\<lambda>(i, item). line_row clk ref key item i) ls"
    | (released) ref where "op = Release ref" "reservations db' = release_rows ref (reservations db)"
  using assms unfolding table_effect_def appends_def by blast

lemma active_other_released:
  assumes "ref' \<noteq> ref" "reservations db' = release_rows ref' (reservations db)"
  shows "active_by_order_ref ref db' = active_by_order_ref ref db"
proof -
  have "filter (\<lambda>r. r_order_ref r = ref \<and> r_status r = RESERVED) (release_rows ref' rs) =
      filter (\<lambda>r. r_order_ref r = ref \<and> r_status r = RESERVED) rs" for rs
    using assms(1) by (induction rs) (auto simp: release_rows_def)
  then show ?thesis by (simp add: active_by_order_ref_def assms(2))
qed

lemma keys_released:
  assumes "reservations db' = release_rows ref' (reservations db)"
  shows "refs_of_key db' key = refs_of_key db key - {ref'}"
    and "key \<noteq> '''' \<Longrightarrow> ref' \<notin> refs_of_key db key \<Longrightarrow> claimed key db' = claimed key db"
proof -
  have keyed: "filter (\<lambda>r. active r \<and> r_key r = key) (release_rows ref' rs) =
      filter (\<lambda>r. active r \<and> r_key r = key \<and> r_order_ref r \<noteq> ref') rs" for rs
    by (induction rs) (auto simp: release_rows_def active_def)
  then show "refs_of_key db' key = refs_of_key db key - {ref'}"
    by (auto simp: refs_of_key_def assms)
  assume key: "key \<noteq> ''''" "ref' \<notin> refs_of_key db key"
  have claimed: "claimed key d = r_product ` set (filter (\<lambda>r. active r \<and> r_key r = key) (reservations d))" for d
    using key(1) by (auto simp: claimed_def indexed_def active_def)
  have "filter (\<lambda>r. active r \<and> r_key r = key \<and> r_order_ref r \<noteq> ref') (reservations db) =
      filter (\<lambda>r. active r \<and> r_key r = key) (reservations db)"
    using key(2) by (intro filter_cong) (auto simp: refs_of_key_def)
  then show "claimed key db' = claimed key db" unfolding claimed assms keyed by simp
qed

lemma settled_frame:
  assumes settled: "settled dup op t db" and effect: "table_effect clk op' db db'"
    and free: "undisturbed op op'" "key_of op \<noteq> '''' \<Longrightarrow> key_of op' = key_of op \<Longrightarrow> dup"
  shows "settled dup op t db'"
proof (cases op)
  case (Reserve ref items key)
  then obtain u where t: "t = ReserveTxn u" using settled by (cases t) auto
  show ?thesis
  proof (cases "rx_result u = None \<and> rx_begun u \<and> key \<noteq> ''''")
    case True
    with settled Reserve t have now: "refs_of_key db key = {}
        \<or> dup \<and> (\<exists>r. refs_of_key db key = {r} \<and> ri_product ` set items \<subseteq> claimed key db)" by simp
    from effect have "refs_of_key db' key = {}
        \<or> dup \<and> (\<exists>r. refs_of_key db' key = {r} \<and> ri_product ` set items \<subseteq> claimed key db')"
    proof (cases rule: table_effectE)
      case same
      then show ?thesis using now active_same_rows by metis
    next
      case (appended ref' items' key' ls)
      note keys = keys_appended [OF appended(5)]
      show ?thesis
      proof (cases "key' = key")
        case same: True
        have "dup" "items' = items" using free True same Reserve appended(1) by auto
        moreover have "ls \<noteq> []" using arg_cong [OF appended(3), of length] appended(2) by auto
        moreover have "refs_of_key db key = {}" using appended(4) same True by simp
        moreover have "ri_product ` set (map snd ls) = ri_product ` set items'"
          unfolding appended(3) by simp
        ultimately show ?thesis using keys(2,3) same True by (simp del: set_map)
      qed (use now keys(1) [of key] in simp)
    next
      case (released ref')
      note keys = keys_released [OF released(2), of key]
      show ?thesis
      proof (cases "ref' \<in> refs_of_key db key")
        case False
        then show ?thesis using now keys True by simp
      qed (use now keys(1) in auto)
    qed
    with Reserve t show ?thesis by simp
  qed (use Reserve t in auto)
next
  case (Release ref)
  then obtain u where t: "t = ReleaseTxn u" using settled by (cases t) auto
  from effect have "active_by_order_ref ref db' = active_by_order_ref ref db"
  proof (cases rule: table_effectE)
    case same
    then show ?thesis using active_same_rows by blast
  next
    case (appended ref' items' key' ls)
    then show ?thesis using active_appended [OF _ appended(5)] free(1) Release by simp
  next
    case (released ref')
    then show ?thesis using active_other_released [OF _ released(2)] free(1) Release by simp
  qed
  with settled Release t show ?thesis by simp
qed

section \<open>Each request ends as one step of the ledger\<close>

lemma reserve_settled:
  assumes "reserve_txn_step clk busy (t, db) (t', db')" "settled dup (Reserve ref items key) (ReserveTxn t) db"
    and "rx_key t = key"
  shows "settled dup (Reserve ref items key) (ReserveTxn t') db'"
proof -
  have seq: "refs_of_key (db\<lparr>res_seq := n\<rparr>) k = refs_of_key db k" "claimed k (db\<lparr>res_seq := n\<rparr>) = claimed k db" for n k
    by (simp_all add: refs_of_key_def claimed_def)
  show ?thesis
    using assms(1)
  proof cases
    case start
    then have "key = '''' \<or> refs_of_key db key = {}"
      using replayed_refs [of key db] assms(3) by auto
    with start show ?thesis by auto
  qed (use assms(2) in \<open>auto simp: seq refuse_def\<close>)
qed

lemma release_settled:
  assumes "release_txn_step busy busy_rows (t, db) (t', db')" "settled dup (Release ref) (ReleaseTxn t) db"
    and "lx_ref t = ref"
  shows "settled dup (Release ref) (ReleaseTxn t') db'"
  using assms(1)
proof cases
  case (lock seen rows)
  then have "seen = active_by_order_ref ref db" using assms(2) by simp
  then have "rows = active_by_order_ref ref db" unfolding lock(7) assms(3) by (simp add: filter_id_conv)
  with lock assms(2) show ?thesis by simp
qed (use assms(2,3) in \<open>auto simp: finish_release_def\<close>)

lemma txn_settled:
  assumes "txn_step clk busy busy_rows (t, db) (t', db')" "settled dup op t db" "txn_ok clk op t db"
  shows "settled dup op t' db'"
  using assms(1)
proof cases
  case (reserve u u')
  then show ?thesis
    using assms(2,3) reserve_settled [OF reserve(3)] by (cases op) (auto simp: reserve_ok_def)
next
  case (release u u')
  then show ?thesis
    using assms(2,3) release_settled [OF release(3)] by (cases op) (auto simp: release_ok_def)
qed

lemma finished_stuck: "txn_step clk busy busy_rows (t, db) u \<Longrightarrow> \<not> txn_finished t"
  by (auto elim!: txn_step.cases reserve_txn_step.cases release_txn_step.cases)

lemma reserve_ends_ledger:
  assumes step: "reserve_txn_step clk busy (t, db) (t', db')" and inv: "reserve_ok clk ref items key t db"
    and ok: "db_ok db" and settled: "settled dup (Reserve ref items key) (ReserveTxn t) db"
    and fin: "rx_result t' = Some r"
  shows "(txn_reply (ReserveTxn t'), ledger_of db') = ledger_step (Reserve ref items key) (ledger_of db)
    \<or> dup \<and> key \<noteq> '''' \<and> txn_reply (ReserveTxn t') = Reserved False \<and> ledger_of db' = ledger_of db"
proof (cases "rx_begun t \<and> replayed key db \<noteq> []")
  case True
  then have key: "key \<noteq> ''''" "refs_of_key db key \<noteq> {}" using replayed_refs by blast+
  have seq: "ledger_of (db\<lparr>res_seq := n\<rparr>) = ledger_of db" for n
    by (rule same_shop_ledger) (simp add: same_shop_def)
  have new: "rx_result t = None" using step by cases
  then have "dup" using settled True key by simp
  with step fin True key seq show ?thesis
  proof cases
    case commit
    then show ?thesis using commit_key_free [OF inv settled] key by blast
  qed (auto simp: finish_def duplicate_outcome_def refuse_def split: db_error.splits)
next
  case False
  then obtain db2 where seq: "reserve_stock clk ref items key db = (r, db2)" "same_shop db' db2"
    using reserve_step_ends [OF step inv ok fin] by blast
  then have "(txn_reply (ReserveTxn t'), ledger_of db') = apsnd ledger_of (inventory_step clk (Reserve ref items key) db)"
    using fin same_shop_ledger [OF seq(2)] by (simp split: sum.split)
  then show ?thesis using inventory_step_simulates [OF ok, of _ clk] by metis
qed

lemma release_ends_ledger:
  assumes step: "release_txn_step busy busy_rows (t, db) (t', db')" and inv: "release_ok ref t db"
    and ok: "db_ok db" and settled: "settled dup (Release ref) (ReleaseTxn t) db"
    and fin: "lx_result t' = Some r"
  shows "(txn_reply (ReleaseTxn t'), ledger_of db') = ledger_step (Release ref) (ledger_of db)"
  using step
proof cases
  case (failed r rs e)
  then show ?thesis using release_next(1) [OF _ ok failed(4)] release_ok_running [OF inv failed(3)] by simp
next
  case (commit rows)
  note run = release_ok_running [OF inv commit(3)]
  note R = release_rows_running [OF conjunct2 [OF run] commit(4)]
  have rows: "rows = active_by_order_ref ref db" using settled commit(3,4) by simp
  have "db' = released ref db" using R(1) commit(2,5) rows by (simp add: release_view_def released_def)
  then have "(txn_reply (ReleaseTxn t'), ledger_of db') =
      apsnd ledger_of (inventory_step clk (Release ref) db)" for clk
    using commit(1) rows
    by (simp add: inventory_step_Release [OF ok] active_by_order_ref_size del: inventory_step.simps)
  then show ?thesis using inventory_step_simulates [OF ok] by metis
qed (use fin in simp_all)

lemma txn_ends_ledger:
  assumes "txn_step clk busy busy_rows (t, db) (t', db')" "txn_ok clk op t db" "db_ok db" "settled dup op t db"
    and "txn_finished t'"
  shows "(txn_reply t', ledger_of db') = ledger_step op (ledger_of db)
    \<or> dup \<and> key_of op \<noteq> '''' \<and> txn_reply t' = Reserved False \<and> ledger_of db' = ledger_of db"
  using assms(1)
proof cases
  case (reserve u u')
  then obtain ref items key where op: "op = Reserve ref items key" and inv: "reserve_ok clk ref items key u db"
    using assms(2) by (cases op) auto
  obtain r where r: "rx_result u' = Some r" using assms(5) reserve(2) by auto
  have "settled dup (Reserve ref items key) (ReserveTxn u) db" using assms(4) op reserve(1) by metis
  from reserve_ends_ledger [OF reserve(3) inv assms(3) this r] show ?thesis
    unfolding op reserve(1,2) key_of.simps by blast
next
  case (release u u')
  then obtain ref where op: "op = Release ref" and inv: "release_ok ref u db"
    using assms(2) by (cases op) auto
  obtain r where r: "lx_result u' = Some r" using assms(5) release(2) by auto
  have "settled dup (Release ref) (ReleaseTxn u) db" using assms(4) op release(1) by metis
  from release_ends_ledger [OF release(3) inv assms(3) this r] show ?thesis
    unfolding op release(1,2) by blast
qed

lemma txn_open_ledger:
  assumes "txn_step clk busy busy_rows (t, db) (t', db')" "\<not> txn_finished t'"
  shows "ledger_of db' = ledger_of db"
  using assms(1)
proof cases
  case (reserve u u')
  then show ?thesis using reserve_step_open [OF reserve(3)] assms(2) same_shop_ledger by auto
next
  case (release u u')
  then show ?thesis using assms(2) by (auto elim!: release_txn_step.cases)
qed

section \<open>The history of a run\<close>

text \<open>
  \<open>hist\<close> are the requests in the order in which they ended, but for those in \<open>lost\<close>, which were
  turned down because another request with their key was being served.
\<close>

definition explains ::
  "inventory_op list \<Rightarrow> ledger \<Rightarrow> txn list \<Rightarrow> inventory_db \<Rightarrow> nat list \<Rightarrow> nat set \<Rightarrow> bool" where
  "explains ops L ts db hist lost \<longleftrightarrow>
     distinct hist \<and> set hist \<inter> lost = {} \<and> set hist \<union> lost = {i. i < length ops \<and> txn_finished (ts ! i)}
     \<and> run_ops ledger_step (map (\<lambda>i. ops ! i) hist) L = (map (\<lambda>i. txn_reply (ts ! i)) hist, ledger_of db)
     \<and> (\<forall>i \<in> lost. retried ops i \<and> txn_reply (ts ! i) = Reserved False)"

definition settled_all :: "inventory_op list \<Rightarrow> txn list \<times> inventory_db \<Rightarrow> bool" where
  "settled_all ops = (\<lambda>(ts, db). \<forall>i < length ops. settled (retried ops i) (ops ! i) (ts ! i) db)"

lemma settled_step:
  assumes inv: "isolated clk ops (ts, db)" and settled: "settled_all ops (ts, db)" and ops: "orderly ops"
    and i: "i < length ts" and step: "txn_step clk busy busy_rows (ts ! i, db) (t', db')"
  shows "settled_all ops (ts[i := t'], db')"
proof -
  from inv have len: "length ts = length ops" and ok: "txn_ok clk (ops ! i) (ts ! i) db" "db_ok db"
    using i by (auto simp: isolated_def)
  have own: "settled (retried ops i) (ops ! i) (ts ! i) db" using settled i len by (simp add: settled_all_def)
  note effect = txn_effect [OF step ok(1) own ok(2)]
  have "settled (retried ops j) (ops ! j) (ts[i := t'] ! j) db'" if j: "j < length ops" for j
  proof (cases "j = i")
    case True
    then show ?thesis using txn_settled [OF step own ok(1)] i by simp
  next
    case False
    have "undisturbed (ops ! j) (ops ! i)" using ops False i j len by (simp add: orderly_def)
    moreover have "retried ops j" if "key_of (ops ! j) \<noteq> ''''" "key_of (ops ! i) = key_of (ops ! j)"
      using that False i len by (auto simp: retried_def)
    ultimately show ?thesis
      using settled_frame [OF _ effect] settled False j by (simp add: settled_all_def)
  qed
  then show ?thesis by (simp add: settled_all_def)
qed

lemma history_step:
  assumes inv: "isolated clk ops (ts, db)" and settled: "settled_all ops (ts, db)"
    and i: "i < length ts" and step: "txn_step clk busy busy_rows (ts ! i, db) (t', db')"
    and hist: "explains ops L ts db hist lost"
  shows "\<exists>hist' lost'. explains ops L (ts[i := t']) db' hist' lost' \<and> i \<notin> set hist \<union> lost
    \<and> (if txn_finished t' then hist' = hist @ [i] \<and> lost' = lost \<or> hist' = hist \<and> lost' = insert i lost
       else hist' = hist \<and> lost' = lost)"
proof -
  from inv have len: "length ts = length ops" and ok: "txn_ok clk (ops ! i) (ts ! i) db" "db_ok db"
    using i by (auto simp: isolated_def)
  have own: "settled (retried ops i) (ops ! i) (ts ! i) db" using settled i len by (simp add: settled_all_def)
  from hist have H: "distinct hist" "set hist \<inter> lost = {}"
    "set hist \<union> lost = {i. i < length ops \<and> txn_finished (ts ! i)}"
    "run_ops ledger_step (map (\<lambda>i. ops ! i) hist) L = (map (\<lambda>i. txn_reply (ts ! i)) hist, ledger_of db)"
    "\<forall>i \<in> lost. retried ops i \<and> txn_reply (ts ! i) = Reserved False"
    by (simp_all add: explains_def)
  have new: "i \<notin> set hist \<union> lost" using finished_stuck [OF step] H(3) by blast
  then have "ts[i := t'] ! j = ts ! j" if "j \<in> set hist \<union> lost" for j
    using that by (metis nth_list_update_neq)
  then have replies: "map (\<lambda>j. txn_reply (ts[i := t'] ! j)) hist = map (\<lambda>j. txn_reply (ts ! j)) hist"
    and old: "\<forall>j \<in> lost. retried ops j \<and> txn_reply (ts[i := t'] ! j) = Reserved False"
    using H(5) by simp_all
  show ?thesis
  proof (cases "txn_finished t'")
    case False
    have "{j. j < length ops \<and> txn_finished (ts[i := t'] ! j)} = set hist \<union> lost"
      unfolding H(3) using False finished_stuck [OF step] i len by (auto simp: nth_list_update)
    then have "explains ops L (ts[i := t']) db' hist lost"
      using H(1,2,4) replies old txn_open_ledger [OF step False] by (simp add: explains_def)
    then show ?thesis using False new by (intro exI [of _ hist] exI [of _ lost]) simp
  next
    case True
    have fin: "{j. j < length ops \<and> txn_finished (ts[i := t'] ! j)} = insert i (set hist \<union> lost)"
      unfolding H(3) using True i len by (auto simp: nth_list_update)
    from txn_ends_ledger [OF step ok own True] show ?thesis
    proof
      assume one: "(txn_reply t', ledger_of db') = ledger_step (ops ! i) (ledger_of db)"
      have "explains ops L (ts[i := t']) db' (hist @ [i]) lost"
        using H(1,2,4) new replies old fin i len
        by (simp add: explains_def run_ops_append one [symmetric])
      then show ?thesis using True new by (intro exI [of _ "hist @ [i]"] exI [of _ lost]) simp
    next
      assume dup: "retried ops i \<and> key_of (ops ! i) \<noteq> '''' \<and> txn_reply t' = Reserved False
        \<and> ledger_of db' = ledger_of db"
      have "explains ops L (ts[i := t']) db' hist (insert i lost)"
        using H(1,2,4) new replies old fin i dup by (simp add: explains_def)
      then show ?thesis using True new by (intro exI [of _ hist] exI [of _ "insert i lost"]) simp
    qed
  qed
qed

lemma start_explained: "explains ops (ledger_of db) (map new_txn ops) db [] {}"
  and start_settled: "settled_all ops (map new_txn ops, db)"
proof -
  have "\<not> txn_finished (new_txn op) \<and> settled dup op (new_txn op) db" for op dup
    by (cases op) (simp_all add: new_reserve_def new_release_def)
  then show "explains ops (ledger_of db) (map new_txn ops) db [] {}" "settled_all ops (map new_txn ops, db)"
    by (auto simp: explains_def settled_all_def)
qed

text \<open>A run, with the requests in the order in which they ended.\<close>

definition ended_now :: "txn list \<Rightarrow> txn list \<Rightarrow> nat list" where
  "ended_now ts ts' = filter (\<lambda>i. \<not> txn_finished (ts ! i) \<and> txn_finished (ts' ! i)) [0..<length ts]"

inductive inventory_run ::
  "(int \<Rightarrow> int) \<Rightarrow> txn list \<times> inventory_db \<Rightarrow> txn list \<times> inventory_db \<Rightarrow> nat list \<Rightarrow> bool" for clk s where
  begin_run: "inventory_run clk s s []"
| next_step: "inventory_run clk s (ts, db) ended \<Longrightarrow> inventory_step_at clk (ts, db) (ts', db')
    \<Longrightarrow> inventory_run clk s (ts', db') (ended @ ended_now ts ts')"

lemma run_has_endings: "(inventory_step_at clk)\<^sup>*\<^sup>* s u \<Longrightarrow> \<exists>ended. inventory_run clk s u ended"
proof (induction rule: rtranclp_induct)
  case (step t u)
  obtain ts db ts' db' where "t = (ts, db)" "u = (ts', db')" by (metis surj_pair)
  then show ?case using step by (blast intro: next_step)
qed (blast intro: begin_run)

lemma ended_now_one:
  assumes "i < length ts" "\<not> txn_finished (ts ! i)"
  shows "ended_now ts (ts[i := t']) = (if txn_finished t' then [i] else [])"
proof -
  have "ended_now ts (ts[i := t']) = filter (\<lambda>j. j = i \<and> txn_finished t') [0..<length ts]"
    unfolding ended_now_def using assms by (intro filter_cong) (auto simp: nth_list_update)
  also have "\<dots> = (if txn_finished t' then [i] else [])"
  proof -
    have "filter (\<lambda>j. j = i) [0..<n] = (if i < n then [i] else [])" for n by (induction n) auto
    then show ?thesis using assms(1) by simp
  qed
  finally show ?thesis .
qed

lemma history_exists:
  assumes ok: "db_ok db" and ops: "orderly ops"
    and run: "inventory_run clk (map new_txn ops, db) (ts, db') ended"
  shows "\<exists>lost. explains ops (ledger_of db) ts db' (filter (\<lambda>i. i \<notin> lost) ended) lost
    \<and> distinct ended \<and> set ended = {i. i < length ops \<and> txn_finished (ts ! i)}"
proof -
  have "isolated clk ops s \<and> settled_all ops s
    \<and> (\<exists>lost. explains ops (ledger_of db) (fst s) (snd s) (filter (\<lambda>i. i \<notin> lost) ended) lost
      \<and> distinct ended \<and> lost \<subseteq> set ended)"
    if "inventory_run clk (map new_txn ops, db) s ended" for s ended
    using that
  proof (induction rule: inventory_run.induct)
    case begin_run
    then show ?case using isolated_start [OF ok] start_settled start_explained by fastforce
  next
    case (next_step us eb ended us' eb')
    from next_step.hyps(2) obtain i t' where i: "i < length us" "us' = us[i := t']"
      "txn_step clk (others txn_locks us i) (others txn_rows us i) (us ! i, eb) (t', eb')"
      by cases auto
    obtain lost where inv: "isolated clk ops (us, eb)" "settled_all ops (us, eb)" and ended: "distinct ended" "lost \<subseteq> set ended"
      and hist: "explains ops (ledger_of db) us eb (filter (\<lambda>i. i \<notin> lost) ended) lost"
      using next_step.IH by auto
    have now: "ended_now us us' = (if txn_finished t' then [i] else [])"
      using ended_now_one [OF i(1) finished_stuck [OF i(3)]] i(2) by simp
    have "isolated clk ops (us', eb')" using isolated_step [OF inv(1)] next_step.hyps(2) by simp
    moreover have "settled_all ops (us', eb')" using settled_step [OF inv ops i(1,3)] i(2) by simp
    moreover have "\<exists>lost. explains ops (ledger_of db) us' eb' (filter (\<lambda>i. i \<notin> lost) (ended @ ended_now us us')) lost
        \<and> distinct (ended @ ended_now us us') \<and> lost \<subseteq> set (ended @ ended_now us us')"
    proof -
      obtain hist' lost' where H: "explains ops (ledger_of db) us' eb' hist' lost'"
        "i \<notin> set (filter (\<lambda>i. i \<notin> lost) ended) \<union> lost"
        "if txn_finished t' then hist' = filter (\<lambda>i. i \<notin> lost) ended @ [i] \<and> lost' = lost
            \<or> hist' = filter (\<lambda>i. i \<notin> lost) ended \<and> lost' = insert i lost
         else hist' = filter (\<lambda>i. i \<notin> lost) ended \<and> lost' = lost"
        using history_step [OF inv i(1,3) hist] i(2) by blast
      from H(2) have new: "i \<notin> set ended" "i \<notin> lost" by auto
      then have same: "filter (\<lambda>j. j \<notin> insert i lost) ended = filter (\<lambda>j. j \<notin> lost) ended"
        by (intro filter_cong) auto
      show ?thesis
      proof (cases "txn_finished t'")
        case False
        then show ?thesis using H(1,3) ended by (intro exI [of _ lost]) (simp add: now)
      next
        case True
        then consider "hist' = filter (\<lambda>i. i \<notin> lost) ended @ [i]" "lost' = lost"
          | "hist' = filter (\<lambda>i. i \<notin> lost) ended" "lost' = insert i lost"
          using H(3) by auto
        then show ?thesis
        proof cases
          case 1
          then show ?thesis
            using H(1) True ended new by (intro exI [of _ lost]) (auto simp: now)
        next
          case 2
          then show ?thesis
            using H(1) True ended new same by (intro exI [of _ "insert i lost"]) (auto simp: now)
        qed
      qed
    qed
    ultimately show ?case by simp
  qed
  from this [OF run] obtain lost where
    hist: "explains ops (ledger_of db) ts db' (filter (\<lambda>i. i \<notin> lost) ended) lost" "distinct ended" "lost \<subseteq> set ended"
    by auto
  have "set ended = set (filter (\<lambda>i. i \<notin> lost) ended) \<union> lost" using hist(3) by auto
  also have "\<dots> = {i. i < length ops \<and> txn_finished (ts ! i)}"
    using hist(1) unfolding explains_def by (elim conjE)
  finally show ?thesis using hist(1,2) by blast
qed

section \<open>Properties\<close>

text \<open>
  C7: concurrent requests are serializable. Let no release run next to another request for its
  order reference, and let requests with the same key have the same lines. Then however the
  statements interleave, the sequential ledger specification, run on the answered requests in the
  order in which they ended, gives exactly their replies and the final stock, lines and keys; left
  out are only retries that were turned down while a request with their key was served.
\<close>

theorem concurrent_inventory_serializable:
  assumes "db_ok db" and "orderly ops"
    and "inventory_run clk (map new_txn ops, db) (ts, db') ended"
  shows "\<exists>lost. lost \<subseteq> set ended \<and> distinct ended
    \<and> set ended = {i. i < length ops \<and> txn_finished (ts ! i)}
    \<and> (let served = filter (\<lambda>i. i \<notin> lost) ended in
       run_ops ledger_step (map (\<lambda>i. ops ! i) served) (ledger_of db) =
         (map (\<lambda>i. txn_reply (ts ! i)) served, ledger_of db'))
    \<and> (\<forall>i \<in> lost. retried ops i \<and> txn_reply (ts ! i) = Reserved False)"
proof -
  from history_exists [OF assms] obtain lost where
    hist: "explains ops (ledger_of db) ts db' (filter (\<lambda>i. i \<notin> lost) ended) lost" "distinct ended"
      "set ended = {i. i < length ops \<and> txn_finished (ts ! i)}" by (elim exE conjE)
  note H = hist(1) [unfolded explains_def]
  have "set (filter (\<lambda>i. i \<notin> lost) ended) \<union> lost = {i. i < length ops \<and> txn_finished (ts ! i)}"
    using H by (elim conjE)
  then have "lost \<subseteq> set ended" unfolding hist(3) by (rule subst) (rule Un_upper2)
  then show ?thesis
    unfolding Let_def using H hist(2,3) by (intro exI [of _ lost] conjI) (elim conjE, assumption)+
qed

theorem concurrent_inventory_serializable_witness:
  "\<exists>ts db' ended. inventory_run (\<lambda>i. i)
       (map new_txn [Reserve ''o1'' [line 3 6] ''k1'', Reserve ''o2'' [line 3 7] ''k2''], demo_db) (ts, db') ended
     \<and> set ended = {0, 1}
     \<and> fst (run_ops ledger_step (map (\<lambda>i. [Reserve ''o1'' [line 3 6] ''k1'', Reserve ''o2'' [line 3 7] ''k2''] ! i) ended)
          (ledger_of demo_db)) = map (\<lambda>i. txn_reply (ts ! i)) ended"
proof -
  let ?ops = "[Reserve ''o1'' [line 3 6] ''k1'', Reserve ''o2'' [line 3 7] ''k2'']"
  obtain ts db' where steps: "(inventory_step_at (\<lambda>i. i))\<^sup>*\<^sup>* (map new_txn ?ops, demo_db) (ts, db')"
    "\<forall>t \<in> set ts. txn_finished t"
    using completion [OF isolated_start [OF demo_db_ok]] by blast
  obtain ended where run: "inventory_run (\<lambda>i. i) (map new_txn ?ops, demo_db) (ts, db') ended"
    using run_has_endings [OF steps(1)] by blast
  have len: "length ts = 2" using isolated_reachable [OF demo_db_ok steps(1)] by (simp add: isolated_def)
  have two: "i = 0 \<or> i = 1" if "i < 2" for i :: nat using that by auto
  have ops: "orderly ?ops" by (auto simp: orderly_def less_Suc_eq)
  have alone: "\<not> retried ?ops i" if "i < 2" for i
    using two [OF that] by (auto simp: retried_def Ex_less_Suc)
  have all: "{i. i < length ?ops \<and> txn_finished (ts ! i)} = {0, 1}" using steps(2) len by (auto simp: less_Suc_eq)
  from concurrent_inventory_serializable [OF demo_db_ok ops run] obtain lost where
    H: "lost \<subseteq> set ended" "set ended = {0, 1}" "\<forall>i \<in> lost. retried ?ops i"
      "run_ops ledger_step (map (\<lambda>i. ?ops ! i) (filter (\<lambda>i. i \<notin> lost) ended)) (ledger_of demo_db) =
         (map (\<lambda>i. txn_reply (ts ! i)) (filter (\<lambda>i. i \<notin> lost) ended), ledger_of db')"
    unfolding all Let_def by blast
  have "i < 2" if "i \<in> lost" for i
  proof -
    have "i \<in> {0, 1}" using H(1,2) that by blast
    then show ?thesis by auto
  qed
  then have "lost = {}" using H(3) alone by blast
  then have served: "filter (\<lambda>i. i \<notin> lost) ended = ended" by simp
  have "fst (run_ops ledger_step (map (\<lambda>i. ?ops ! i) ended) (ledger_of demo_db)) = map (\<lambda>i. txn_reply (ts ! i)) ended"
    using H(4) unfolding served by (metis fst_conv)
  then show ?thesis using run H(2) by blast
qed

end
