(* ===== verification/OrderModels.thy ===== *)
theory OrderModels
  imports InventoryModels
begin

text \<open>
  The order database: \<^verbatim>\<open>orders/models.py\<close>, its Alembic migration, and the part of a
  request-scoped SQLAlchemy session (\<^verbatim>\<open>core/database.py\<close>) that the order service uses. A
  commit inserts the added orders with their items in one transaction. The database can fail
  on its own account; its decisions are part of the environment of a request.
\<close>

section \<open>Tables and objects\<close>

record order_row =
  or_id :: string
  or_status :: string
  or_created_at :: int

record item_row =
  ir_id :: int
  ir_order_id :: string
  ir_product_id :: int
  ir_quantity :: int

record order_db =
  order_rows :: "order_row list"
  item_rows :: "item_row list"
  item_seq :: int

text \<open>An \<^verbatim>\<open>OrderItem\<close> and an \<^verbatim>\<open>Order\<close> as they are built, and an \<^verbatim>\<open>Order\<close> as it is loaded.\<close>

record order_item =
  oi_product_id :: int
  oi_quantity :: int

record new_order =
  no_id :: string
  no_items :: "order_item list"

record order =
  o_id :: string
  o_status :: string
  o_created_at :: int
  o_items :: "order_item list"

section \<open>The session\<close>

definition item_of_row :: "item_row \<Rightarrow> order_item" where
  "item_of_row r = \<lparr>oi_product_id = ir_product_id r, oi_quantity = ir_quantity r\<rparr>"

text \<open>\<^verbatim>\<open>session.get(Order, id)\<close>: the row, and its items loaded by their foreign key.\<close>

definition session_get :: "string \<Rightarrow> order_db \<Rightarrow> order option" where
  "session_get i db =
     map_option (\<lambda>r. \<lparr>o_id = or_id r, o_status = or_status r, o_created_at = or_created_at r,
         o_items = map item_of_row (filter (\<lambda>s. ir_order_id s = i) (item_rows db))\<rparr>)
       (find (\<lambda>r. or_id r = i) (order_rows db))"

fun insert_items :: "string \<Rightarrow> order_item list \<Rightarrow> order_db \<Rightarrow> order_db" where
  "insert_items i [] db = db"
| "insert_items i (x # xs) db =
     insert_items i xs (db\<lparr>
       item_rows := item_rows db @ [\<lparr>ir_id = item_seq db, ir_order_id = i,
         ir_product_id = oi_product_id x, ir_quantity = oi_quantity x\<rparr>],
       item_seq := item_seq db + 1\<rparr>)"

definition in_int4 :: "int \<Rightarrow> bool" where
  "in_int4 i \<longleftrightarrow> - max_int4 - 1 \<le> i \<and> i \<le> max_int4"

definition order_insert :: "int \<Rightarrow> new_order \<Rightarrow> order_db \<Rightarrow> db_error + order_db" where
  "order_insert now ord db =
     (if no_id ord \<in> or_id ` set (order_rows db) then Inl IntegrityError
      else if \<not> list_all (\<lambda>x. in_int4 (oi_product_id x) \<and> in_int4 (oi_quantity x)) (no_items ord)
        then Inl DataError
      else Inr (insert_items (no_id ord) (no_items ord)
        (db\<lparr>order_rows := order_rows db @
              [\<lparr>or_id = no_id ord, or_status = ''CONFIRMED'', or_created_at = now\<rparr>]\<rparr>)))"

primrec flush_orders :: "int \<Rightarrow> new_order list \<Rightarrow> order_db \<Rightarrow> db_error + order_db" where
  "flush_orders now [] db = Inr db"
| "flush_orders now (ord # ords) db = and_then (order_insert now ord db) (flush_orders now ords)"

text \<open>
  What the environment decides for the database calls of one request: whether the lookup, the
  refresh and the rollback raise, and whether the commit runs, fails, or is made durable while
  its confirmation is lost.
\<close>

datatype commit_fate = CommitRuns | CommitFails | CommitUnconfirmed

record session_faults =
  sf_get :: bool
  sf_commit :: commit_fate
  sf_refresh :: bool
  sf_rollback :: bool

abbreviation no_faults :: session_faults where
  "no_faults \<equiv> \<lparr>sf_get = False, sf_commit = CommitRuns, sf_refresh = False, sf_rollback = False\<rparr>"

text \<open>
  \<open>True\<close> when the commit returns; otherwise it raises. A session that nothing was added to has
  no transaction to commit.
\<close>

definition session_commit ::
  "commit_fate \<Rightarrow> int \<Rightarrow> new_order list \<Rightarrow> order_db \<Rightarrow> bool \<times> order_db" where
  "session_commit fate now added db =
     (if added = [] then (True, db)
      else case fate of
        CommitFails \<Rightarrow> (False, db)
      | _ \<Rightarrow> (case flush_orders now added db of
               Inl e \<Rightarrow> (False, db)
             | Inr db' \<Rightarrow> (fate = CommitRuns, db')))"

section \<open>The invariant and what a commit does\<close>

definition odb_ok :: "order_db \<Rightarrow> bool" where
  "odb_ok db \<longleftrightarrow> distinct (map or_id (order_rows db)) \<and>
     (\<forall>r \<in> set (item_rows db). ir_order_id r \<in> or_id ` set (order_rows db) \<and> ir_id r < item_seq db)
     \<and> distinct (map ir_id (item_rows db))"

lemma insert_items_orders [simp]: "order_rows (insert_items i xs db) = order_rows db"
  by (induction xs arbitrary: db) simp_all

lemma insert_items_get:
  "map item_of_row (filter (\<lambda>s. ir_order_id s = j) (item_rows (insert_items i xs db))) =
     map item_of_row (filter (\<lambda>s. ir_order_id s = j) (item_rows db)) @ (if i = j then xs else [])"
  by (induction xs arbitrary: db) (simp_all add: item_of_row_def)

lemma insert_items_ok:
  "odb_ok db \<Longrightarrow> i \<in> or_id ` set (order_rows db) \<Longrightarrow> odb_ok (insert_items i xs db)"
proof (induction xs arbitrary: db)
  case Nil
  then show ?case by simp
next
  case (Cons x xs)
  from Cons.prems have "odb_ok (db\<lparr>item_rows := item_rows db @ [\<lparr>ir_id = item_seq db, ir_order_id = i,
      ir_product_id = oi_product_id x, ir_quantity = oi_quantity x\<rparr>], item_seq := item_seq db + 1\<rparr>)"
    unfolding odb_ok_def by (auto simp: image_iff)
  from Cons.IH [OF this] Cons.prems(2) show ?case by simp
qed

lemma find_append: "find P (xs @ ys) = (case find P xs of None \<Rightarrow> find P ys | Some x \<Rightarrow> Some x)"
  by (induction xs) auto

lemma session_get_None: "session_get i db = None \<longleftrightarrow> i \<notin> or_id ` set (order_rows db)"
  by (auto simp: session_get_def find_None_iff)

lemma session_get_id: "session_get i db = Some ord \<Longrightarrow> o_id ord = i"
  by (auto simp: session_get_def find_Some_iff)

lemma order_insert_Inr:
  assumes "order_insert now ord db = Inr db'" "odb_ok db"
  shows "odb_ok db'" and "session_get (no_id ord) db = None"
    and "session_get i db' = (if i = no_id ord then
      Some \<lparr>o_id = i, o_status = ''CONFIRMED'', o_created_at = now, o_items = no_items ord\<rparr>
      else session_get i db)"
proof -
  let ?db = "db\<lparr>order_rows := order_rows db @
      [\<lparr>or_id = no_id ord, or_status = ''CONFIRMED'', or_created_at = now\<rparr>]\<rparr>"
  from assms(1) have new: "no_id ord \<notin> or_id ` set (order_rows db)"
    and db': "db' = insert_items (no_id ord) (no_items ord) ?db"
    by (auto simp: order_insert_def split: if_splits)
  from new show "session_get (no_id ord) db = None" by (simp add: session_get_None)
  have "odb_ok ?db" using assms(2) new by (auto simp: odb_ok_def)
  then show "odb_ok db'" unfolding db' by (rule insert_items_ok) simp
  have "filter (\<lambda>s. ir_order_id s = no_id ord) (item_rows db) = []"
    using assms(2) new unfolding odb_ok_def filter_empty_conv by metis
  moreover have "find (\<lambda>r. or_id r = no_id ord) (order_rows db) = None"
    using new by (auto simp: find_None_iff image_iff)
  ultimately show "session_get i db' = (if i = no_id ord then
      Some \<lparr>o_id = i, o_status = ''CONFIRMED'', o_created_at = now, o_items = no_items ord\<rparr>
      else session_get i db)"
    by (auto simp: db' session_get_def insert_items_get find_append split: option.split)
qed

definition order_of :: "int \<Rightarrow> new_order \<Rightarrow> order" where
  "order_of now ord = \<lparr>o_id = no_id ord, o_status = ''CONFIRMED'', o_created_at = now,
     o_items = no_items ord\<rparr>"

lemma flush_orders_Inr:
  assumes "flush_orders now ords db = Inr db'" "odb_ok db"
  shows "odb_ok db'" and "distinct (map no_id ords)"
    and "\<forall>ord \<in> set ords. session_get (no_id ord) db = None"
    and "session_get i db' = (case find (\<lambda>ord. no_id ord = i) ords of
      Some ord \<Rightarrow> Some (order_of now ord) | None \<Rightarrow> session_get i db)"
proof -
  have "odb_ok db' \<and> distinct (map no_id ords) \<and> (\<forall>ord \<in> set ords. session_get (no_id ord) db = None)
    \<and> (\<forall>i. session_get i db' = (case find (\<lambda>ord. no_id ord = i) ords of
        Some ord \<Rightarrow> Some (order_of now ord) | None \<Rightarrow> session_get i db))"
    using assms
  proof (induction ords arbitrary: db)
    case Nil
    then show ?case by simp
  next
    case (Cons ord ords)
    from Cons.prems(1) obtain db1 where first: "order_insert now ord db = Inr db1"
      and rest: "flush_orders now ords db1 = Inr db'"
      by (auto simp: and_then_Inr_iff)
    note get = order_insert_Inr [OF first Cons.prems(2)]
    note IH = Cons.IH [OF rest get(1)]
    have new: "no_id o' \<noteq> no_id ord \<and> session_get (no_id o') db = None" if "o' \<in> set ords" for o'
    proof -
      have "session_get (no_id o') db1 = None" using IH that by blast
      then show ?thesis using get(3) [of "no_id o'"] by (simp split: if_splits)
    qed
    then have none: "find (\<lambda>o'. no_id o' = no_id ord) ords = None" by (auto simp: find_None_iff)
    have "distinct (map no_id (ord # ords))" using IH new by (force simp: image_iff)
    moreover have "\<forall>o' \<in> set (ord # ords). session_get (no_id o') db = None"
      using new get(2) by simp
    moreover have "session_get i db' = (case find (\<lambda>o'. no_id o' = i) (ord # ords) of
        Some o' \<Rightarrow> Some (order_of now o') | None \<Rightarrow> session_get i db)" for i
      using IH get(3) [of i] none
      by (cases "i = no_id ord") (simp_all add: order_of_def split: option.split)
    ultimately show ?case using IH by blast
  qed
  then show "odb_ok db'" "distinct (map no_id ords)"
    "\<forall>ord \<in> set ords. session_get (no_id ord) db = None"
    "session_get i db' = (case find (\<lambda>ord. no_id ord = i) ords of
      Some ord \<Rightarrow> Some (order_of now ord) | None \<Rightarrow> session_get i db)"
    by blast+
qed

lemma session_commit_one:
  assumes "session_commit fate now [ord] db = (ok, db')" "odb_ok db"
  shows "odb_ok db'"
    and "ok \<Longrightarrow> session_get (no_id ord) db = None"
    and "ok \<Longrightarrow> fate = CommitRuns"
    and "db' = db \<or> (fate \<noteq> CommitFails \<and> (\<forall>i. session_get i db' =
      (if i = no_id ord then Some (order_of now ord) else session_get i db)))"
    and "ok \<Longrightarrow> session_get i db' = (if i = no_id ord then Some (order_of now ord) else session_get i db)"
proof -
  have ins: "odb_ok db1" "session_get (no_id ord) db = None"
      "session_get i db1 = (if i = no_id ord then Some (order_of now ord) else session_get i db)"
    if "flush_orders now [ord] db = Inr db1" for db1 i
    using flush_orders_Inr [OF that assms(2)] by auto
  show "odb_ok db'" "ok \<Longrightarrow> session_get (no_id ord) db = None" "ok \<Longrightarrow> fate = CommitRuns"
    "db' = db \<or> (fate \<noteq> CommitFails \<and> (\<forall>i. session_get i db' =
      (if i = no_id ord then Some (order_of now ord) else session_get i db)))"
    "ok \<Longrightarrow> session_get i db' = (if i = no_id ord then Some (order_of now ord) else session_get i db)"
    using assms ins
    by (auto simp: session_commit_def simp del: flush_orders.simps
        split: commit_fate.splits sum.splits)
qed

lemma session_commit_True:
  assumes "session_commit fate now ords db = (True, db')" "odb_ok db"
  shows "odb_ok db'"
    and "session_get i db' = (case find (\<lambda>ord. no_id ord = i) ords of
      Some ord \<Rightarrow> Some (order_of now ord) | None \<Rightarrow> session_get i db)"
proof -
  have "odb_ok db' \<and> session_get i db' = (case find (\<lambda>ord. no_id ord = i) ords of
      Some ord \<Rightarrow> Some (order_of now ord) | None \<Rightarrow> session_get i db)"
  proof (cases "ords = []")
    case True
    with assms show ?thesis by (simp add: session_commit_def)
  next
    case False
    with assms(1) have "flush_orders now ords db = Inr db'"
      by (auto simp: session_commit_def split: commit_fate.splits sum.splits)
    from flush_orders_Inr [OF this assms(2)] show ?thesis by blast
  qed
  then show "odb_ok db'" "session_get i db' = (case find (\<lambda>ord. no_id ord = i) ords of
      Some ord \<Rightarrow> Some (order_of now ord) | None \<Rightarrow> session_get i db)"
    by simp_all
qed

lemma flush_orders_succeeds:
  assumes "odb_ok db" "distinct (map no_id ords)" "\<forall>ord \<in> set ords. session_get (no_id ord) db = None"
    and "\<forall>ord \<in> set ords. list_all (\<lambda>x. in_int4 (oi_product_id x) \<and> in_int4 (oi_quantity x)) (no_items ord)"
  shows "\<exists>db'. flush_orders now ords db = Inr db'"
  using assms
proof (induction ords arbitrary: db)
  case Nil
  then show ?case by simp
next
  case (Cons ord ords)
  from Cons.prems(3,4) obtain db1 where first: "order_insert now ord db = Inr db1"
    by (auto simp: order_insert_def session_get_None)
  note get = order_insert_Inr [OF first Cons.prems(1)]
  have "\<forall>o' \<in> set ords. session_get (no_id o') db1 = None"
    using Cons.prems(2,3) get(3) by (auto simp: image_iff)
  with Cons get(1) have "\<exists>db'. flush_orders now ords db1 = Inr db'" by simp
  with first show ?case by simp
qed

end
