(* ===== verification/StockQueries.thy ===== *)
theory StockQueries
  imports ReserveStock
begin

text \<open>
  The read side of \<^verbatim>\<open>inventory_app/services.py\<close>: \<^verbatim>\<open>stream_low_stock\<close> and
  \<^verbatim>\<open>fetch_stock\<close>. Both order by SKU, in the database's collation: \<open>ck\<close> maps a string to
  its collation key, for an arbitrary function into a linear order.
\<close>

section \<open>The functions\<close>

record product_stock_row =
  sr_product :: int
  sr_sku :: string
  sr_name :: string
  sr_available :: int

definition to_row :: "product \<Rightarrow> product_stock_row" where
  "to_row p = \<lparr>sr_product = p_id p, sr_sku = p_sku p, sr_name = p_name p,
               sr_available = p_available p\<rparr>"

definition stream_low_stock ::
  "(string \<Rightarrow> 'k::linorder) \<Rightarrow> int \<Rightarrow> string \<Rightarrow> inventory_db \<Rightarrow> product_stock_row list" where
  "stream_low_stock ck threshold sku_prefix db =
     (let ps = filter (\<lambda>p. p_available p \<le> threshold) (products db);
          ps = (if sku_prefix \<noteq> '''' then filter (\<lambda>p. prefix sku_prefix (p_sku p)) ps else ps)
      in map to_row (sort_key (\<lambda>p. ck (p_sku p)) ps))"

definition fetch_stock ::
  "(string \<Rightarrow> 'k::linorder) \<Rightarrow> int list \<Rightarrow> inventory_db \<Rightarrow> product_stock_row list" where
  "fetch_stock ck ids db =
     (if ids = [] then []
      else map to_row (sort_key (\<lambda>p. ck (p_sku p))
             (filter (\<lambda>p. p_id p \<in> set ids) (products db))))"

section \<open>What the queries return\<close>

lemma to_row_sel [simp]:
  "sr_product (to_row p) = p_id p" "sr_sku (to_row p) = p_sku p"
  "sr_name (to_row p) = p_name p" "sr_available (to_row p) = p_available p"
  by (simp_all add: to_row_def)

lemma map_to_row [simp]:
  "map sr_product (map to_row ps) = map p_id ps"
  "map (\<lambda>r. f (sr_sku r)) (map to_row ps) = map (\<lambda>p. f (p_sku p)) ps"
  by simp_all

lemma distinct_map_sort_filter:
  "distinct (map f xs) \<Longrightarrow> distinct (map f (sort_key g (filter P xs)))"
proof -
  assume "distinct (map f xs)"
  then have "distinct (map f (filter P xs))" by (rule distinct_map_filter)
  moreover have "mset (map f (sort_key g (filter P xs))) = mset (map f (filter P xs))" by simp
  ultimately show ?thesis by (metis mset_eq_imp_distinct_iff)
qed

lemma low_stock_rows:
  "stream_low_stock ck threshold sku_prefix db =
     map to_row (sort_key (\<lambda>p. ck (p_sku p))
       (filter (\<lambda>p. p_available p \<le> threshold \<and> prefix sku_prefix (p_sku p)) (products db)))"
  by (simp add: stream_low_stock_def Let_def conj_commute)

lemma fetch_stock_rows:
  "fetch_stock ck ids db =
     map to_row (sort_key (\<lambda>p. ck (p_sku p)) (filter (\<lambda>p. p_id p \<in> set ids) (products db)))"
  by (simp add: fetch_stock_def)

lemma fetch_stock_member:
  assumes "db_ok db"
  shows "r \<in> set (fetch_stock ck ids db) \<longleftrightarrow>
    sr_product r \<in> set ids \<and> map_option to_row (product_get (sr_product r) db) = Some r"
proof
  assume "r \<in> set (fetch_stock ck ids db)"
  then obtain p where "p \<in> set (products db)" "p_id p \<in> set ids" "r = to_row p"
    by (auto simp: fetch_stock_rows)
  with product_get_member [OF db_okD(1) [OF assms]]
  show "sr_product r \<in> set ids \<and> map_option to_row (product_get (sr_product r) db) = Some r"
    by simp
next
  assume "sr_product r \<in> set ids \<and> map_option to_row (product_get (sr_product r) db) = Some r"
  then obtain p where "product_get (sr_product r) db = Some p" "to_row p = r"
      and "sr_product r \<in> set ids"
    by auto
  moreover from this have "p \<in> set (products db)" by (auto dest: product_get_SomeD)
  ultimately show "r \<in> set (fetch_stock ck ids db)" by (auto simp: fetch_stock_rows)
qed

lemma fetch_stock_distinct:
  "db_ok db \<Longrightarrow> distinct (map sr_product (fetch_stock ck ids db))"
  by (simp only: fetch_stock_rows map_to_row distinct_map_sort_filter db_okD(1))

section \<open>Properties\<close>

text \<open>
  The low-stock scan is exact: it yields the row of a product exactly when its available
  quantity is at most the threshold and its SKU starts with the prefix, no product twice, in
  the collation order of the SKUs.
\<close>

theorem stream_low_stock_exact:
  assumes "db_ok db"
  shows "set (stream_low_stock ck threshold sku_prefix db) =
      to_row ` set (filter (\<lambda>p. p_available p \<le> threshold \<and> prefix sku_prefix (p_sku p)) (products db))
    \<and> distinct (map sr_product (stream_low_stock ck threshold sku_prefix db))
    \<and> sorted (map (\<lambda>r. ck (sr_sku r)) (stream_low_stock ck threshold sku_prefix db))"
  unfolding low_stock_rows map_to_row
  using db_okD(1) [OF assms] by (simp add: distinct_map_sort_filter)

theorem stream_low_stock_exact_witness:
  "sr_product ` set (stream_low_stock (length :: string \<Rightarrow> nat) 50 ''SKU-G'' demo_db) = {2, 3}"
  using stream_low_stock_exact [OF demo_db_ok, of "length :: string \<Rightarrow> nat" 50 "''SKU-G''"]
  by (simp add: demo_db_def)

text \<open>
  The point-in-time read is exact: for a list of ids it returns the current row of every
  listed product that exists and nothing else, one row per product however often its id is
  listed, in the collation order of the SKUs.
\<close>

theorem fetch_stock_exact:
  assumes "db_ok db"
  shows "(\<forall>pid. find (\<lambda>r. sr_product r = pid) (fetch_stock ck ids db) =
       (if pid \<in> set ids then map_option to_row (product_get pid db) else None))
    \<and> distinct (map sr_product (fetch_stock ck ids db))
    \<and> sorted (map (\<lambda>r. ck (sr_sku r)) (fetch_stock ck ids db))"
proof (intro conjI allI)
  fix pid
  show "find (\<lambda>r. sr_product r = pid) (fetch_stock ck ids db) =
      (if pid \<in> set ids then map_option to_row (product_get pid db) else None)"
  proof (cases "find (\<lambda>r. sr_product r = pid) (fetch_stock ck ids db)")
    case None
    then have "r \<notin> set (fetch_stock ck ids db)" if "sr_product r = pid" for r
      using that by (auto simp: find_None_iff)
    then have "product_get pid db = None" if "pid \<in> set ids"
      using that product_get_SomeD(2) fetch_stock_member [OF assms]
      by (metis not_None_eq option.simps(9) to_row_sel(1))
    with None show ?thesis by simp
  next
    case (Some r)
    then have "r \<in> set (fetch_stock ck ids db)" "sr_product r = pid"
      by (auto simp: find_Some_iff)
    with Some show ?thesis by (auto simp: fetch_stock_member [OF assms])
  qed
next
  show "sorted (map (\<lambda>r. ck (sr_sku r)) (fetch_stock ck ids db))"
    by (simp only: fetch_stock_rows map_to_row sorted_sort_key)
qed (rule fetch_stock_distinct [OF assms])

theorem fetch_stock_exact_witness:
  "find (\<lambda>r. sr_product r = 3) (fetch_stock (length :: string \<Rightarrow> nat) [3, 1, 3, 9] demo_db) =
    Some \<lparr>sr_product = 3, sr_sku = ''SKU-GIZMO'', sr_name = ''Limited Gizmo'', sr_available = 10\<rparr>"
  using fetch_stock_exact [OF demo_db_ok, of "length :: string \<Rightarrow> nat" "[3, 1, 3, 9]"]
  by (simp add: demo_db_def product_get_def to_row_def)

end
