(* ===== verification/GrpcMessages.thy ===== *)
theory GrpcMessages
  imports StockQueries ReleaseStock
begin

text \<open>
  The contract \<^verbatim>\<open>proto/order_inventory.proto\<close>: the messages of the five RPCs, with the
  ranges of their integer fields, and the gRPC status codes. A field of type \<^verbatim>\<open>int32\<close> or
  \<^verbatim>\<open>int64\<close> only carries values of its range; the generated message classes raise
  \<^verbatim>\<open>ValueError\<close> for others, which the client model writes out.
\<close>

datatype status_code =
  OK | CANCELLED | UNKNOWN | INVALID_ARGUMENT | DEADLINE_EXCEEDED | NOT_FOUND | ALREADY_EXISTS
| PERMISSION_DENIED | RESOURCE_EXHAUSTED | FAILED_PRECONDITION | ABORTED | OUT_OF_RANGE
| UNIMPLEMENTED | INTERNAL | UNAVAILABLE | DATA_LOSS | UNAUTHENTICATED

definition in_int32 :: "int \<Rightarrow> bool" where
  "in_int32 i \<longleftrightarrow> - 2147483648 \<le> i \<and> i \<le> 2147483647"

definition in_int64 :: "int \<Rightarrow> bool" where
  "in_int64 i \<longleftrightarrow> - 9223372036854775808 \<le> i \<and> i \<le> 9223372036854775807"

record pb_reserve_item =
  pri_product_id :: int
  pri_quantity :: int

record reserve_stock_request =
  rsr_order_ref :: string
  rsr_items :: "pb_reserve_item list"
  rsr_idempotency_key :: string

record release_stock_request =
  rlr_order_ref :: string

record release_stock_response =
  rlp_released :: bool
  rlp_released_count :: int

record pb_item_outcome =
  pio_product_id :: int
  pio_reserved :: bool
  pio_reason :: string

record reserve_stock_response =
  rsp_success :: bool
  rsp_results :: "pb_item_outcome list"

record bulk_reserve_item =
  bri_order_ref :: string
  bri_product_id :: int
  bri_quantity :: int

record bulk_item_outcome =
  bio_order_ref :: string
  bio_product_id :: int
  bio_reserved :: bool
  bio_reason :: string

record bulk_reserve_summary =
  brs_total :: int
  brs_reserved_count :: int
  brs_failed_count :: int
  brs_results :: "bulk_item_outcome list"

record low_stock_query =
  lsq_threshold :: int
  lsq_sku_prefix :: string

record product_stock =
  ps_product_id :: int
  ps_sku :: string
  ps_name :: string
  ps_available_quantity :: int

datatype watch_action = SUBSCRIBE | UNSUBSCRIBE

record watch_command =
  wc_action :: watch_action
  wc_product_ids :: "int list"

datatype update_kind = SNAPSHOT | CHANGED

record stock_update =
  su_product_id :: int
  su_sku :: string
  su_name :: string
  su_available_quantity :: int
  su_kind :: update_kind

end
