(* ===== verification/Servicer.thy ===== *)
theory Servicer
  imports GrpcMessages InventoryLedger
begin

text \<open>
  The request handlers of \<^verbatim>\<open>grpc_server/servicer.py\<close> up to the server-streaming scan:
  \<^verbatim>\<open>ReserveStock\<close>, \<^verbatim>\<open>ReleaseStock\<close>, \<^verbatim>\<open>ReserveStockBulk\<close> and \<^verbatim>\<open>WatchLowStock\<close>.
  A handler that does not return a response raises: \<^verbatim>\<open>context.abort\<close> with its status, or an
  exception of the service layer that no one catches. A generator of responses that gRPC drops
  before its end, because the client has gone, ends with \<^verbatim>\<open>GeneratorExit\<close> at its last \<^verbatim>\<open>yield\<close>.
\<close>

datatype handler_error = Abort status_code string | Uncaught db_error | IndexError | GeneratorExit

section \<open>The unary handlers\<close>

definition ReserveStock_handler ::
  "(int \<Rightarrow> int) \<Rightarrow> reserve_stock_request \<Rightarrow> inventory_db
     \<Rightarrow> (handler_error + reserve_stock_response) \<times> inventory_db" where
  "ReserveStock_handler clk request db =
     (if rsr_order_ref request = '''' then (Inl (Abort INVALID_ARGUMENT ''order_ref is required''), db)
      else if rsr_items request = [] then
        (Inl (Abort INVALID_ARGUMENT ''items must not be empty''), db)
      else
        let items = map (\<lambda>item. \<lparr>ri_product = pri_product_id item, ri_quantity = pri_quantity item\<rparr>)
                      (rsr_items request) in
        case reserve_stock clk (rsr_order_ref request) items (rsr_idempotency_key request) db of
          (Inl e, db') \<Rightarrow> (Inl (Uncaught e), db')
        | (Inr outcome, db') \<Rightarrow>
            (Inr \<lparr>rsp_success = ro_success outcome,
                  rsp_results = map (\<lambda>result. \<lparr>pio_product_id = io_product result,
                      pio_reserved = io_reserved result, pio_reason = io_reason result\<rparr>)
                    (ro_results outcome)\<rparr>, db'))"

definition ReleaseStock_handler ::
  "release_stock_request \<Rightarrow> inventory_db
     \<Rightarrow> (handler_error + release_stock_response) \<times> inventory_db" where
  "ReleaseStock_handler request db =
     (if rlr_order_ref request = '''' then (Inl (Abort INVALID_ARGUMENT ''order_ref is required''), db)
      else
        case release_stock (rlr_order_ref request) db of
          (Inl e, db') \<Rightarrow> (Inl (Uncaught e), db')
        | (Inr outcome, db') \<Rightarrow>
            (Inr \<lparr>rlp_released = rl_released outcome,
                  rlp_released_count = rl_released_count outcome\<rparr>, db'))"

section \<open>The client-streaming handler\<close>

definition bulk_outcome :: "bulk_reserve_item \<Rightarrow> int \<Rightarrow> bool \<Rightarrow> string \<Rightarrow> bulk_item_outcome" where
  "bulk_outcome item pid ok reason =
     \<lparr>bio_order_ref = bri_order_ref item, bio_product_id = pid, bio_reserved = ok,
      bio_reason = reason\<rparr>"

definition bulk_line :: "bulk_reserve_item \<Rightarrow> reserve_item" where
  "bulk_line item = \<lparr>ri_product = bri_product_id item, ri_quantity = bri_quantity item\<rparr>"

fun bulk_loop ::
  "(int \<Rightarrow> int) \<Rightarrow> bulk_reserve_item list \<Rightarrow> bulk_item_outcome list \<Rightarrow> int \<Rightarrow> inventory_db
     \<Rightarrow> (handler_error + bulk_item_outcome list \<times> int) \<times> inventory_db" where
  "bulk_loop clk [] results reserved_count db = (Inr (results, reserved_count), db)"
| "bulk_loop clk (item # items) results reserved_count db =
     (if bri_order_ref item = '''' then
        bulk_loop clk items
          (results @ [bulk_outcome item (bri_product_id item) False ''order_ref is required''])
          reserved_count db
      else
        case reserve_stock clk (bri_order_ref item) [bulk_line item] '''' db of
          (Inl e, db') \<Rightarrow> (Inl (Uncaught e), db')
        | (Inr outcome, db') \<Rightarrow>
            (case ro_results outcome of
               [] \<Rightarrow> (Inl IndexError, db')
             | result # _ \<Rightarrow>
                 bulk_loop clk items
                   (results @ [bulk_outcome item (io_product result) (io_reserved result)
                                 (io_reason result)])
                   (if io_reserved result then reserved_count + 1 else reserved_count) db'))"

definition ReserveStockBulk_handler ::
  "(int \<Rightarrow> int) \<Rightarrow> bulk_reserve_item list \<Rightarrow> inventory_db
     \<Rightarrow> (handler_error + bulk_reserve_summary) \<times> inventory_db" where
  "ReserveStockBulk_handler clk request_iterator db =
     (case bulk_loop clk request_iterator [] 0 db of
        (Inl e, db') \<Rightarrow> (Inl e, db')
      | (Inr (results, reserved_count), db') \<Rightarrow>
          (Inr \<lparr>brs_total = int (length results), brs_reserved_count = reserved_count,
                brs_failed_count = int (length results) - reserved_count,
                brs_results = results\<rparr>, db'))"

section \<open>The server-streaming handler\<close>

text \<open>
  \<open>is_active k\<close> is the answer of the \<open>k\<close>-th call of \<^verbatim>\<open>context.is_active()\<close>: it turns false
  when the client cancels or its deadline passes. The result is the list of messages yielded
  and how the stream ends.
\<close>

definition product_stock_of :: "product_stock_row \<Rightarrow> product_stock" where
  "product_stock_of row =
     \<lparr>ps_product_id = sr_product row, ps_sku = sr_sku row, ps_name = sr_name row,
      ps_available_quantity = sr_available row\<rparr>"

fun yield_rows :: "(nat \<Rightarrow> bool) \<Rightarrow> nat \<Rightarrow> product_stock_row list \<Rightarrow> product_stock list" where
  "yield_rows is_active k [] = []"
| "yield_rows is_active k (row # rows) =
     (if \<not> is_active k then [] else product_stock_of row # yield_rows is_active (Suc k) rows)"

definition WatchLowStock_handler ::
  "(string \<Rightarrow> 'k::linorder) \<Rightarrow> (nat \<Rightarrow> bool) \<Rightarrow> low_stock_query \<Rightarrow> inventory_db
     \<Rightarrow> product_stock list \<times> (handler_error + unit)" where
  "WatchLowStock_handler ck is_active request db =
     (if lsq_threshold request < 0 then ([], Inl (Abort INVALID_ARGUMENT ''threshold must be >= 0''))
      else (yield_rows is_active 0
              (stream_low_stock ck (lsq_threshold request) (lsq_sku_prefix request) db), Inr ()))"

section \<open>Each streamed line on its own\<close>

lemma reserve_single:
  assumes "db_ok db" "fits order_ref"
  shows "reserve_stock clk order_ref [item] '''' db =
    (if line_fits item db then
       (Inr \<lparr>ro_success = True, ro_results = [reserved_outcome (ri_product item)]\<rparr>,
        take_line clk order_ref '''' item db)
     else
       (Inr \<lparr>ro_success = False,
             ro_results = [refused_outcome (ri_product item) (line_reason item db)]\<rparr>, db))"
proof -
  have "fits ''''" by (simp add: fits_def)
  with assms show ?thesis
    by (simp add: reserve_stock_def replayed_def reserve_line_cases refuse_line_def)
qed

text \<open>What a streamed line is answered and does, without the loop around it.\<close>

definition bulk_step ::
  "(int \<Rightarrow> int) \<Rightarrow> bulk_reserve_item \<Rightarrow> inventory_db \<Rightarrow> bulk_item_outcome \<times> inventory_db" where
  "bulk_step clk item db =
     (if bri_order_ref item = '''' then
        (bulk_outcome item (bri_product_id item) False ''order_ref is required'', db)
      else if fits (bri_order_ref item) \<and> line_fits (bulk_line item) db then
        (bulk_outcome item (bri_product_id item) True '''',
         take_line clk (bri_order_ref item) '''' (bulk_line item) db)
      else (bulk_outcome item (bri_product_id item) False (line_reason (bulk_line item) db), db))"

lemma bulk_line_sel [simp]:
  "ri_product (bulk_line item) = bri_product_id item"
  "ri_quantity (bulk_line item) = bri_quantity item"
  by (simp_all add: bulk_line_def)

lemma bulk_outcome_sel [simp]:
  "bio_order_ref (bulk_outcome item pid ok reason) = bri_order_ref item"
  "bio_product_id (bulk_outcome item pid ok reason) = pid"
  "bio_reserved (bulk_outcome item pid ok reason) = ok"
  "bio_reason (bulk_outcome item pid ok reason) = reason"
  by (simp_all add: bulk_outcome_def)

lemma bulk_step_db_ok: "db_ok db \<Longrightarrow> db_ok (snd (bulk_step clk item db))"
  by (auto simp: bulk_step_def fits_def intro!: take_line_db_ok)

lemma bulk_step_stock: "db_ok db \<Longrightarrow> stock (snd (bulk_step clk item db)) pid = stock db pid"
  by (auto simp: bulk_step_def line_fits_def intro!: take_line_stock)

interpretation bulk_stream: conserving_machine "bulk_step clk" db_ok stock for clk
  by unfold_locales (simp_all add: bulk_step_db_ok bulk_step_stock)

lemma bulk_loop_steps:
  assumes "db_ok db" "\<forall>item \<in> set items. fits (bri_order_ref item)"
  shows "bulk_loop clk items results n db =
    (let (outs, db') = run_ops (bulk_step clk) items db in
     (Inr (results @ outs, n + int (length (filter bio_reserved outs))), db'))"
  using assms
proof (induction items arbitrary: results n db)
  case Nil
  then show ?case by simp
next
  case (Cons item items)
  have "db_ok (snd (bulk_step clk item db))" using Cons.prems(1) by (rule bulk_step_db_ok)
  then show ?case
    using Cons by (auto simp: bulk_step_def reserve_single split_def Let_def)
qed

section \<open>Properties\<close>

subsection \<open>The unary reservation\<close>

lemma reserve_stock_outcomes:
  assumes "reserve_stock clk order_ref items key db = (Inr out, db')" "items \<noteq> []"
  shows "ro_results out \<noteq> []"
    and "ro_success out \<longleftrightarrow> (\<forall>x \<in> set (ro_results out). io_reserved x)"
    and "\<forall>x \<in> set (ro_results out). io_reserved x \<longleftrightarrow> io_reason x = ''''"
    and "replayed key db = [] \<Longrightarrow> map io_product (ro_results out) = sort (map ri_product items)"
proof -
  let ?items = "sort_key ri_product items" and ?t = "\<lparr>rs_db = db, rs_outcomes = [], rs_all_ok = True\<rparr>"
  have sorted: "map ri_product ?items = sort (map ri_product items)"
    by (rule properties_for_sort [symmetric]) simp_all
  have "ro_results out \<noteq> [] \<and> (ro_success out \<longleftrightarrow> (\<forall>x \<in> set (ro_results out). io_reserved x))
    \<and> (\<forall>x \<in> set (ro_results out). io_reserved x \<longleftrightarrow> io_reason x = '''')
    \<and> (replayed key db = [] \<longrightarrow> map io_product (ro_results out) = map ri_product ?items)"
  proof (cases "replayed key db = []")
    case True
    show ?thesis
    proof (cases "reserve_lines clk order_ref key ?items ?t")
      case (Inl e)
      with True assms show ?thesis by (cases e) (auto simp: reserve_stock_def comp_def)
    next
      case (Inr t')
      from reserve_lines_outcomes [OF Inr] obtain xs where
        "rs_outcomes t' = xs" "map io_product xs = map ri_product ?items"
        "\<forall>x \<in> set xs. io_reserved x \<longleftrightarrow> io_reason x = ''''"
        "rs_all_ok t' \<longleftrightarrow> (\<forall>x \<in> set xs. io_reserved x)"
        by auto
      moreover from this(2) have "length xs = length items"
        by (metis length_map length_sort)
      then have "xs \<noteq> []" using assms(2) by auto
      moreover have "out = \<lparr>ro_success = rs_all_ok t', ro_results = rs_outcomes t'\<rparr>"
        using True Inr assms by (simp add: reserve_stock_def)
      ultimately show ?thesis by simp
    qed
  next
    case False
    with assms show ?thesis by (auto simp: reserve_stock_replay)
  qed
  with sorted show "ro_results out \<noteq> []"
    "ro_success out \<longleftrightarrow> (\<forall>x \<in> set (ro_results out). io_reserved x)"
    "\<forall>x \<in> set (ro_results out). io_reserved x \<longleftrightarrow> io_reason x = ''''"
    "replayed key db = [] \<Longrightarrow> map io_product (ro_results out) = sort (map ri_product items)"
    by simp_all
qed

lemma reserve_stock_raises:
  assumes "db_ok db" "reserve_stock clk order_ref items key db = (Inl e, db')"
  shows "e = DataError" "db' = db" "\<not> (fits order_ref \<and> fits key)" "items \<noteq> []"
proof -
  from assms show "e = DataError" "db' = db" by (cases rule: reserve_stock_cases; simp)+
  from assms(2) show "items \<noteq> []" by (auto simp: reserve_stock_def)
  show "\<not> (fits order_ref \<and> fits key)"
  proof
    assume "fits order_ref \<and> fits key"
    then have fits: "fits order_ref" "fits key" by simp_all
    from assms(2) have new: "items \<noteq> []" "replayed key db = []"
      by (auto simp: reserve_stock_def Let_def split: if_splits)
    show False
    proof (cases "feasible items db \<and> (key = '''' \<or> distinct (map ri_product items))")
      case True
      with assms(2) reserve_stock_granted [OF assms(1) fits new] show False by simp
    next
      case False
      with assms(1) fits new(2) obtain rs where "reserve_stock clk order_ref items key db =
          (Inr \<lparr>ro_success = False, ro_results = rs\<rparr>, db)"
        by (rule reserve_stock_refused)
      with assms(2) show False by simp
    qed
  qed
qed

text \<open>
  C19: the unary reservation on the wire. On a database whose invariant holds, the handler
  aborts with \<open>INVALID_ARGUMENT\<close> exactly for an empty reference or no items; an exception of
  the database escapes only for a reference or key longer than its column; every other request
  gets a response with at least one result, with a reason exactly on the unreserved results,
  that succeeds exactly when all results are reserved, and (unless it replays) that has one
  result per requested line, in product order. Only a successful response changes the database.
\<close>

theorem ReserveStock_handler_answer:
  assumes "db_ok db" and "ReserveStock_handler clk request db = (r, db')"
  shows "case r of
      Inl (Abort code _) \<Rightarrow> code = INVALID_ARGUMENT \<and> db' = db
        \<and> (rsr_order_ref request = '''' \<or> rsr_items request = [])
    | Inl (Uncaught e) \<Rightarrow> e = DataError \<and> db' = db
        \<and> (128 < length (rsr_order_ref request) \<or> 128 < length (rsr_idempotency_key request))
    | Inl IndexError \<Rightarrow> False
    | Inl GeneratorExit \<Rightarrow> False
    | Inr response \<Rightarrow> rsr_order_ref request \<noteq> '''' \<and> rsp_results response \<noteq> []
        \<and> (rsp_success response \<longleftrightarrow> list_all pio_reserved (rsp_results response))
        \<and> list_all (\<lambda>x. pio_reserved x \<longleftrightarrow> pio_reason x = '''') (rsp_results response)
        \<and> (replayed (rsr_idempotency_key request) db = [] \<longrightarrow>
             map pio_product_id (rsp_results response) =
               sort (map pri_product_id (rsr_items request)))
        \<and> (rsp_success response \<or> db' = db)"
proof (cases "rsr_order_ref request = '''' \<or> rsr_items request = []")
  case True
  with assms(2) show ?thesis by (auto simp: ReserveStock_handler_def split: if_splits)
next
  case False
  let ?item = "\<lambda>item. \<lparr>ri_product = pri_product_id item, ri_quantity = pri_quantity item\<rparr>"
  let ?items = "map ?item (rsr_items request)"
  obtain q db1 where call:
    "reserve_stock clk (rsr_order_ref request) ?items (rsr_idempotency_key request) db = (q, db1)"
    by fastforce
  show ?thesis
  proof (cases q)
    case (Inl e)
    with False assms(2) call reserve_stock_raises [OF assms(1) call [unfolded Inl]]
    show ?thesis by (auto simp: ReserveStock_handler_def fits_def not_le)
  next
    case (Inr out)
    have "?items \<noteq> []" using False by simp
    note out = reserve_stock_outcomes [OF call [unfolded Inr] this]
    have "ro_success out \<or> db1 = db"
      using assms(1) call Inr by (cases rule: reserve_stock_cases) auto
    moreover have "r = Inr \<lparr>rsp_success = ro_success out, rsp_results =
        map (\<lambda>x. \<lparr>pio_product_id = io_product x, pio_reserved = io_reserved x,
          pio_reason = io_reason x\<rparr>) (ro_results out)\<rparr>" "db' = db1"
      using False assms(2) call Inr by (simp_all add: ReserveStock_handler_def)
    moreover have "map ri_product ?items = map pri_product_id (rsr_items request)" by simp
    ultimately show ?thesis using False out by (simp add: list_all_iff comp_def)
  qed
qed

theorem ReserveStock_handler_answer_witness:
  "\<exists>response db'. ReserveStock_handler (\<lambda>i. i)
      \<lparr>rsr_order_ref = ''o1'', rsr_items = [\<lparr>pri_product_id = 3, pri_quantity = 4\<rparr>,
         \<lparr>pri_product_id = 1, pri_quantity = 2\<rparr>], rsr_idempotency_key = ''k1''\<rparr> demo_db =
      (Inr response, db')
    \<and> map pio_product_id (rsp_results response) = [1, 3]"
proof -
  let ?request = "\<lparr>rsr_order_ref = ''o1'', rsr_items = [\<lparr>pri_product_id = 3, pri_quantity = 4\<rparr>,
         \<lparr>pri_product_id = 1, pri_quantity = 2\<rparr>], rsr_idempotency_key = ''k1''\<rparr>"
  obtain r db' where call: "ReserveStock_handler (\<lambda>i. i) ?request demo_db = (r, db')" by fastforce
  from ReserveStock_handler_answer [OF demo_db_ok call] show ?thesis
    using call by (auto simp: demo_fresh split: sum.splits handler_error.splits)
qed

subsection \<open>The streamed lines\<close>

lemma ReserveStockBulk_handler_eq:
  assumes "db_ok db" "\<forall>item \<in> set items. fits (bri_order_ref item)"
  shows "ReserveStockBulk_handler clk items db =
    (let (outs, db') = run_ops (bulk_step clk) items db; n = int (length (filter bio_reserved outs)) in
     (Inr \<lparr>brs_total = int (length outs), brs_reserved_count = n,
           brs_failed_count = int (length outs) - n, brs_results = outs\<rparr>, db'))"
  using bulk_loop_steps [OF assms, of clk "[]" 0]
  by (simp add: ReserveStockBulk_handler_def split_def Let_def)

lemma bulk_step_reply:
  "bio_order_ref (fst (bulk_step clk item db)) = bri_order_ref item"
  "bio_product_id (fst (bulk_step clk item db)) = bri_product_id item"
  "fits (bri_order_ref item) \<Longrightarrow> bio_reserved (fst (bulk_step clk item db)) \<longleftrightarrow>
     bri_order_ref item \<noteq> '''' \<and> line_fits (bulk_line item) db"
  by (auto simp: bulk_step_def)

lemma bulk_replies:
  "map bio_order_ref (fst (run_ops (bulk_step clk) items db)) = map bri_order_ref items"
  "map bio_product_id (fst (run_ops (bulk_step clk) items db)) = map bri_product_id items"
  by (induction items arbitrary: db) (simp_all add: split_def Let_def bulk_step_reply)

lemma run_ops_nth:
  "k < length xs \<Longrightarrow> fst (run_ops step xs s) ! k = fst (step (xs ! k) (snd (run_ops step (take k xs) s)))"
proof (induction xs arbitrary: k s)
  case Nil
  then show ?case by simp
next
  case (Cons x xs)
  then show ?case by (cases k) (simp_all add: split_def Let_def)
qed

text \<open>
  C20: best effort, line by line. On a database whose invariant holds, a stream whose references
  fit their column always gets its summary: the results echo the reference and product of every
  line in order, the counts are those of the reserved and the failed results and add up to the
  number of lines, and a line is reserved exactly when its reference is not empty and it fits
  what the lines before it left, whatever became of those. The invariant is kept, and each
  product's stock, held lines included, is unchanged.
\<close>

theorem ReserveStockBulk_best_effort:
  assumes "db_ok db" "\<forall>item \<in> set items. fits (bri_order_ref item)"
  shows "\<exists>s db'. ReserveStockBulk_handler clk items db = (Inr s, db')
    \<and> brs_total s = int (length items)
    \<and> brs_reserved_count s = int (length (filter bio_reserved (brs_results s)))
    \<and> brs_failed_count s = int (length (filter (\<lambda>x. \<not> bio_reserved x) (brs_results s)))
    \<and> map bio_order_ref (brs_results s) = map bri_order_ref items
    \<and> map bio_product_id (brs_results s) = map bri_product_id items
    \<and> (\<forall>k < length items. bio_reserved (brs_results s ! k) \<longleftrightarrow> bri_order_ref (items ! k) \<noteq> ''''
          \<and> line_fits (bulk_line (items ! k)) (snd (ReserveStockBulk_handler clk (take k items) db)))
    \<and> db_ok db' \<and> (\<forall>pid. stock db' pid = stock db pid)"
proof -
  let ?run = "\<lambda>xs. run_ops (bulk_step clk) xs db"
  have count: "int (length xs) - int (length (filter bio_reserved xs)) =
      int (length (filter (\<lambda>x. \<not> bio_reserved x) xs))" for xs
    by (induction xs) auto
  have before: "snd (ReserveStockBulk_handler clk (take k items) db) = snd (?run (take k items))" for k
  proof -
    have "\<forall>item \<in> set (take k items). fits (bri_order_ref item)"
      using assms(2) by (blast dest: in_set_takeD)
    from ReserveStockBulk_handler_eq [OF assms(1) this] show ?thesis
      by (simp add: split_def Let_def)
  qed
  have "bio_reserved (fst (?run items) ! k) \<longleftrightarrow> bri_order_ref (items ! k) \<noteq> ''''
      \<and> line_fits (bulk_line (items ! k)) (snd (?run (take k items)))" if "k < length items" for k
    using that assms(2) by (simp add: run_ops_nth bulk_step_reply)
  then show ?thesis
    using bulk_stream.inv_run [OF assms(1), of clk items]
      bulk_stream.conserved_run [OF assms(1), of clk items]
    by (simp add: ReserveStockBulk_handler_eq [OF assms] split_def Let_def bulk_replies before count)
qed

theorem ReserveStockBulk_best_effort_witness:
  "\<exists>s. fst (ReserveStockBulk_handler (\<lambda>i. i)
      [\<lparr>bri_order_ref = ''o1'', bri_product_id = 9, bri_quantity = 1\<rparr>,
       \<lparr>bri_order_ref = ''o2'', bri_product_id = 3, bri_quantity = 4\<rparr>] demo_db) = Inr s
    \<and> brs_total s = 2 \<and> map bio_order_ref (brs_results s) = [''o1'', ''o2'']
    \<and> brs_reserved_count s + brs_failed_count s = 2"
proof -
  let ?items = "[\<lparr>bri_order_ref = ''o1'', bri_product_id = 9, bri_quantity = 1\<rparr>,
       \<lparr>bri_order_ref = ''o2'', bri_product_id = 3, bri_quantity = 4\<rparr>]"
  have "\<forall>item \<in> set ?items. fits (bri_order_ref item)" by (simp add: fits_def)
  from ReserveStockBulk_best_effort [OF demo_db_ok this, of "\<lambda>i. i"]
  obtain s db' where "ReserveStockBulk_handler (\<lambda>i. i) ?items demo_db = (Inr s, db')"
    "brs_total s = 2" "map bio_order_ref (brs_results s) = [''o1'', ''o2'']"
    "brs_reserved_count s = int (length (filter bio_reserved (brs_results s)))"
    "brs_failed_count s = int (length (filter (\<lambda>x. \<not> bio_reserved x) (brs_results s)))"
    by (elim exE conjE) (simp del: ReserveStockBulk_handler_def)
  moreover from this(3) have "length (brs_results s) = 2" by (metis length_map length_Cons list.size(3) numeral_2_eq_2)
  ultimately show ?thesis
    using sum_length_filter_compl [of bio_reserved "brs_results s"] by auto
qed

lemma reserve_long_reference:
  assumes "db_ok db" "\<not> fits order_ref" "line_fits item db"
  shows "reserve_stock clk order_ref [item] '''' db = (Inl DataError, db)"
proof -
  from assms(3) obtain p where p: "product_get (ri_product item) db = Some p"
    by (auto simp: line_fits_def known_def)
  have "p_available p \<le> max_int4"
    using stock_bound [OF assms(1), of "ri_product item"] held_nonneg [OF assms(1), of "ri_product item"]
      p by (simp add: stock_def)
  then show ?thesis
    using assms p product_get_SomeD(2) [OF p]
    by (simp add: reserve_stock_def replayed_def reserve_line_def line_fits_def update_available_def
        reservation_create_def Let_def)
qed

lemma bulk_loop_append:
  "bulk_loop clk (xs @ ys) results n db =
     (case bulk_loop clk xs results n db of
        (Inl e, db') \<Rightarrow> (Inl e, db')
      | (Inr (results', n'), db') \<Rightarrow> bulk_loop clk ys results' n' db')"
  by (induction xs arbitrary: results n db) (auto split: sum.splits list.splits prod.splits)

text \<open>
  One line can still end the stream. A line whose reference is longer than its column, whose
  product exists and has the quantity left, raises in the database: the call fails without a
  summary, what the lines before it reserved stays reserved, and the lines after it are never
  looked at.
\<close>

theorem ReserveStockBulk_long_reference:
  assumes "db_ok db" "\<forall>item \<in> set before. fits (bri_order_ref item)"
    and "ReserveStockBulk_handler clk before db = (Inr s, db1)"
    and "128 < length (bri_order_ref item)" "line_fits (bulk_line item) db1"
  shows "ReserveStockBulk_handler clk (before @ item # after) db = (Inl (Uncaught DataError), db1)"
proof -
  have run: "bulk_loop clk before [] 0 db = (Inr (fst (run_ops (bulk_step clk) before db),
      int (length (filter bio_reserved (fst (run_ops (bulk_step clk) before db))))), db1)"
    using assms(3) bulk_loop_steps [OF assms(1,2), of clk "[]" 0]
    by (simp add: ReserveStockBulk_handler_def split_def Let_def)
  have "db1 = snd (run_ops (bulk_step clk) before db)"
    using assms(3) by (simp add: ReserveStockBulk_handler_eq [OF assms(1,2)] split_def Let_def)
  then have "db_ok db1" using bulk_stream.inv_run [OF assms(1)] by simp
  then have "reserve_stock clk (bri_order_ref item) [bulk_line item] '''' db1 = (Inl DataError, db1)"
    using assms(4,5) by (intro reserve_long_reference) (simp_all add: fits_def)
  moreover have "bri_order_ref item \<noteq> ''''" using assms(4) by auto
  ultimately have "bulk_loop clk (before @ item # after) [] 0 db = (Inl (Uncaught DataError), db1)"
    by (simp add: bulk_loop_append run)
  then show ?thesis by (simp add: ReserveStockBulk_handler_def)
qed

theorem ReserveStockBulk_long_reference_witness:
  "ReserveStockBulk_handler (\<lambda>i. i)
     [\<lparr>bri_order_ref = replicate 129 CHR ''x'', bri_product_id = 3, bri_quantity = 4\<rparr>,
      \<lparr>bri_order_ref = ''o2'', bri_product_id = 1, bri_quantity = 1\<rparr>] demo_db =
   (Inl (Uncaught DataError), demo_db)"
  using ReserveStockBulk_long_reference [OF demo_db_ok, of "[]" "\<lambda>i. i" _ demo_db
      "\<lparr>bri_order_ref = replicate 129 CHR ''x'', bri_product_id = 3, bri_quantity = 4\<rparr>"
      "[\<lparr>bri_order_ref = ''o2'', bri_product_id = 1, bri_quantity = 1\<rparr>]"]
  by (simp add: ReserveStockBulk_handler_def line_fits_def demo_values)

subsection \<open>The low-stock stream\<close>

lemma yield_rows_take:
  "yield_rows act k rows = map product_stock_of (take (length (yield_rows act k rows)) rows)
   \<and> (\<forall>j < length (yield_rows act k rows). act (k + j))
   \<and> (length (yield_rows act k rows) < length rows \<longrightarrow> \<not> act (k + length (yield_rows act k rows)))"
proof (induction rows arbitrary: k)
  case Nil
  then show ?case by simp
next
  case (Cons row rows)
  show ?case
    using Cons [of "Suc k"] by (auto simp: less_Suc_eq_0_disj)
qed

text \<open>
  The low-stock stream. A negative threshold is refused before anything is read. Otherwise
  the handler yields, in the order of the scan and without gaps, one message per product at or
  below the threshold, with the product's fields; it stops early only when a call of
  \<^verbatim>\<open>is_active\<close> answered no, and then with the very next row.
\<close>

theorem WatchLowStock_handler_prefix:
  "let rows = stream_low_stock ck (lsq_threshold request) (lsq_sku_prefix request) db in
    case WatchLowStock_handler ck act request db of
      (messages, Inl e) \<Rightarrow> messages = [] \<and> lsq_threshold request < 0
        \<and> e = Abort INVALID_ARGUMENT ''threshold must be >= 0''
    | (messages, Inr _) \<Rightarrow> 0 \<le> lsq_threshold request
        \<and> messages = map product_stock_of (take (length messages) rows)
        \<and> list_all act [0..<length messages]
        \<and> (messages = map product_stock_of rows \<or> \<not> act (length messages))"
proof (cases "lsq_threshold request < 0")
  case True
  then show ?thesis by (simp add: WatchLowStock_handler_def)
next
  case False
  let ?rows = "stream_low_stock ck (lsq_threshold request) (lsq_sku_prefix request) db"
  let ?ms = "yield_rows act 0 ?rows"
  note facts = yield_rows_take [of act 0 ?rows]
  have "?ms = map product_stock_of ?rows" if "act (length ?ms)"
  proof -
    have "length ?rows \<le> length ?ms" using facts that by auto
    with facts show ?thesis by (metis take_all)
  qed
  with False facts show ?thesis by (auto simp: WatchLowStock_handler_def Let_def list_all_iff)
qed

theorem WatchLowStock_handler_prefix_witness:
  "\<exists>messages. WatchLowStock_handler (length :: string \<Rightarrow> nat) (\<lambda>k. k < 1)
      \<lparr>lsq_threshold = 50, lsq_sku_prefix = ''SKU-G''\<rparr> demo_db = (messages, Inr ())
    \<and> messages = map product_stock_of (take (length messages)
        (stream_low_stock (length :: string \<Rightarrow> nat) 50 ''SKU-G'' demo_db))"
  using WatchLowStock_handler_prefix [of "length :: string \<Rightarrow> nat"
      "\<lparr>lsq_threshold = 50, lsq_sku_prefix = ''SKU-G''\<rparr>" demo_db "\<lambda>k. k < 1"]
  by (auto simp: Let_def WatchLowStock_handler_def)

end
