(* ===== verification/ServerInterceptors.thy ===== *)
theory ServerInterceptors
  imports Servicer
begin

text \<open>
  \<^verbatim>\<open>grpc_server/interceptors.py\<close> and the order in which \<^verbatim>\<open>grpc_server/server.py\<close> installs
  them: token enforcement, and one log line per RPC, around the handler that the generated
  registration resolves for a method. The resolution (\<^verbatim>\<open>continuation\<close>) is gRPC's and is a
  parameter. Peers and latencies, which the log lines also print, are left out.
\<close>

section \<open>Handlers, calls and the log\<close>

text \<open>
  The state an RPC runs in: the application's (a database, say) and the log. A call that
  answers with one message returns it or raises; a streaming one yields messages and then
  ends or raises. \<^verbatim>\<open>grpc.RpcMethodHandler\<close> has one field per kind of RPC, of which one is set.
\<close>

datatype log_entry =
  Rejecting string
| Served string "status_code option" "nat option"

record 's server =
  app :: 's
  logged :: "log_entry list"

record ('q, 'm, 's, 'd) rpc_method_handler =
  request_deserializer :: "'d option"
  response_serializer :: "'d option"
  unary_unary :: "('q \<Rightarrow> 's server \<Rightarrow> (handler_error + 'm) \<times> 's server) option"
  unary_stream :: "('q \<Rightarrow> 's server \<Rightarrow> ('m list \<times> (handler_error + unit)) \<times> 's server) option"
  stream_unary :: "('q \<Rightarrow> 's server \<Rightarrow> (handler_error + 'm) \<times> 's server) option"
  stream_stream :: "('q \<Rightarrow> 's server \<Rightarrow> ('m list \<times> (handler_error + unit)) \<times> 's server) option"

record call_details =
  cd_method :: string
  cd_metadata :: "(string \<times> string) list option"

datatype resolve_error = AttributeError

type_synonym ('q, 'm, 's, 'd) resolver =
  "call_details \<Rightarrow> 's server \<Rightarrow>
     (resolve_error + ('q, 'm, 's, 'd) rpc_method_handler option) \<times> 's server"

abbreviation no_handler :: "'d option \<Rightarrow> 'd option \<Rightarrow> ('q, 'm, 's, 'd) rpc_method_handler" where
  "no_handler d z \<equiv> \<lparr>request_deserializer = d, response_serializer = z, unary_unary = None,
     unary_stream = None, stream_unary = None, stream_stream = None\<rparr>"

definition log_line :: "log_entry \<Rightarrow> 's server \<Rightarrow> 's server" where
  "log_line e s = s\<lparr>logged := logged s @ [e]\<rparr>"

section \<open>The auth interceptor\<close>

definition AUTH_METADATA_KEY :: string where
  "AUTH_METADATA_KEY = ''x-auth-token''"

definition HEALTH_METHOD_PREFIX :: string where
  "HEALTH_METHOD_PREFIX = ''/grpc.health.v1.Health/''"

definition abort_handler ::
  "('q, 'm, 's, 'd) rpc_method_handler \<Rightarrow> status_code \<Rightarrow> string
     \<Rightarrow> ('q, 'm, 's, 'd) rpc_method_handler" where
  "abort_handler handler code details =
     (let terminate = (\<lambda>request s. (Inl (Abort code details), s));
          terminate_stream = (\<lambda>request s. (([], Inl (Abort code details)), s)) in
      if stream_stream handler \<noteq> None then
        (no_handler None None)\<lparr>stream_stream := Some terminate_stream\<rparr>
      else if stream_unary handler \<noteq> None then
        (no_handler None None)\<lparr>stream_unary := Some terminate\<rparr>
      else if unary_stream handler \<noteq> None then
        (no_handler None None)\<lparr>unary_stream := Some terminate_stream\<rparr>
      else (no_handler None None)\<lparr>unary_unary := Some terminate\<rparr>)"

text \<open>\<^verbatim>\<open>dict(invocation_metadata or [])\<close>: the last value of a repeated key wins.\<close>

definition metadata_dict :: "(string \<times> string) list option \<Rightarrow> string \<Rightarrow> string option" where
  "metadata_dict md = map_of (rev (case md of None \<Rightarrow> [] | Some xs \<Rightarrow> xs))"

definition AuthInterceptor ::
  "string \<Rightarrow> ('q, 'm, 's, 'd) resolver \<Rightarrow> ('q, 'm, 's, 'd) resolver" where
  "AuthInterceptor expected continuation details s =
     (if expected = '''' then continuation details s
      else if prefix HEALTH_METHOD_PREFIX (cd_method details) then continuation details s
      else
        let presented = metadata_dict (cd_metadata details) AUTH_METADATA_KEY in
        case continuation details s of
          (Inl e, s1) \<Rightarrow> (Inl e, s1)
        | (Inr handler, s1) \<Rightarrow>
            if presented \<noteq> Some expected then
              (case handler of
                 None \<Rightarrow> (Inl AttributeError, log_line (Rejecting (cd_method details)) s1)
               | Some h \<Rightarrow> (Inr (Some (abort_handler h UNAUTHENTICATED ''invalid auth token'')),
                            log_line (Rejecting (cd_method details)) s1))
            else (Inr handler, s1))"

section \<open>The logging interceptor\<close>

text \<open>\<^verbatim>\<open>context.code()\<close> in the \<^verbatim>\<open>except\<close> branch: the status of the abort, if there was one.\<close>

fun context_code :: "handler_error \<Rightarrow> status_code option" where
  "context_code (Abort code _) = Some code"
| "context_code _ = None"

text \<open>\<^verbatim>\<open>except Exception\<close>, which does not catch the closing of a generator.\<close>

definition caught :: "handler_error \<Rightarrow> bool" where
  "caught e \<longleftrightarrow> e \<noteq> GeneratorExit"

definition timed ::
  "string \<Rightarrow> ('q \<Rightarrow> 's server \<Rightarrow> (handler_error + 'm) \<times> 's server)
     \<Rightarrow> 'q \<Rightarrow> 's server \<Rightarrow> (handler_error + 'm) \<times> 's server" where
  "timed method inner request s =
     (case inner request s of
        (Inl e, s1) \<Rightarrow>
          (Inl e, if caught e then log_line (Served method (context_code e) None) s1 else s1)
      | (Inr response, s1) \<Rightarrow> (Inr response, log_line (Served method (Some OK) None) s1))"

definition timed_stream ::
  "string \<Rightarrow> ('q \<Rightarrow> 's server \<Rightarrow> ('m list \<times> (handler_error + unit)) \<times> 's server)
     \<Rightarrow> 'q \<Rightarrow> 's server \<Rightarrow> ('m list \<times> (handler_error + unit)) \<times> 's server" where
  "timed_stream method inner request s =
     (case inner request s of
        ((responses, Inl e), s1) \<Rightarrow>
          ((responses, Inl e),
           if caught e then log_line (Served method (context_code e) (Some (length responses))) s1 else s1)
      | ((responses, Inr u), s1) \<Rightarrow>
          ((responses, Inr u), log_line (Served method (Some OK) (Some (length responses))) s1))"

definition wrap_handler ::
  "string \<Rightarrow> ('q, 'm, 's, 'd) rpc_method_handler \<Rightarrow> ('q, 'm, 's, 'd) rpc_method_handler" where
  "wrap_handler method h =
     (let empty = no_handler (request_deserializer h) (response_serializer h) in
      case unary_unary h of Some f \<Rightarrow> empty\<lparr>unary_unary := Some (timed method f)\<rparr>
      | None \<Rightarrow> (case stream_unary h of Some f \<Rightarrow> empty\<lparr>stream_unary := Some (timed method f)\<rparr>
      | None \<Rightarrow> (case unary_stream h of Some f \<Rightarrow> empty\<lparr>unary_stream := Some (timed_stream method f)\<rparr>
      | None \<Rightarrow> (case stream_stream h of
                   Some f \<Rightarrow> empty\<lparr>stream_stream := Some (timed_stream method f)\<rparr>
                 | None \<Rightarrow> h))))"

definition LoggingInterceptor :: "('q, 'm, 's, 'd) resolver \<Rightarrow> ('q, 'm, 's, 'd) resolver" where
  "LoggingInterceptor continuation details s =
     (case continuation details s of
        (Inr (Some h), s1) \<Rightarrow> (Inr (Some (wrap_handler (cd_method details) h)), s1)
      | (r, s1) \<Rightarrow> (r, s1))"

text \<open>\<^verbatim>\<open>interceptors=[LoggingInterceptor(), AuthInterceptor()]\<close>, outermost first.\<close>

definition server_interceptors ::
  "string \<Rightarrow> ('q, 'm, 's, 'd) resolver \<Rightarrow> ('q, 'm, 's, 'd) resolver" where
  "server_interceptors token continuation = LoggingInterceptor (AuthInterceptor token continuation)"

section \<open>What a caller observes of a handler\<close>

text \<open>The handlers that gRPC registers have exactly one of the four kinds.\<close>

datatype rpc_kind = UnaryUnary | UnaryStream | StreamUnary | StreamStream

definition kinds :: "('q, 'm, 's, 'd) rpc_method_handler \<Rightarrow> rpc_kind list" where
  "kinds h = (if unary_unary h \<noteq> None then [UnaryUnary] else [])
     @ (if unary_stream h \<noteq> None then [UnaryStream] else [])
     @ (if stream_unary h \<noteq> None then [StreamUnary] else [])
     @ (if stream_stream h \<noteq> None then [StreamStream] else [])"

definition single_reply :: "(handler_error + 'm) \<times> 's \<Rightarrow> ('m list \<times> (handler_error + unit)) \<times> 's" where
  "single_reply = (\<lambda>(r, s). (case r of Inl e \<Rightarrow> ([], Inl e) | Inr m \<Rightarrow> ([m], Inr ()), s))"

definition run_handler ::
  "('q, 'm, 's, 'd) rpc_method_handler \<Rightarrow> 'q \<Rightarrow> 's server
     \<Rightarrow> ('m list \<times> (handler_error + unit)) \<times> 's server" where
  "run_handler h request s =
     (case unary_unary h of Some f \<Rightarrow> single_reply (f request s)
      | None \<Rightarrow> (case stream_unary h of Some f \<Rightarrow> single_reply (f request s)
      | None \<Rightarrow> (case unary_stream h of Some f \<Rightarrow> f request s
      | None \<Rightarrow> (case stream_stream h of Some f \<Rightarrow> f request s
                 | None \<Rightarrow> (([], Inl (Abort UNIMPLEMENTED '''')), s)))))"

definition status_of :: "handler_error + unit \<Rightarrow> status_code option" where
  "status_of = case_sum context_code (\<lambda>_. Some OK)"

definition message_count :: "rpc_kind list \<Rightarrow> 'm list \<Rightarrow> nat option" where
  "message_count ks ms =
     (if ks = [UnaryStream] \<or> ks = [StreamStream] then Some (length ms) else None)"

text \<open>The line that a call leaves in the log, and that a stream dropped before its end does not.\<close>

definition log_ending :: "string \<Rightarrow> rpc_kind list \<Rightarrow> 'm list \<Rightarrow> handler_error + unit \<Rightarrow> 's server \<Rightarrow> 's server" where
  "log_ending method ks ms e s =
     (if e = Inl GeneratorExit then s else log_line (Served method (status_of e) (message_count ks ms)) s)"

definition authorised :: "string \<Rightarrow> call_details \<Rightarrow> bool" where
  "authorised token details \<longleftrightarrow> token = '''' \<or> prefix HEALTH_METHOD_PREFIX (cd_method details)
     \<or> metadata_dict (cd_metadata details) AUTH_METADATA_KEY = Some token"

lemma kinds_singleton:
  assumes "kinds h = [k]"
  obtains (uu) f where "k = UnaryUnary" "unary_unary h = Some f" "unary_stream h = None"
      "stream_unary h = None" "stream_stream h = None"
  | (us) f where "k = UnaryStream" "unary_stream h = Some f" "unary_unary h = None"
      "stream_unary h = None" "stream_stream h = None"
  | (su) f where "k = StreamUnary" "stream_unary h = Some f" "unary_unary h = None"
      "unary_stream h = None" "stream_stream h = None"
  | (ss) f where "k = StreamStream" "stream_stream h = Some f" "unary_unary h = None"
      "unary_stream h = None" "stream_unary h = None"
  using assms by (auto simp: kinds_def split: if_splits)

lemma wrap_handler_run:
  assumes "kinds h = [k]"
  shows "kinds (wrap_handler method h) = [k]"
    and "run_handler (wrap_handler method h) request s =
      (case run_handler h request s of ((ms, e), s1) \<Rightarrow>
         ((ms, e), log_ending method [k] ms e s1))"
proof -
  from assms show "kinds (wrap_handler method h) = [k]"
    by (cases rule: kinds_singleton) (simp_all add: wrap_handler_def kinds_def)
  from assms show "run_handler (wrap_handler method h) request s =
      (case run_handler h request s of ((ms, e), s1) \<Rightarrow>
         ((ms, e), log_ending method [k] ms e s1))"
    by (cases rule: kinds_singleton)
      (auto simp: wrap_handler_def run_handler_def timed_def timed_stream_def single_reply_def
        status_of_def message_count_def log_ending_def caught_def split: sum.splits prod.splits)
qed

lemma abort_handler_run:
  assumes "kinds h = [k]"
  shows "kinds (abort_handler h code details) = [k]"
    and "run_handler (abort_handler h code details) request s = (([], Inl (Abort code details)), s)"
  using assms
  by (cases rule: kinds_singleton;
      simp add: abort_handler_def kinds_def run_handler_def single_reply_def Let_def)+

lemma server_interceptors_authorised:
  assumes "continuation details s = (Inr (Some h), s1)" "authorised token details"
  shows "server_interceptors token continuation details s =
    (Inr (Some (wrap_handler (cd_method details) h)), s1)"
  using assms
  by (auto simp: server_interceptors_def LoggingInterceptor_def AuthInterceptor_def authorised_def)

lemma server_interceptors_rejected:
  assumes "continuation details s = (Inr (Some h), s1)" "\<not> authorised token details"
  shows "server_interceptors token continuation details s =
    (Inr (Some (wrap_handler (cd_method details)
       (abort_handler h UNAUTHENTICATED ''invalid auth token''))),
     log_line (Rejecting (cd_method details)) s1)"
  using assms
  by (simp add: server_interceptors_def LoggingInterceptor_def AuthInterceptor_def authorised_def)

section \<open>Properties\<close>

text \<open>
  C21: the interceptor chain. For a method whose handler the registration resolves, the chain
  gives a handler of the same kind. If the call is authorised (no token configured, a health
  probe, or the last auth header carries the token), that handler answers every request exactly
  as the resolved one; otherwise it runs nothing, leaves the application state alone and aborts
  with \<open>UNAUTHENTICATED\<close>. Either way each call adds exactly one line to the log when it ends, with
  the status of its ending and, for a response stream, the number of messages; only a stream that
  gRPC drops before its end leaves none. A rejected call has its warning in the log too.
\<close>

theorem server_interceptors_serve:
  assumes "continuation details s = (Inr (Some h), s1)" "kinds h = [k]"
  shows "\<exists>h' s2. server_interceptors token continuation details s = (Inr (Some h'), s2)
    \<and> kinds h' = [k]
    \<and> s2 = (if authorised token details then s1 else log_line (Rejecting (cd_method details)) s1)
    \<and> (\<forall>request t. run_handler h' request t =
        (case (if authorised token details then run_handler h request t
               else (([], Inl (Abort UNAUTHENTICATED ''invalid auth token'')), t)) of
           ((ms, e), t1) \<Rightarrow> ((ms, e), if e = Inl GeneratorExit then t1 else log_line
             (Served (cd_method details) (status_of e) (message_count [k] ms)) t1)))"
proof (cases "authorised token details")
  case True
  with assms show ?thesis
    by (simp add: server_interceptors_authorised wrap_handler_run [OF assms(2)] log_ending_def)
next
  case False
  with assms show ?thesis
    by (simp add: server_interceptors_rejected wrap_handler_run [OF abort_handler_run(1) [OF assms(2)]]
        abort_handler_run(2) [OF assms(2)] log_ending_def)
qed

definition demo_handler :: "(nat, nat, nat, nat) rpc_method_handler" where
  "demo_handler = (no_handler None None)\<lparr>unary_unary := Some (\<lambda>q s. (Inr (q + app s), s\<lparr>app := app s + 1\<rparr>))\<rparr>"

theorem server_interceptors_serve_witness:
  "\<exists>h'. server_interceptors ''secret'' (\<lambda>_ s. (Inr (Some demo_handler), s))
      \<lparr>cd_method = ''/svc/M'', cd_metadata = Some [(''x-auth-token'', ''wrong'')]\<rparr>
      \<lparr>app = 5, logged = []\<rparr> = (Inr (Some h'), \<lparr>app = 5, logged = [Rejecting ''/svc/M'']\<rparr>)
    \<and> run_handler h' 7 \<lparr>app = 5, logged = []\<rparr> =
        (([], Inl (Abort UNAUTHENTICATED ''invalid auth token'')),
         \<lparr>app = 5, logged = [Served ''/svc/M'' (Some UNAUTHENTICATED) None]\<rparr>)"
proof -
  let ?d = "\<lparr>cd_method = ''/svc/M'', cd_metadata = Some [(''x-auth-token'', ''wrong'')]\<rparr>"
  let ?s = "\<lparr>app = 5, logged = []\<rparr>"
  have "\<not> authorised ''secret'' ?d"
    by (simp add: authorised_def metadata_dict_def AUTH_METADATA_KEY_def HEALTH_METHOD_PREFIX_def)
  moreover have "kinds demo_handler = [UnaryUnary]" by (simp add: demo_handler_def kinds_def)
  ultimately show ?thesis
    using server_interceptors_serve [where continuation = "\<lambda>_ s. (Inr (Some demo_handler), s)"
        and details = ?d and s = ?s and token = "''secret''"]
    by (fastforce simp: log_line_def status_of_def message_count_def)
qed

text \<open>
  A method that nothing is registered for. An authorised call passes the missing handler
  through to gRPC, which answers it itself, but a call whose token is rejected runs into an
  attribute error while the aborting handler is built, and so does not get the
  \<open>UNAUTHENTICATED\<close> status.
\<close>

theorem server_interceptors_unregistered:
  assumes "continuation details s = (Inr None, s1)"
  shows "fst (server_interceptors token continuation details s) =
    (if authorised token details then Inr None else Inl AttributeError)"
  using assms
  by (auto simp: server_interceptors_def LoggingInterceptor_def AuthInterceptor_def authorised_def)

theorem server_interceptors_unregistered_witness:
  "fst (server_interceptors ''secret'' (\<lambda>_ s. (Inr None, s) :: (resolve_error + (nat, nat, nat, nat) rpc_method_handler option) \<times> nat server)
      \<lparr>cd_method = ''/svc/Nope'', cd_metadata = None\<rparr> \<lparr>app = 5, logged = []\<rparr>) = Inl AttributeError"
  using server_interceptors_unregistered [where
      continuation = "\<lambda>_ s. (Inr None, s) :: (resolve_error + (nat, nat, nat, nat) rpc_method_handler option) \<times> nat server"
      and details = "\<lparr>cd_method = ''/svc/Nope'', cd_metadata = None\<rparr>"
      and s = "\<lparr>app = 5, logged = []\<rparr>" and token = "''secret''"]
  by (simp add: authorised_def metadata_dict_def AUTH_METADATA_KEY_def HEALTH_METHOD_PREFIX_def)

end
