(* ===== verification/GrpcClient.thy ===== *)
theory GrpcClient
  imports ServerInterceptors
begin

text \<open>
  The order service's side of the wire: \<^verbatim>\<open>grpc_client/client.py\<close> (request building, the
  retry policy), \<^verbatim>\<open>grpc_client/interceptors.py\<close> (the auth header) and
  \<^verbatim>\<open>grpc_client/errors.py\<close>, and the path of a call through the server's interceptors to
  the servicer. The network decides how far an attempt gets: its decisions are a list, consumed
  one per attempt. The streaming reads are registered like the other methods, as a parameter.
\<close>

section \<open>The auth header\<close>

text \<open>\<^verbatim>\<open>_AuthBase._with_auth\<close>, which every one of the four interceptors applies.\<close>

definition with_auth :: "string \<Rightarrow> call_details \<Rightarrow> call_details" where
  "with_auth token details =
     details\<lparr>cd_metadata :=
       Some ((case cd_metadata details of None \<Rightarrow> [] | Some md \<Rightarrow> md) @ [(AUTH_METADATA_KEY, token)])\<rparr>"

definition auth_client_interceptors :: "rpc_kind list" where
  "auth_client_interceptors = [UnaryUnary, StreamUnary, UnaryStream, StreamStream]"

text \<open>A channel runs, for a call of a kind, the interceptors registered for that kind.\<close>

definition intercept_call :: "string \<Rightarrow> rpc_kind \<Rightarrow> call_details \<Rightarrow> call_details" where
  "intercept_call token kind details =
     fold (\<lambda>k d. if k = kind then with_auth token d else d) auth_client_interceptors details"

section \<open>Statuses\<close>

fun status_name :: "status_code \<Rightarrow> string" where
  "status_name OK = ''OK''"
| "status_name CANCELLED = ''CANCELLED''"
| "status_name UNKNOWN = ''UNKNOWN''"
| "status_name INVALID_ARGUMENT = ''INVALID_ARGUMENT''"
| "status_name DEADLINE_EXCEEDED = ''DEADLINE_EXCEEDED''"
| "status_name NOT_FOUND = ''NOT_FOUND''"
| "status_name ALREADY_EXISTS = ''ALREADY_EXISTS''"
| "status_name PERMISSION_DENIED = ''PERMISSION_DENIED''"
| "status_name RESOURCE_EXHAUSTED = ''RESOURCE_EXHAUSTED''"
| "status_name FAILED_PRECONDITION = ''FAILED_PRECONDITION''"
| "status_name ABORTED = ''ABORTED''"
| "status_name OUT_OF_RANGE = ''OUT_OF_RANGE''"
| "status_name UNIMPLEMENTED = ''UNIMPLEMENTED''"
| "status_name INTERNAL = ''INTERNAL''"
| "status_name UNAVAILABLE = ''UNAVAILABLE''"
| "status_name DATA_LOSS = ''DATA_LOSS''"
| "status_name UNAUTHENTICATED = ''UNAUTHENTICATED''"

definition grpc_to_http_status :: "status_code \<Rightarrow> int" where
  "grpc_to_http_status code =
     (case [UNAVAILABLE \<mapsto> 503, DEADLINE_EXCEEDED \<mapsto> 504, UNAUTHENTICATED \<mapsto> 502] code of
        Some s \<Rightarrow> s | None \<Rightarrow> 502)"

text \<open>The status the caller sees of a handler that raised; gRPC reports an unhandled exception
  as \<open>UNKNOWN\<close>, and drops a generator of a call that was cancelled.\<close>

fun wire_status :: "handler_error \<Rightarrow> status_code" where
  "wire_status (Abort code _) = code"
| "wire_status (Uncaught _) = UNKNOWN"
| "wire_status IndexError = UNKNOWN"
| "wire_status GeneratorExit = CANCELLED"

section \<open>The registered service\<close>

datatype rpc_request =
  ReserveRq reserve_stock_request
| ReleaseRq release_stock_request
| BulkRq "bulk_reserve_item list"

datatype rpc_response =
  ReserveRp reserve_stock_response
| ReleaseRp release_stock_response
| BulkRp bulk_reserve_summary

type_synonym inventory_handler = "(rpc_request, rpc_response, inventory_db, unit) rpc_method_handler"

definition SERVICE :: string where
  "SERVICE = ''orderflow.inventory.v1.InventoryService''"

definition method_path :: "string \<Rightarrow> string" where
  "method_path name = ''/'' @ SERVICE @ ''/'' @ name"

text \<open>Lifts a handler on the database to one on the server's state.\<close>

definition on_app ::
  "('r \<Rightarrow> rpc_response) \<Rightarrow> (inventory_db \<Rightarrow> (handler_error + 'r) \<times> inventory_db)
     \<Rightarrow> inventory_db server \<Rightarrow> (handler_error + rpc_response) \<times> inventory_db server" where
  "on_app wrap f s =
     (case f (app s) of (r, db) \<Rightarrow> (map_sum id wrap r, s\<lparr>app := db\<rparr>))"

definition registered ::
  "(int \<Rightarrow> int) \<Rightarrow> (string \<Rightarrow> inventory_handler option) \<Rightarrow> string \<Rightarrow> inventory_handler option" where
  "registered clk others method =
     (if method = method_path ''ReserveStock'' then
        Some ((no_handler None None)\<lparr>unary_unary := Some (\<lambda>q. case q of
          ReserveRq r \<Rightarrow> on_app ReserveRp (ReserveStock_handler clk r)
        | _ \<Rightarrow> (\<lambda>s. (Inl (Abort INTERNAL ''''), s)))\<rparr>)
      else if method = method_path ''ReleaseStock'' then
        Some ((no_handler None None)\<lparr>unary_unary := Some (\<lambda>q. case q of
          ReleaseRq r \<Rightarrow> on_app ReleaseRp (ReleaseStock_handler r)
        | _ \<Rightarrow> (\<lambda>s. (Inl (Abort INTERNAL ''''), s)))\<rparr>)
      else if method = method_path ''ReserveStockBulk'' then
        Some ((no_handler None None)\<lparr>stream_unary := Some (\<lambda>q. case q of
          BulkRq items \<Rightarrow> on_app BulkRp (ReserveStockBulk_handler clk items)
        | _ \<Rightarrow> (\<lambda>s. (Inl (Abort INTERNAL ''''), s)))\<rparr>)
      else others method)"

section \<open>One attempt and its retries\<close>

text \<open>
  The two services as they are deployed: the clock that stamps reservations, the handlers of
  the remaining methods, and the token that each side is configured with.
\<close>

record deployment =
  dp_clk :: "int \<Rightarrow> int"
  dp_others :: "string \<Rightarrow> inventory_handler option"
  dp_server_token :: string
  dp_client_token :: string

definition server_call ::
  "deployment \<Rightarrow> rpc_kind \<Rightarrow> string \<Rightarrow> rpc_request \<Rightarrow> inventory_db server
     \<Rightarrow> (status_code + rpc_response list) \<times> inventory_db server" where
  "server_call d kind name request s =
     (let details = intercept_call (dp_client_token d) kind
                      \<lparr>cd_method = method_path name, cd_metadata = None\<rparr> in
      case server_interceptors (dp_server_token d)
             (\<lambda>cd s. (Inr (registered (dp_clk d) (dp_others d) (cd_method cd)), s)) details s of
        (Inl AttributeError, s1) \<Rightarrow> (Inl UNKNOWN, s1)
      | (Inr None, s1) \<Rightarrow> (Inl UNIMPLEMENTED, s1)
      | (Inr (Some h), s1) \<Rightarrow>
          (case run_handler h request s1 of
             ((ms, Inl e), s2) \<Rightarrow> (Inl (wire_status e), s2)
           | ((ms, Inr _), s2) \<Rightarrow> (Inr ms, s2)))"

text \<open>
  \<open>Lost n code\<close>: the server handles the first \<open>n\<close> request messages of the attempt (the whole
  request, when there is one and \<open>0 < n\<close>), but the caller sees the status \<open>code\<close>.
\<close>

datatype rpc_fate = Delivered | Lost nat status_code

record remote =
  rm_server :: "inventory_db server"
  rm_fates :: "rpc_fate list"

fun first_messages :: "nat \<Rightarrow> rpc_request \<Rightarrow> rpc_request" where
  "first_messages n (BulkRq items) = BulkRq (take n items)"
| "first_messages n q = q"

definition attempt ::
  "deployment \<Rightarrow> rpc_kind \<Rightarrow> string \<Rightarrow> rpc_request \<Rightarrow> remote
     \<Rightarrow> (status_code + rpc_response list) \<times> remote" where
  "attempt d kind name request w =
     (case (case rm_fates w of [] \<Rightarrow> Delivered | f # _ \<Rightarrow> f) of
        Delivered \<Rightarrow>
          (case server_call d kind name request (rm_server w) of
             (r, s) \<Rightarrow> (r, \<lparr>rm_server = s, rm_fates = tl (rm_fates w)\<rparr>))
      | Lost 0 code \<Rightarrow> (Inl code, w\<lparr>rm_fates := tl (rm_fates w)\<rparr>)
      | Lost (Suc n) code \<Rightarrow>
          (Inl code,
           \<lparr>rm_server = snd (server_call d kind name (first_messages (Suc n) request) (rm_server w)),
            rm_fates = tl (rm_fates w)\<rparr>))"

text \<open>The \<^verbatim>\<open>methodConfig\<close> of \<^verbatim>\<open>_SERVICE_CONFIG\<close>.\<close>

record retry_policy =
  maxAttempts :: nat
  retryableStatusCodes :: "status_code list"

definition SERVICE_CONFIG :: "string \<Rightarrow> retry_policy option" where
  "SERVICE_CONFIG name =
     (if name \<in> {''ReserveStock'', ''ReleaseStock''} then
        Some \<lparr>maxAttempts = 4, retryableStatusCodes = [UNAVAILABLE]\<rparr>
      else None)"

text \<open>\<open>retries n\<close> makes one attempt and, while it fails with a retryable status, \<open>n\<close> more.\<close>

primrec retries ::
  "status_code list \<Rightarrow> ('w \<Rightarrow> (status_code + 'r) \<times> 'w) \<Rightarrow> nat \<Rightarrow> 'w \<Rightarrow> (status_code + 'r) \<times> 'w" where
  "retries codes call 0 w = call w"
| "retries codes call (Suc n) w =
     (case call w of
        (Inl code, w') \<Rightarrow> if code \<in> set codes then retries codes call n w' else (Inl code, w')
      | (Inr r, w') \<Rightarrow> (Inr r, w'))"

definition stub_call ::
  "deployment \<Rightarrow> rpc_kind \<Rightarrow> string \<Rightarrow> rpc_request \<Rightarrow> remote
     \<Rightarrow> (status_code + rpc_response list) \<times> remote" where
  "stub_call d kind name request w =
     (case SERVICE_CONFIG name of
        None \<Rightarrow> attempt d kind name request w
      | Some p \<Rightarrow>
          retries (retryableStatusCodes p) (attempt d kind name request) (maxAttempts p - 1) w)"

section \<open>The client\<close>

text \<open>
  What a client call can raise: \<^verbatim>\<open>grpc.aio.AioRpcError\<close>; the \<^verbatim>\<open>ValueError\<close> of a message
  field out of its range; \<^verbatim>\<open>asyncio.CancelledError\<close>, into which grpc.aio turns an exception
  of a request generator by cancelling the call.
\<close>

datatype client_error = AioRpcError status_code | ValueError | CancelledError

definition in_range :: "int \<times> int \<Rightarrow> bool" where
  "in_range = (\<lambda>(pid, qty). in_int64 pid \<and> in_int32 qty)"

definition client_reserve_stock ::
  "deployment \<Rightarrow> string \<Rightarrow> (int \<times> int) list \<Rightarrow> string \<Rightarrow> remote
     \<Rightarrow> (client_error + reserve_stock_response) \<times> remote" where
  "client_reserve_stock d order_ref items idempotency_key w =
     (if \<not> list_all in_range items then (Inl ValueError, w)
      else
        let request = \<lparr>rsr_order_ref = order_ref,
              rsr_items = map (\<lambda>(pid, qty). \<lparr>pri_product_id = pid, pri_quantity = qty\<rparr>) items,
              rsr_idempotency_key = idempotency_key\<rparr> in
        case stub_call d UnaryUnary ''ReserveStock'' (ReserveRq request) w of
          (Inr [ReserveRp response], w1) \<Rightarrow> (Inr response, w1)
        | (Inl code, w1) \<Rightarrow> (Inl (AioRpcError code), w1)
        | (_, w1) \<Rightarrow> (Inl (AioRpcError INTERNAL), w1))"

definition client_release_stock ::
  "deployment \<Rightarrow> string \<Rightarrow> remote \<Rightarrow> (client_error + release_stock_response) \<times> remote" where
  "client_release_stock d order_ref w =
     (case stub_call d UnaryUnary ''ReleaseStock'' (ReleaseRq \<lparr>rlr_order_ref = order_ref\<rparr>) w of
        (Inr [ReleaseRp response], w1) \<Rightarrow> (Inr response, w1)
      | (Inl code, w1) \<Rightarrow> (Inl (AioRpcError code), w1)
      | (_, w1) \<Rightarrow> (Inl (AioRpcError INTERNAL), w1))"

definition bulk_message :: "string \<times> int \<times> int \<Rightarrow> bulk_reserve_item" where
  "bulk_message = (\<lambda>(order_ref, pid, qty).
     \<lparr>bri_order_ref = order_ref, bri_product_id = pid, bri_quantity = qty\<rparr>)"

text \<open>
  A line out of range raises in the generator: the lines before it may have reached the server
  (how many is the network's choice), and the call is cancelled.
\<close>

definition client_reserve_stock_bulk ::
  "deployment \<Rightarrow> (string \<times> int \<times> int) list \<Rightarrow> remote
     \<Rightarrow> (client_error + bulk_reserve_summary) \<times> remote" where
  "client_reserve_stock_bulk d lines w =
     (let sent = takeWhile (in_range \<circ> snd) lines in
      if sent \<noteq> lines then
        let n = (case rm_fates w of Lost n _ # _ \<Rightarrow> n | _ \<Rightarrow> length sent) in
        (Inl CancelledError,
         \<lparr>rm_server = snd (server_call d StreamUnary ''ReserveStockBulk''
                            (BulkRq (take n (map bulk_message sent))) (rm_server w)),
          rm_fates = tl (rm_fates w)\<rparr>)
      else
        case stub_call d StreamUnary ''ReserveStockBulk'' (BulkRq (map bulk_message lines)) w of
          (Inr [BulkRp summary], w1) \<Rightarrow> (Inr summary, w1)
        | (Inl code, w1) \<Rightarrow> (Inl (AioRpcError code), w1)
        | (_, w1) \<Rightarrow> (Inl (AioRpcError INTERNAL), w1))"

section \<open>Calls in closed form\<close>

definition trusted :: "deployment \<Rightarrow> bool" where
  "trusted d \<longleftrightarrow> dp_server_token d = '''' \<or> dp_client_token d = dp_server_token d"

lemma intercept_call_eq: "intercept_call token kind details = with_auth token details"
  by (cases kind) (simp_all add: intercept_call_def auth_client_interceptors_def)

lemma metadata_dict_with_auth:
  "metadata_dict (cd_metadata (with_auth token details)) AUTH_METADATA_KEY = Some token"
  by (simp add: metadata_dict_def with_auth_def)

lemma cd_method_with_auth [simp]: "cd_method (with_auth token details) = cd_method details"
  by (simp add: with_auth_def)

lemma authorised_client:
  "authorised (dp_server_token d)
     (with_auth (dp_client_token d) \<lparr>cd_method = method_path name, cd_metadata = None\<rparr>) \<longleftrightarrow> trusted d"
  by (auto simp: authorised_def trusted_def metadata_dict_with_auth method_path_def SERVICE_def
      HEALTH_METHOD_PREFIX_def)

lemma app_log_line [simp]: "app (log_line e s) = app s" "app (log_ending m ks ms r s) = app s"
  by (simp_all add: log_line_def log_ending_def)

text \<open>The reply and the database after a call of a registered method, whatever is logged.\<close>

lemma server_call_eq:
  assumes "registered (dp_clk d) (dp_others d) (method_path name) = Some h" "kinds h = [k]"
  shows "fst (server_call d kind name request s) =
      (if trusted d then map_sum wire_status (\<lambda>_. fst (fst (run_handler h request s)))
        (snd (fst (run_handler h request s))) else Inl UNAUTHENTICATED)"
    and "app (snd (server_call d kind name request s)) =
      (if trusted d then app (snd (run_handler h request s)) else app s)"
proof -
  define r where "r = run_handler h request s"
  let ?d = "with_auth (dp_client_token d) \<lparr>cd_method = method_path name, cd_metadata = None\<rparr>"
  let ?res = "\<lambda>cd s. (Inr (registered (dp_clk d) (dp_others d) (cd_method cd)), s)"
  have res: "?res ?d s = (Inr (Some h), s)" using assms(1) by simp
  have "fst (server_call d kind name request s) =
      (if trusted d then map_sum wire_status (\<lambda>_. fst (fst r)) (snd (fst r)) else Inl UNAUTHENTICATED)
    \<and> app (snd (server_call d kind name request s)) = (if trusted d then app (snd r) else app s)"
  proof (cases "trusted d")
    case True
    then have "server_interceptors (dp_server_token d) ?res ?d s =
        (Inr (Some (wrap_handler (method_path name) h)), s)"
      using server_interceptors_authorised [where continuation = ?res, OF res] by (simp add: authorised_client)
    with True show ?thesis
      unfolding r_def
      by (auto simp: server_call_def intercept_call_eq Let_def wrap_handler_run [OF assms(2)]
          split: prod.splits sum.splits)
  next
    case False
    then have "server_interceptors (dp_server_token d) ?res ?d s =
        (Inr (Some (wrap_handler (method_path name)
           (abort_handler h UNAUTHENTICATED ''invalid auth token''))),
         log_line (Rejecting (method_path name)) s)"
      using server_interceptors_rejected [where continuation = ?res, OF res] by (simp add: authorised_client)
    with False show ?thesis
      by (simp add: server_call_def intercept_call_eq Let_def abort_handler_run [OF assms(2)]
          wrap_handler_run [OF abort_handler_run(1) [OF assms(2)]])
  qed
  then show "fst (server_call d kind name request s) =
      (if trusted d then map_sum wire_status (\<lambda>_. fst (fst (run_handler h request s)))
        (snd (fst (run_handler h request s))) else Inl UNAUTHENTICATED)"
    and "app (snd (server_call d kind name request s)) =
      (if trusted d then app (snd (run_handler h request s)) else app s)"
    by (simp_all add: r_def)
qed

lemma on_app_simps:
  "fst (on_app wrap f s) = map_sum id wrap (fst (f (app s)))"
  "app (snd (on_app wrap f s)) = snd (f (app s))"
  by (simp_all add: on_app_def split_def)

lemma single_reply_simps:
  "fst (single_reply r) = (case fst r of Inl e \<Rightarrow> ([], Inl e) | Inr m \<Rightarrow> ([m], Inr ()))"
  "snd (single_reply r) = snd r"
  by (simp_all add: single_reply_def split_def)

lemma method_path_inj [simp]: "method_path a = method_path b \<longleftrightarrow> a = b"
  by (simp add: method_path_def)

text \<open>A call of each of the three methods, on the database of the server.\<close>

definition call_result :: "('r \<Rightarrow> rpc_response) \<Rightarrow> handler_error + 'r \<Rightarrow> status_code + rpc_response list" where
  "call_result wrap r = (case r of Inl e \<Rightarrow> Inl (wire_status e) | Inr x \<Rightarrow> Inr [wrap x])"

lemma server_call_ReserveStock:
  "fst (server_call d kind ''ReserveStock'' (ReserveRq q) s) =
     (if trusted d then call_result ReserveRp (fst (ReserveStock_handler (dp_clk d) q (app s)))
      else Inl UNAUTHENTICATED)"
  "app (snd (server_call d kind ''ReserveStock'' (ReserveRq q) s)) =
     (if trusted d then snd (ReserveStock_handler (dp_clk d) q (app s)) else app s)"
  by (simp_all add: server_call_eq registered_def kinds_def run_handler_def single_reply_simps
      on_app_simps call_result_def split: sum.split)

lemma server_call_ReleaseStock:
  "fst (server_call d kind ''ReleaseStock'' (ReleaseRq q) s) =
     (if trusted d then call_result ReleaseRp (fst (ReleaseStock_handler q (app s)))
      else Inl UNAUTHENTICATED)"
  "app (snd (server_call d kind ''ReleaseStock'' (ReleaseRq q) s)) =
     (if trusted d then snd (ReleaseStock_handler q (app s)) else app s)"
  by (simp_all add: server_call_eq registered_def kinds_def run_handler_def single_reply_simps
      on_app_simps call_result_def split: sum.split)

lemma server_call_ReserveStockBulk:
  "fst (server_call d kind ''ReserveStockBulk'' (BulkRq q) s) =
     (if trusted d then call_result BulkRp (fst (ReserveStockBulk_handler (dp_clk d) q (app s)))
      else Inl UNAUTHENTICATED)"
  "app (snd (server_call d kind ''ReserveStockBulk'' (BulkRq q) s)) =
     (if trusted d then snd (ReserveStockBulk_handler (dp_clk d) q (app s)) else app s)"
  by (simp_all add: server_call_eq registered_def kinds_def run_handler_def single_reply_simps
      on_app_simps call_result_def split: sum.split)

end
