(* ===== verification/InventoryContract.thy ===== *)
theory InventoryContract
  imports GrpcClient
begin

text \<open>
  What the order service relies on when it talks to the inventory: the client operations it
  is handed, and the laws they keep, stated over the lines held per order reference and the
  stock left per product. The laws say what may have happened when a call fails: nothing, or
  the whole effect of the call with its reply lost.
\<close>

section \<open>Holdings\<close>

record holdings =
  h_lines :: "string \<Rightarrow> (int \<times> int) multiset"
  h_left :: "int \<Rightarrow> int"
  h_keyed :: "string \<Rightarrow> bool"

text \<open>\<open>h_keyed\<close>: the reference has lines that were reserved under an idempotency key.\<close>

definition hold :: "bool \<Rightarrow> string \<Rightarrow> (int \<times> int) multiset \<Rightarrow> holdings \<Rightarrow> holdings" where
  "hold k ref M V =
     \<lparr>h_lines = (h_lines V)(ref := h_lines V ref + M),
      h_left = (\<lambda>pid. h_left V pid - line_sum M pid),
      h_keyed = (h_keyed V)(ref := k \<or> h_keyed V ref)\<rparr>"

definition unhold :: "string \<Rightarrow> holdings \<Rightarrow> holdings" where
  "unhold ref V =
     \<lparr>h_lines = (h_lines V)(ref := {#}),
      h_left = (\<lambda>pid. h_left V pid + line_sum (h_lines V ref) pid),
      h_keyed = (h_keyed V)(ref := False)\<rparr>"

text \<open>The lines of a stream that were reserved, by their flags.\<close>

fun hold_flagged :: "(string \<times> int \<times> int) list \<Rightarrow> bool list \<Rightarrow> holdings \<Rightarrow> holdings" where
  "hold_flagged ((ref, pid, qty) # ls) (b # bs) V =
     hold_flagged ls bs (if b then hold False ref {#(pid, qty)#} V else V)"
| "hold_flagged _ _ V = V"

lemma line_sum_simps [simp]:
  "line_sum {#} pid = 0"
  "line_sum (add_mset x M) pid = (if fst x = pid then snd x else 0) + line_sum M pid"
  "line_sum (M + N) pid = line_sum M pid + line_sum N pid"
  by (simp_all add: line_sum_def)

lemma line_sum_need:
  "line_sum (mset (map (\<lambda>i. (ri_product i, ri_quantity i)) items)) pid = need items pid"
  by (induction items) simp_all

lemma holdings_eqI:
  "(\<And>r. h_lines V r = h_lines W r) \<Longrightarrow> (\<And>p. h_left V p = h_left W p)
     \<Longrightarrow> (\<And>r. h_keyed V r = h_keyed W r) \<Longrightarrow> V = (W :: holdings)"
  by (intro holdings.equality) auto

lemma hold_sel [simp]:
  "h_lines (hold k ref M V) r = h_lines V r + (if r = ref then M else {#})"
  "h_left (hold k ref M V) pid = h_left V pid - line_sum M pid"
  "h_keyed (hold k ref M V) r \<longleftrightarrow> h_keyed V r \<or> (k \<and> r = ref)"
  by (auto simp: hold_def)

lemma unhold_sel [simp]:
  "h_lines (unhold ref V) r = (if r = ref then {#} else h_lines V r)"
  "h_left (unhold ref V) pid = h_left V pid + line_sum (h_lines V ref) pid"
  "h_keyed (unhold ref V) r \<longleftrightarrow> h_keyed V r \<and> r \<noteq> ref"
  by (auto simp: unhold_def)

lemma unhold_unhold [simp]: "unhold ref (unhold ref V) = unhold ref V"
  by (rule holdings_eqI) simp_all

lemma unhold_hold:
  "h_lines V ref = {#} \<Longrightarrow> \<not> h_keyed V ref \<Longrightarrow> unhold ref (hold k ref M V) = V"
  by (rule holdings_eqI) auto

lemma unhold_empty: "h_lines V ref = {#} \<Longrightarrow> \<not> h_keyed V ref \<Longrightarrow> unhold ref V = V"
  by (rule holdings_eqI) auto

definition flagged_lines :: "(string \<times> int \<times> int) list \<Rightarrow> bool list \<Rightarrow> string \<Rightarrow> (int \<times> int) multiset" where
  "flagged_lines ls bs ref = mset (map (snd \<circ> fst) (filter (\<lambda>x. snd x \<and> fst (fst x) = ref) (zip ls bs)))"

lemma flagged_lines_simps [simp]:
  "flagged_lines [] bs ref = {#}" "flagged_lines ls [] ref = {#}"
  "flagged_lines (l # ls) (b # bs) ref =
     (if b \<and> fst l = ref then {#snd l#} else {#}) + flagged_lines ls bs ref"
  by (simp_all add: flagged_lines_def)

lemma hold_flagged_Cons:
  "hold_flagged (l # ls) (b # bs) V =
     hold_flagged ls bs (if b then hold False (fst l) {#snd l#} V else V)"
  by (cases l) auto

lemma hold_flagged_lines:
  "h_lines (hold_flagged ls bs V) ref = h_lines V ref + flagged_lines ls bs ref"
  by (induction ls bs V rule: hold_flagged.induct) auto

lemma hold_flagged_keyed [simp]: "h_keyed (hold_flagged ls bs V) r = h_keyed V r"
  by (induction ls bs V rule: hold_flagged.induct) auto

lemma hold_flagged_append:
  "length ls = length bs \<Longrightarrow>
   hold_flagged (ls @ ls') (bs @ bs') V = hold_flagged ls' bs' (hold_flagged ls bs V)"
  by (induction ls bs V rule: hold_flagged.induct) auto

lemma hold_flagged_none: "hold_flagged ls (replicate n False) V = V"
  by (induction ls arbitrary: n V) (auto split: nat.splits, case_tac n, auto)

section \<open>The client and its laws\<close>

record 'w inventory_client =
  reserve_rpc :: "string \<Rightarrow> (int \<times> int) list \<Rightarrow> string \<Rightarrow> 'w \<Rightarrow> (client_error + reserve_stock_response) \<times> 'w"
  release_rpc :: "string \<Rightarrow> 'w \<Rightarrow> (client_error + release_stock_response) \<times> 'w"
  bulk_rpc :: "(string \<times> int \<times> int) list \<Rightarrow> 'w \<Rightarrow> (client_error + bulk_reserve_summary) \<times> 'w"

text \<open>
  \<open>reserve_law\<close>, \<open>release_law\<close> and \<open>bulk_law\<close> relate the holdings before and after a call
  and its reply; the reservation is made under its own reference as key, as the order service
  does. Under a reference with keyed lines a reservation only replays; otherwise it holds the
  lines at most once, and is answered with success only when it did.
\<close>

definition reserve_law ::
  "string \<Rightarrow> (int \<times> int) list \<Rightarrow> holdings \<Rightarrow> client_error + reserve_stock_response \<Rightarrow> holdings \<Rightarrow> bool" where
  "reserve_law ref items V r V' \<longleftrightarrow>
     (if h_keyed V ref then V' = V \<and> (\<forall>rsp. r = Inr rsp \<longrightarrow> rsp_success rsp)
      else (V' = hold True ref (mset items) V \<and> (\<forall>rsp. r = Inr rsp \<longrightarrow> rsp_success rsp))
         \<or> (V' = V \<and> (\<forall>rsp. r = Inr rsp \<longrightarrow> \<not> rsp_success rsp)))"

definition release_law ::
  "string \<Rightarrow> holdings \<Rightarrow> client_error + release_stock_response \<Rightarrow> holdings \<Rightarrow> bool" where
  "release_law ref V r V' \<longleftrightarrow> V' = unhold ref V \<or> ((\<exists>e. r = Inl (AioRpcError e)) \<and> V' = V)"

definition bulk_law ::
  "(string \<times> int \<times> int) list \<Rightarrow> holdings \<Rightarrow> client_error + bulk_reserve_summary \<Rightarrow> holdings \<Rightarrow> bool" where
  "bulk_law ls V r V' \<longleftrightarrow>
     (\<exists>flags. length flags = length ls \<and> V' = hold_flagged ls flags V \<and>
        (case r of Inl _ \<Rightarrow> True
         | Inr summary \<Rightarrow>
             map (\<lambda>x. (bio_order_ref x, bio_product_id x, bio_reserved x)) (brs_results summary) =
               map (\<lambda>((ref, pid, qty), b). (ref, pid, b)) (zip ls flags)))"

definition proper_ref :: "string \<Rightarrow> bool" where
  "proper_ref ref \<longleftrightarrow> ref \<noteq> '''' \<and> fits ref"

locale inventory_contract =
  fixes client :: "'w inventory_client"
    and wf :: "'w \<Rightarrow> bool"
    and view :: "'w \<Rightarrow> holdings"
  assumes reserve: "wf w \<Longrightarrow> ref \<noteq> '''' \<Longrightarrow> items \<noteq> [] \<Longrightarrow> reserve_rpc client ref items ref w = (r, w')
      \<Longrightarrow> wf w' \<and> reserve_law ref items (view w) r (view w')"
    and release: "wf w \<Longrightarrow> ref \<noteq> '''' \<Longrightarrow> release_rpc client ref w = (s, w')
      \<Longrightarrow> wf w' \<and> release_law ref (view w) s (view w')"
    and bulk: "wf w \<Longrightarrow> list_all (\<lambda>l. proper_ref (fst l)) ls \<Longrightarrow> bulk_rpc client ls w = (t, w')
      \<Longrightarrow> wf w' \<and> bulk_law ls (view w) t (view w')"
begin

lemma release_delivered:
  "wf w \<Longrightarrow> ref \<noteq> '''' \<Longrightarrow> release_rpc client ref w = (Inr s, w') \<Longrightarrow> view w' = unhold ref (view w)"
  by (drule (2) release) (simp add: release_law_def)

lemma refused_changes_nothing:
  "wf w \<Longrightarrow> ref \<noteq> '''' \<Longrightarrow> items \<noteq> [] \<Longrightarrow> reserve_rpc client ref items ref w = (Inr r, w')
     \<Longrightarrow> \<not> rsp_success r \<Longrightarrow> view w' = view w"
  by (drule (3) reserve) (auto simp: reserve_law_def split: if_splits)

lemma granted_holds:
  "wf w \<Longrightarrow> ref \<noteq> '''' \<Longrightarrow> items \<noteq> [] \<Longrightarrow> reserve_rpc client ref items ref w = (Inr r, w')
     \<Longrightarrow> rsp_success r \<Longrightarrow>
   view w' = (if h_keyed (view w) ref then view w else hold True ref (mset items) (view w))"
  by (drule (3) reserve) (auto simp: reserve_law_def split: if_splits)

end

text \<open>
  On a network that delivers, between services that share their secret, a call that fails has
  done nothing, and a release does not fail.
\<close>

locale reliable_inventory = inventory_contract +
  fixes reliable :: "'a \<Rightarrow> bool"
  assumes reserve_reliable: "wf w \<Longrightarrow> reliable w \<Longrightarrow> ref \<noteq> '''' \<Longrightarrow> items \<noteq> []
      \<Longrightarrow> reserve_rpc client ref items ref w = (r, w')
      \<Longrightarrow> reliable w' \<and> (\<forall>e. r = Inl e \<longrightarrow> view w' = view w)"
    and release_reliable: "wf w \<Longrightarrow> reliable w \<Longrightarrow> ref \<noteq> ''''
      \<Longrightarrow> release_rpc client ref w = (s, w') \<Longrightarrow> reliable w' \<and> (\<exists>x. s = Inr x)"
    and bulk_reliable: "wf w \<Longrightarrow> reliable w \<Longrightarrow> bulk_rpc client ls w = (t, w') \<Longrightarrow> reliable w'"

end
