(* ===== verification/OrderService.thy ===== *)
theory OrderService
  imports OrderModels InventoryContract
begin

text \<open>
  \<^verbatim>\<open>modules/orders/service.py\<close>: the reserve-then-persist saga of \<^verbatim>\<open>create_order\<close> with its
  compensation, the bulk variant, and the read back. The functions take the inventory client
  as an argument, as the code does, and run on the order database together with whatever
  state the client runs on.
\<close>

section \<open>Schemas and errors\<close>

record order_item_in =
  in_product_id :: int
  in_quantity :: int

record item_result_out =
  res_product_id :: int
  res_reserved :: bool
  res_reason :: string

datatype order_status = Persisted | Partial | Failed

record bulk_order_result =
  bor_order_ref :: string
  bor_status :: order_status
  bor_items :: "item_result_out list"

record bulk_order_out =
  boo_total_orders :: int
  boo_persisted_count :: int
  boo_results :: "bulk_order_result list"

text \<open>
  An \<^verbatim>\<open>HTTPException\<close> carries a text or, for a refused reservation, the per-item results.
  Any other exception leaves the service as \<open>Unhandled\<close>; FastAPI answers it with 500.
\<close>

datatype http_detail = Text string | Refusal "item_result_out list"

datatype api_error = HTTPException int http_detail | Unhandled

section \<open>Creating one order\<close>

definition order_ref_of :: "string option \<Rightarrow> string \<Rightarrow> string" where
  "order_ref_of idempotency_key uuid =
     (case idempotency_key of None \<Rightarrow> uuid | Some k \<Rightarrow> if k = '''' then uuid else k)"

definition build_order :: "string \<Rightarrow> order_item_in list \<Rightarrow> new_order" where
  "build_order order_ref payload =
     \<lparr>no_id = order_ref,
      no_items = map (\<lambda>i. \<lparr>oi_product_id = in_product_id i, oi_quantity = in_quantity i\<rparr>) payload\<rparr>"

definition line_items :: "order_item_in list \<Rightarrow> (int \<times> int) list" where
  "line_items payload = map (\<lambda>i. (in_product_id i, in_quantity i)) payload"

definition rpc_error :: "client_error \<Rightarrow> api_error" where
  "rpc_error e =
     (case e of
        AioRpcError code \<Rightarrow> HTTPException (grpc_to_http_status code)
          (Text (''inventory unavailable: '' @ status_name code))
      | _ \<Rightarrow> Unhandled)"

text \<open>The reservation, up to the point where the order may be persisted.\<close>

definition reserve_phase ::
  "'w inventory_client \<Rightarrow> string \<Rightarrow> (int \<times> int) list \<Rightarrow> 'w \<Rightarrow> (api_error + unit) \<times> 'w" where
  "reserve_phase client order_ref items w =
     (case reserve_rpc client order_ref items order_ref w of
        (Inl e, w1) \<Rightarrow> (Inl (rpc_error e), w1)
      | (Inr response, w1) \<Rightarrow>
          if \<not> rsp_success response then
            (Inl (HTTPException 409 (Refusal (map (\<lambda>r. \<lparr>res_product_id = pio_product_id r,
               res_reserved = pio_reserved r, res_reason = pio_reason r\<rparr>) (rsp_results response)))), w1)
          else (Inr (), w1))"

text \<open>The body of the \<^verbatim>\<open>try\<close>: add, commit, refresh. \<open>None\<close> when one of them raises.\<close>

definition persist_phase :: "session_faults \<Rightarrow> int \<Rightarrow> new_order \<Rightarrow> order_db \<Rightarrow> order option \<times> order_db" where
  "persist_phase f now ord odb =
     (case session_commit (sf_commit f) now [ord] odb of
        (False, odb1) \<Rightarrow> (None, odb1)
      | (True, odb1) \<Rightarrow> if sf_refresh f then (None, odb1) else (session_get (no_id ord) odb1, odb1))"

text \<open>\<^verbatim>\<open>_release_quietly\<close>: only an RPC error is swallowed. \<open>False\<close> when it raises.\<close>

definition release_quietly :: "'w inventory_client \<Rightarrow> string \<Rightarrow> 'w \<Rightarrow> bool \<times> 'w" where
  "release_quietly client order_ref w =
     (case release_rpc client order_ref w of
        (Inr _, w1) \<Rightarrow> (True, w1)
      | (Inl (AioRpcError _), w1) \<Rightarrow> (True, w1)
      | (Inl _, w1) \<Rightarrow> (False, w1))"

text \<open>The \<^verbatim>\<open>except\<close> branch: roll back, release, report.\<close>

definition compensate_phase ::
  "'w inventory_client \<Rightarrow> session_faults \<Rightarrow> string \<Rightarrow> 'w \<Rightarrow> api_error \<times> 'w" where
  "compensate_phase client f order_ref w =
     (if sf_rollback f then (Unhandled, w)
      else case release_quietly client order_ref w of
        (True, w1) \<Rightarrow> (HTTPException 500 (Text ''failed to persist order''), w1)
      | (False, w1) \<Rightarrow> (Unhandled, w1))"

definition create_order ::
  "'w inventory_client \<Rightarrow> session_faults \<Rightarrow> int \<Rightarrow> string \<Rightarrow> order_item_in list \<Rightarrow> string option
     \<Rightarrow> order_db \<times> 'w \<Rightarrow> (api_error + order) \<times> order_db \<times> 'w" where
  "create_order client f now uuid payload idempotency_key = (\<lambda>(odb, w).
     let order_ref = order_ref_of idempotency_key uuid in
     if sf_get f then (Inl Unhandled, odb, w)
     else case session_get order_ref odb of
       Some existing \<Rightarrow> (Inr existing, odb, w)
     | None \<Rightarrow>
         (case reserve_phase client order_ref (line_items payload) w of
            (Inl e, w1) \<Rightarrow> (Inl e, odb, w1)
          | (Inr _, w1) \<Rightarrow>
              (case persist_phase f now (build_order order_ref payload) odb of
                 (Some order, odb1) \<Rightarrow> (Inr order, odb1, w1)
               | (None, odb1) \<Rightarrow>
                   (case compensate_phase client f order_ref w1 of
                      (e, w2) \<Rightarrow> (Inl e, odb1, w2)))))"

section \<open>Creating orders in bulk\<close>

text \<open>\<open>uuid k\<close> is the \<open>k\<close>-th identifier that \<^verbatim>\<open>uuid4\<close> yields during the request.\<close>

definition build_orders :: "(nat \<Rightarrow> string) \<Rightarrow> order_item_in list list \<Rightarrow> new_order list" where
  "build_orders uuid orders = map (\<lambda>(k, items). build_order (uuid k) items) (enumerate 0 orders)"

definition flatten_lines :: "new_order list \<Rightarrow> (string \<times> int \<times> int) list" where
  "flatten_lines orders =
     concat (map (\<lambda>ord. map (\<lambda>i. (no_id ord, oi_product_id i, oi_quantity i)) (no_items ord)) orders)"

definition item_result_of :: "bulk_item_outcome \<Rightarrow> item_result_out" where
  "item_result_of r = \<lparr>res_product_id = bio_product_id r, res_reserved = bio_reserved r,
     res_reason = bio_reason r\<rparr>"

text \<open>\<^verbatim>\<open>outcomes_by_ref\<close>; a reference that is not a key of the dict raises.\<close>

fun regroup ::
  "bulk_item_outcome list \<Rightarrow> (string \<Rightarrow> item_result_out list option)
     \<Rightarrow> (string \<Rightarrow> item_result_out list option) option" where
  "regroup [] d = Some d"
| "regroup (r # rs) d =
     (case d (bio_order_ref r) of
        None \<Rightarrow> None
      | Some xs \<Rightarrow> regroup rs (d(bio_order_ref r \<mapsto> xs @ [item_result_of r])))"

definition order_outcome :: "item_result_out list \<Rightarrow> order_status" where
  "order_outcome items =
     (if items \<noteq> [] \<and> list_all res_reserved items then Persisted
      else if list_ex res_reserved items then Partial
      else Failed)"

text \<open>The loop over the orders: what is added to the session, the stranded references, the
  results.\<close>

fun classify ::
  "(string \<Rightarrow> item_result_out list option) \<Rightarrow> new_order list
     \<Rightarrow> new_order list \<times> string list \<times> bulk_order_result list" where
  "classify d [] = ([], [], [])"
| "classify d (ord # ords) =
     (let items = (case d (no_id ord) of None \<Rightarrow> [] | Some xs \<Rightarrow> xs);
          st = order_outcome items;
          (added, stranded, results) = classify d ords in
      (if st = Persisted then ord # added else added,
       if st = Partial then no_id ord # stranded else stranded,
       \<lparr>bor_order_ref = no_id ord, bor_status = st, bor_items = items\<rparr> # results))"

fun release_all :: "'w inventory_client \<Rightarrow> string list \<Rightarrow> 'w \<Rightarrow> bool \<times> 'w" where
  "release_all client [] w = (True, w)"
| "release_all client (ref # refs) w =
     (case release_quietly client ref w of
        (True, w1) \<Rightarrow> release_all client refs w1
      | (False, w1) \<Rightarrow> (False, w1))"

definition create_orders_bulk ::
  "'w inventory_client \<Rightarrow> session_faults \<Rightarrow> int \<Rightarrow> (nat \<Rightarrow> string) \<Rightarrow> order_item_in list list
     \<Rightarrow> order_db \<times> 'w \<Rightarrow> (api_error + bulk_order_out) \<times> order_db \<times> 'w" where
  "create_orders_bulk client f now uuid payload = (\<lambda>(odb, w).
     let orders = build_orders uuid payload in
     case bulk_rpc client (flatten_lines orders) w of
       (Inl e, w1) \<Rightarrow> (Inl (rpc_error e), odb, w1)
     | (Inr summary, w1) \<Rightarrow>
         (case regroup (brs_results summary)
                 (\<lambda>r. if r \<in> no_id ` set orders then Some [] else None) of
            None \<Rightarrow> (Inl Unhandled, odb, w1)
          | Some d \<Rightarrow>
              let (added, stranded, results) = classify d orders in
              (case session_commit (sf_commit f) now added odb of
                 (False, odb1) \<Rightarrow> (Inl Unhandled, odb1, w1)
               | (True, odb1) \<Rightarrow>
                   (case release_all client stranded w1 of
                      (False, w2) \<Rightarrow> (Inl Unhandled, odb1, w2)
                    | (True, w2) \<Rightarrow>
                        (Inr \<lparr>boo_total_orders = int (length orders),
                              boo_persisted_count = int (length added), boo_results = results\<rparr>,
                         odb1, w2)))))"

section \<open>Reading an order back\<close>

definition get_order :: "session_faults \<Rightarrow> string \<Rightarrow> order_db \<Rightarrow> api_error + order" where
  "get_order f order_id odb =
     (if sf_get f then Inl Unhandled
      else case session_get order_id odb of
        None \<Rightarrow> Inl (HTTPException 404 (Text ''order not found''))
      | Some ord \<Rightarrow> Inr ord)"

section \<open>One order, by cases\<close>

definition order_lines :: "order \<Rightarrow> (int \<times> int) multiset" where
  "order_lines ord = mset (map (\<lambda>i. (oi_product_id i, oi_quantity i)) (o_items ord))"

lemma order_lines_build [simp]:
  "order_lines (order_of now (build_order ref payload)) = mset (line_items payload)"
  by (simp add: order_lines_def order_of_def build_order_def line_items_def comp_def)

lemma build_order_id [simp]: "no_id (build_order ref payload) = ref"
  by (simp add: build_order_def)

lemma line_items_empty [simp]: "line_items payload = [] \<longleftrightarrow> payload = []"
  by (simp add: line_items_def)

lemma persist_phase_cases:
  assumes "persist_phase f now (build_order ref payload) odb = (r, odb1)" "odb_ok odb"
  obtains (stored) "r = Some (order_of now (build_order ref payload))" "odb_ok odb1"
      "session_get ref odb = None" "\<not> sf_refresh f" "sf_commit f = CommitRuns"
      "\<And>i. session_get i odb1 =
         (if i = ref then Some (order_of now (build_order ref payload)) else session_get i odb)"
  | (lost) "r = None" "odb_ok odb1" "odb1 = odb"
  | (unconfirmed) "r = None" "odb_ok odb1" "sf_commit f = CommitUnconfirmed \<or> sf_refresh f"
      "\<And>i. session_get i odb1 =
         (if i = ref then Some (order_of now (build_order ref payload)) else session_get i odb)"
proof -
  obtain ok odb2 where commit: "session_commit (sf_commit f) now [build_order ref payload] odb = (ok, odb2)"
    by fastforce
  note facts = session_commit_one [OF commit assms(2), simplified build_order_id]
  show thesis
  proof (cases ok)
    case False
    with assms(1) commit have r: "r = None" "odb1 = odb2" by (simp_all add: persist_phase_def)
    from False commit have "odb2 = odb \<or> sf_commit f = CommitUnconfirmed"
      by (auto simp: session_commit_def split: commit_fate.splits sum.splits)
    with facts(1,4) r show thesis by (metis lost unconfirmed)
  next
    case True
    note get = facts(5) [OF True]
    with True assms(1) commit have r: "odb1 = odb2"
      "r = (if sf_refresh f then None else Some (order_of now (build_order ref payload)))"
      by (simp_all add: persist_phase_def split: if_splits)
    show thesis
    proof (cases "sf_refresh f")
      case True
      with r facts(1) get show thesis by (intro unconfirmed) auto
    next
      case False
      with r facts(1,2,3) get \<open>ok\<close> show thesis by (intro stored) auto
    qed
  qed
qed

context inventory_contract
begin

lemma reserve_phase_cases:
  assumes "wf w" "ref \<noteq> ''''" "items \<noteq> []" "reserve_phase client ref items w = (r, w1)"
  obtains (held) "wf w1" "r = Inr ()" "\<exists>rsp. reserve_rpc client ref items ref w = (Inr rsp, w1)"
      "view w1 = (if h_keyed (view w) ref then view w else hold True ref (mset items) (view w))"
  | (refused) results where "wf w1" "r = Inl (HTTPException 409 (Refusal results))"
      "view w1 = view w" "\<not> h_keyed (view w) ref" "\<exists>rsp. reserve_rpc client ref items ref w = (Inr rsp, w1)"
  | (failed) e where "wf w1" "r = Inl (rpc_error e)" "reserve_rpc client ref items ref w = (Inl e, w1)"
      "view w1 = view w \<or> \<not> h_keyed (view w) ref \<and> view w1 = hold True ref (mset items) (view w)"
proof -
  obtain q w2 where call: "reserve_rpc client ref items ref w = (q, w2)" by fastforce
  from reserve [OF assms(1-3) call] have law: "wf w2" "reserve_law ref items (view w) q (view w2)"
    by simp_all
  show thesis
  proof (cases q)
    case (Inl e)
    with assms(4) call law show thesis
      by (intro failed [of e]) (auto simp: reserve_phase_def reserve_law_def split: if_splits)
  next
    case (Inr rsp)
    show thesis
    proof (cases "rsp_success rsp")
      case True
      with assms(4) call law Inr show thesis
        by (intro held) (auto simp: reserve_phase_def reserve_law_def split: if_splits)
    next
      case False
      have "view w1 = view w" "\<not> h_keyed (view w) ref" "wf w1"
        using assms(4) call law Inr False
        by (auto simp: reserve_phase_def reserve_law_def split: if_splits)
      moreover have "\<exists>rsp. reserve_rpc client ref items ref w = (Inr rsp, w1)"
        using assms(4) call Inr False by (simp add: reserve_phase_def)
      moreover have "r = Inl (HTTPException 409 (Refusal (map (\<lambda>r. \<lparr>res_product_id = pio_product_id r,
               res_reserved = pio_reserved r, res_reason = pio_reason r\<rparr>) (rsp_results rsp))))"
        using assms(4) call Inr False by (simp add: reserve_phase_def)
      ultimately show thesis by (intro refused) auto
    qed
  qed
qed

lemma compensate_phase_cases:
  assumes "wf w" "ref \<noteq> ''''" "compensate_phase client f ref w = (e, w1)"
  shows "wf w1"
    and "w1 = (if sf_rollback f then w else snd (release_rpc client ref w))"
    and "e = HTTPException 500 (Text ''failed to persist order'') \<or> e = Unhandled"
    and "view w1 = unhold ref (view w) \<or> (view w1 = view w \<and>
      (sf_rollback f \<or> (\<exists>c w2. release_rpc client ref w = (Inl (AioRpcError c), w2))))"
proof -
  obtain q w3 where call: "release_rpc client ref w = (q, w3)" by fastforce
  from release [OF assms(1,2) call] have law: "wf w3" "release_law ref (view w) q (view w3)"
    by simp_all
  have w1: "w1 = (if sf_rollback f then w else w3)"
    and "e = HTTPException 500 (Text ''failed to persist order'') \<or> e = Unhandled"
    using assms(3) call
    by (auto simp: compensate_phase_def release_quietly_def split: if_splits sum.splits client_error.splits)
  then show "wf w1" "w1 = (if sf_rollback f then w else snd (release_rpc client ref w))"
    "e = HTTPException 500 (Text ''failed to persist order'') \<or> e = Unhandled"
    "view w1 = unhold ref (view w) \<or> (view w1 = view w \<and>
      (sf_rollback f \<or> (\<exists>c w2. release_rpc client ref w = (Inl (AioRpcError c), w2))))"
    using law assms(1) call by (auto simp: release_law_def)
qed

text \<open>Every call of \<open>create_order\<close> ends in one of six ways.\<close>

lemma create_order_cases:
  assumes ok: "wf w" "odb_ok odb" and req: "payload \<noteq> []" "order_ref_of key uuid = ref" "ref \<noteq> ''''"
    and call: "create_order client f now uuid payload key (odb, w) = (r, odb', w')"
  obtains (get_failed) "sf_get f" "r = Inl Unhandled" "odb' = odb" "w' = w"
  | (replayed) ord where "session_get ref odb = Some ord" "r = Inr ord" "odb' = odb" "w' = w"
  | (refused) results where "session_get ref odb = None" "r = Inl (HTTPException 409 (Refusal results))"
      "odb' = odb" "wf w'" "view w' = view w" "\<not> h_keyed (view w) ref"
      "\<exists>rsp. reserve_rpc client ref (line_items payload) ref w = (Inr rsp, w')"
  | (failed) e where "session_get ref odb = None" "r = Inl (rpc_error e)" "odb' = odb" "wf w'"
      "view w' = view w
        \<or> \<not> h_keyed (view w) ref \<and> view w' = hold True ref (mset (line_items payload)) (view w)"
      "reserve_rpc client ref (line_items payload) ref w = (Inl e, w')"
  | (created) "session_get ref odb = None" "r = Inr (order_of now (build_order ref payload))"
      "odb_ok odb'" "wf w'" "\<And>i. session_get i odb' =
         (if i = ref then Some (order_of now (build_order ref payload)) else session_get i odb)"
      "view w' = (if h_keyed (view w) ref then view w
        else hold True ref (mset (line_items payload)) (view w))"
      "\<exists>rsp. reserve_rpc client ref (line_items payload) ref w = (Inr rsp, w')"
  | (compensated) w1 e where "session_get ref odb = None" "r = Inl e" "odb_ok odb'" "wf w1" "wf w'"
      "view w1 = (if h_keyed (view w) ref then view w
        else hold True ref (mset (line_items payload)) (view w))"
      "\<exists>rsp. reserve_rpc client ref (line_items payload) ref w = (Inr rsp, w1)"
      "odb' = odb \<or> (sf_commit f = CommitUnconfirmed \<or> sf_refresh f) \<and> (\<forall>i. session_get i odb' =
         (if i = ref then Some (order_of now (build_order ref payload)) else session_get i odb))"
      "e = HTTPException 500 (Text ''failed to persist order'') \<or> e = Unhandled"
      "view w' = unhold ref (view w1) \<or> (view w' = view w1 \<and>
        (sf_rollback f \<or> (\<exists>c w2. release_rpc client ref w1 = (Inl (AioRpcError c), w2))))"
      "w' = (if sf_rollback f then w1 else snd (release_rpc client ref w1))"
proof (cases "sf_get f \<or> session_get ref odb \<noteq> None")
  case True
  with call req(2) show thesis
    by (auto simp: create_order_def intro: get_failed replayed split: if_splits)
next
  case False
  then have new: "\<not> sf_get f" "session_get ref odb = None" by simp_all
  obtain q w1 where reserved: "reserve_phase client ref (line_items payload) w = (q, w1)" by fastforce

  have items: "line_items payload \<noteq> []" using req(1) by simp
  from ok(1) req(3) items reserved show thesis
  proof (cases rule: reserve_phase_cases)
    case (refused results)
    from refused new call req(2) reserved
    have "r = Inl (HTTPException 409 (Refusal results))" "odb' = odb" "w' = w1"
      by (simp_all add: create_order_def)
    with refused new show thesis by (intro that(3) [of results]) simp_all
  next
    case (failed e)
    from failed new call req(2) reserved have "r = Inl (rpc_error e)" "odb' = odb" "w' = w1"
      by (simp_all add: create_order_def)
    with failed new show thesis by (intro that(4) [of e]) simp_all
  next
    case held
    then have rsp: "\<exists>rsp. reserve_rpc client ref (line_items payload) ref w = (Inr rsp, w1)"
      by simp
    obtain p odb1 where persist: "persist_phase f now (build_order ref payload) odb = (p, odb1)"
      by fastforce
    have comp: thesis if "p = None" "odb_ok odb1" and stored: "odb1 = odb \<or>
      (sf_commit f = CommitUnconfirmed \<or> sf_refresh f) \<and> (\<forall>i. session_get i odb1 =
         (if i = ref then Some (order_of now (build_order ref payload)) else session_get i odb))"
    proof -
      obtain e w2 where phase: "compensate_phase client f ref w1 = (e, w2)" by fastforce
      with that(1) new call req(2) reserved held persist have "r = Inl e" "odb' = odb1" "w' = w2"
        by (auto simp: create_order_def)
      with compensate_phase_cases [OF held(1) req(3) phase] new held rsp stored that(2)
      show thesis by (intro compensated [of e w1]) auto
    qed
    from persist ok(2) show thesis
    proof (cases rule: persist_phase_cases)
      case stored
      with new call req(2) reserved held persist rsp show thesis
        by (intro created) (auto simp: create_order_def)
    next
      case lost
      then show thesis by (intro comp) auto
    next
      case unconfirmed
      then show thesis by (intro comp) auto
    qed
  qed
qed

end

end
