(* ===== verification/OrderRouter.thy ===== *)
theory OrderRouter
  imports OrderService
begin

text \<open>
  \<^verbatim>\<open>modules/orders/router.py\<close> with the validation of \<^verbatim>\<open>modules/orders/schemas.py\<close>: what a
  client of the REST edge gets. The request carries what the environment decides for it: the
  faults of its database session, the clock, and the values of \<^verbatim>\<open>uuid4\<close>. Bodies are given as
  parsed; JSON parsing is not modelled.
\<close>

section \<open>Identifiers\<close>

text \<open>\<^verbatim>\<open>str(uuid4())\<close> for the 128-bit value drawn: 32 lower-case hex digits in five groups.\<close>

primrec hex_digits :: "nat \<Rightarrow> nat \<Rightarrow> string" where
  "hex_digits 0 n = []"
| "hex_digits (Suc k) n = hex_digits k (n div 16) @ [''0123456789abcdef'' ! (n mod 16)]"

definition uuid_str :: "nat \<Rightarrow> string" where
  "uuid_str n =
     (let h = hex_digits 32 n in
      take 8 h @ ''-'' @ take 4 (drop 8 h) @ ''-'' @ take 4 (drop 12 h) @ ''-''
        @ take 4 (drop 16 h) @ ''-'' @ drop 20 h)"

lemma length_hex_digits [simp]: "length (hex_digits k n) = k"
  by (induction k arbitrary: n) simp_all

lemma length_uuid_str [simp]: "length (uuid_str n) = 36"
  by (simp add: uuid_str_def Let_def)

lemma uuid_proper: "proper_ref (uuid_str n)"
proof -
  have "uuid_str n \<noteq> ''''" by (metis length_uuid_str list.size(3) zero_neq_numeral)
  then show ?thesis by (simp add: proper_ref_def fits_def)
qed

lemma hex_digit_inj:
  "i < 16 \<Longrightarrow> j < 16 \<Longrightarrow> ''0123456789abcdef'' ! i = ''0123456789abcdef'' ! j \<Longrightarrow> i = j"
  by (subst (asm) nth_eq_iff_index_eq) simp_all

lemma hex_digits_inj:
  "n < 16 ^ k \<Longrightarrow> m < 16 ^ k \<Longrightarrow> hex_digits k n = hex_digits k m \<Longrightarrow> n = m"
proof (induction k arbitrary: n m)
  case 0
  then show ?case by simp
next
  case (Suc k)
  have digit: "''0123456789abcdef'' ! (n mod 16) = ''0123456789abcdef'' ! (m mod 16)"
    and rest: "hex_digits k (n div 16) = hex_digits k (m div 16)"
    using Suc.prems(3) by simp_all
  have "n div 16 < 16 ^ k" "m div 16 < 16 ^ k"
    using Suc.prems(1,2) by (simp_all add: less_mult_imp_div_less mult.commute)
  then have "n div 16 = m div 16" using Suc.IH rest by blast
  moreover have "n mod 16 = m mod 16" using digit by (intro hex_digit_inj) simp_all
  ultimately show ?case by (metis div_mult_mod_eq)
qed

lemma hex_digits_no_dash: "filter (\<lambda>c. c \<noteq> CHR ''-'') (hex_digits k n) = hex_digits k n"
proof -
  have "''0123456789abcdef'' ! i \<noteq> CHR ''-''" if "i < 16" for i
  proof -
    have "''0123456789abcdef'' ! i \<in> set ''0123456789abcdef''" using that by (intro nth_mem) simp
    then show ?thesis by auto
  qed
  then show ?thesis by (induction k arbitrary: n) (simp_all del: nth_Cons_numeral)
qed

lemma dashed_groups:
  assumes "filter (\<lambda>c. c \<noteq> CHR ''-'') h = h"
  shows "filter (\<lambda>c. c \<noteq> CHR ''-'') (take 8 h @ ''-'' @ take 4 (drop 8 h) @ ''-'' @ take 4 (drop 12 h)
    @ ''-'' @ take 4 (drop 16 h) @ ''-'' @ drop 20 h) = h"
proof -
  have "\<forall>c \<in> set h. c \<noteq> CHR ''-''" using assms by (simp only: filter_id_conv)
  then have keep: "filter (\<lambda>c. c \<noteq> CHR ''-'') (take i (drop k h)) = take i (drop k h)"
      "filter (\<lambda>c. c \<noteq> CHR ''-'') (take i h) = take i h"
      "filter (\<lambda>c. c \<noteq> CHR ''-'') (drop k h) = drop k h" for i k
    by (auto simp: filter_id_conv dest: in_set_takeD in_set_dropD)
  have group: "take 4 (drop k h) @ drop (k + 4) h = drop k h" for k
    by (metis add.commute append_take_drop_id drop_drop)
  show ?thesis
    using group [of 16] group [of 12] group [of 8] append_take_drop_id [of 8 h]
    by (simp add: keep)
qed

lemma uuid_str_digits: "filter (\<lambda>c. c \<noteq> CHR ''-'') (uuid_str n) = hex_digits 32 n"
  unfolding uuid_str_def Let_def by (rule dashed_groups) (rule hex_digits_no_dash)

lemma uuid_str_inj: "n < 2 ^ 128 \<Longrightarrow> m < 2 ^ 128 \<Longrightarrow> uuid_str n = uuid_str m \<Longrightarrow> n = m"
proof -
  assume "n < 2 ^ 128" "m < 2 ^ 128" "uuid_str n = uuid_str m"
  then have "hex_digits 32 n = hex_digits 32 m" by (metis uuid_str_digits)
  moreover have "(2::nat) ^ 128 = 16 ^ 32" by simp
  ultimately show "n = m" using \<open>n < 2 ^ 128\<close> \<open>m < 2 ^ 128\<close> hex_digits_inj [of n 32 m] by metis
qed

section \<open>Validation\<close>

text \<open>\<^verbatim>\<open>Field(gt=0)\<close> on both fields of a line, \<^verbatim>\<open>Field(min_length=1)\<close> on the lists.\<close>

definition valid_item :: "order_item_in \<Rightarrow> bool" where
  "valid_item i \<longleftrightarrow> 0 < in_product_id i \<and> 0 < in_quantity i"

definition valid_order :: "order_item_in list \<Rightarrow> bool" where
  "valid_order items \<longleftrightarrow> items \<noteq> [] \<and> list_all valid_item items"

definition valid_bulk :: "order_item_in list list \<Rightarrow> bool" where
  "valid_bulk orders \<longleftrightarrow> orders \<noteq> [] \<and> list_all valid_order orders"

section \<open>The endpoints\<close>

datatype 'a http_reply = Reply int 'a | Error int "http_detail option"

definition http_reply_of :: "int \<Rightarrow> api_error + 'a \<Rightarrow> 'a http_reply" where
  "http_reply_of success r =
     (case r of
        Inr x \<Rightarrow> Reply success x
      | Inl (HTTPException code detail) \<Rightarrow> Error code (Some detail)
      | Inl Unhandled \<Rightarrow> Error 500 None)"

record order_request =
  rq_faults :: session_faults
  rq_now :: int
  rq_uuid :: "nat \<Rightarrow> nat"

definition post_order ::
  "'w inventory_client \<Rightarrow> order_request \<Rightarrow> order_item_in list \<Rightarrow> string option
     \<Rightarrow> order_db \<times> 'w \<Rightarrow> order http_reply \<times> order_db \<times> 'w" where
  "post_order client rq payload idempotency_key s =
     (if \<not> valid_order payload then (Error 422 None, s)
      else if (case idempotency_key of None \<Rightarrow> False | Some k \<Rightarrow> \<not> (1 \<le> length k \<and> length k \<le> 128))
        then (Error 400 (Some (Text ''Idempotency-Key must be 1-128 characters'')), s)
      else
        case create_order client (rq_faults rq) (rq_now rq) (uuid_str (rq_uuid rq 0)) payload
               idempotency_key s of
          (r, s') \<Rightarrow> (http_reply_of 201 r, s'))"

definition post_orders_bulk ::
  "'w inventory_client \<Rightarrow> order_request \<Rightarrow> order_item_in list list
     \<Rightarrow> order_db \<times> 'w \<Rightarrow> bulk_order_out http_reply \<times> order_db \<times> 'w" where
  "post_orders_bulk client rq payload s =
     (if \<not> valid_bulk payload then (Error 422 None, s)
      else
        case create_orders_bulk client (rq_faults rq) (rq_now rq) (\<lambda>k. uuid_str (rq_uuid rq k)) payload s of
          (r, s') \<Rightarrow> (http_reply_of 200 r, s'))"

definition get_order_endpoint :: "order_request \<Rightarrow> string \<Rightarrow> order_db \<Rightarrow> order http_reply" where
  "get_order_endpoint rq order_id odb = http_reply_of 200 (get_order (rq_faults rq) order_id odb)"

text \<open>The reference of an accepted request is never empty and fits its column.\<close>

definition request_ref :: "order_request \<Rightarrow> string option \<Rightarrow> string" where
  "request_ref rq key = order_ref_of key (uuid_str (rq_uuid rq 0))"

definition accepted :: "order_item_in list \<Rightarrow> string option \<Rightarrow> bool" where
  "accepted payload key \<longleftrightarrow> valid_order payload
     \<and> (case key of None \<Rightarrow> True | Some k \<Rightarrow> 1 \<le> length k \<and> length k \<le> 128)"

lemma request_ref_proper: "accepted payload key \<Longrightarrow> proper_ref (request_ref rq key)"
  using uuid_proper
  by (auto simp: accepted_def request_ref_def order_ref_of_def proper_ref_def fits_def split: option.splits)

lemma post_order_accepted:
  "accepted payload key \<Longrightarrow> post_order client rq payload key s =
     apfst (http_reply_of 201) (create_order client (rq_faults rq) (rq_now rq)
       (uuid_str (rq_uuid rq 0)) payload key s)"
  by (auto simp: post_order_def accepted_def split: option.splits prod.splits)

lemma post_order_rejected: "\<not> accepted payload key \<Longrightarrow> snd (post_order client rq payload key s) = s"
  by (auto simp: post_order_def accepted_def split: option.splits)

end
