(* ===== verification/RemoteInventory.thy ===== *)
theory RemoteInventory
  imports InventoryContract
begin

text \<open>
  The deployed inventory (client, network, interceptors, servicer, service functions,
  database) keeps the contract the order service relies on.
\<close>

section \<open>The view of the database\<close>

definition keyed :: "string \<Rightarrow> inventory_db \<Rightarrow> bool" where
  "keyed key db \<longleftrightarrow> replayed key db \<noteq> []"

definition view_of :: "inventory_db \<Rightarrow> holdings" where
  "view_of db = \<lparr>h_lines = lines_of db, h_left = available db, h_keyed = (\<lambda>key. keyed key db)\<rparr>"

text \<open>Every active keyed line was reserved under its own reference as key.\<close>

definition own_keys :: "inventory_db \<Rightarrow> bool" where
  "own_keys db \<longleftrightarrow> (\<forall>r \<in> set (reservations db). active r \<and> r_key r \<noteq> '''' \<longrightarrow> r_key r = r_order_ref r)"

definition inventory_ok :: "inventory_db \<Rightarrow> bool" where
  "inventory_ok db \<longleftrightarrow> db_ok db \<and> own_keys db"

lemma view_of_sel [simp]:
  "h_lines (view_of db) = lines_of db" "h_left (view_of db) = available db"
  "h_keyed (view_of db) key = keyed key db"
  by (simp_all add: view_of_def)

lemma own_keys_take_lines:
  "own_keys db \<Longrightarrow> key = '''' \<or> key = ref \<Longrightarrow> own_keys (take_lines clk ref key items db)"
  by (auto simp: own_keys_def dest: line_rows_member)

lemma own_keys_released: "db_ok db \<Longrightarrow> own_keys db \<Longrightarrow> own_keys (released ref db)"
  by (auto simp: own_keys_def released_reservations release_rows_def active_def)

lemma keyed_lines: "own_keys db \<Longrightarrow> keyed key db \<Longrightarrow> lines_of db key \<noteq> {#}"
  by (force simp: keyed_def replayed_refs refs_of_key_def own_keys_def lines_of_def filter_empty_conv)

lemma keyed_take_lines:
  "items \<noteq> [] \<Longrightarrow> keyed k (take_lines clk ref key items db) \<longleftrightarrow> keyed k db \<or> (k = key \<and> key \<noteq> '''')"
  by (auto simp: keyed_def replayed_refs refs_of_key_take_lines)

lemma keyed_released:
  assumes "db_ok db" "own_keys db"
  shows "keyed k (released ref db) \<longleftrightarrow> keyed k db \<and> k \<noteq> ref"
proof -
  have "k \<noteq> '''' \<Longrightarrow> refs_of_key db k \<subseteq> {k}"
    using assms(2) by (auto simp: refs_of_key_def own_keys_def)
  then show ?thesis
    using assms(1) by (auto simp: keyed_def replayed_refs refs_of_key_released)
qed

lemma view_of_take_lines:
  assumes "\<forall>i \<in> set items. known db (ri_product i)" "items \<noteq> []" "key = ref \<and> ref \<noteq> '''' \<or> key = ''''"
  shows "view_of (take_lines clk ref key items db) =
    hold (key \<noteq> '''') ref (mset (map (\<lambda>i. (ri_product i, ri_quantity i)) items)) (view_of db)"
  using assms(2,3)
  by (intro holdings_eqI)
    (auto simp: lines_of_take_lines take_lines_available [OF assms(1)] line_sum_need keyed_take_lines
      simp del: mset_map)

lemma view_of_released:
  "db_ok db \<Longrightarrow> own_keys db \<Longrightarrow> view_of (released ref db) = unhold ref (view_of db)"
  by (rule holdings_eqI) (simp_all add: lines_of_released released_available held_for_lines keyed_released)

section \<open>One handled request\<close>

lemma reserve_handler_cases:
  assumes ok: "inventory_ok db" and ref: "ref \<noteq> ''''" and items: "items \<noteq> []"
    and call: "ReserveStock_handler clk \<lparr>rsr_order_ref = ref,
        rsr_items = map (\<lambda>(pid, qty). \<lparr>pri_product_id = pid, pri_quantity = qty\<rparr>) items,
        rsr_idempotency_key = ref\<rparr> db = (r, db')"
  obtains (replay) rsp where "r = Inr rsp" "rsp_success rsp" "db' = db" "keyed ref db"
  | (granted) rsp where "r = Inr rsp" "rsp_success rsp" "inventory_ok db'" "\<not> keyed ref db"
      "keyed ref db'" "view_of db' = hold True ref (mset items) (view_of db)"
  | (refused) rsp where "r = Inr rsp" "\<not> rsp_success rsp" "db' = db" "\<not> keyed ref db"
  | (raised) e where "r = Inl e" "db' = db" "\<not> keyed ref db"
proof -
  let ?items = "map (\<lambda>(pid, qty). \<lparr>ri_product = pid, ri_quantity = qty\<rparr>) items"
  obtain q db1 where run: "reserve_stock clk ref ?items ref db = (q, db1)" by fastforce
  have conv: "map ((\<lambda>item. \<lparr>ri_product = pri_product_id item, ri_quantity = pri_quantity item\<rparr>) \<circ>
      (\<lambda>(pid, qty). \<lparr>pri_product_id = pid, pri_quantity = qty\<rparr>)) items = ?items"
    by (rule map_cong) auto
  have pairs: "mset (map (\<lambda>i. (ri_product i, ri_quantity i)) (sort_key ri_product ?items)) = mset items"
    by (simp add: multiset.map_comp comp_def split_def)
  have empty: "map (\<lambda>(pid, qty). \<lparr>pri_product_id = pid, pri_quantity = qty\<rparr>) items \<noteq> []"
    using items by simp
  have db': "db' = db1" and r: "r = (case q of Inl e \<Rightarrow> Inl (Uncaught e) | Inr out \<Rightarrow>
      Inr \<lparr>rsp_success = ro_success out, rsp_results = map (\<lambda>x. \<lparr>pio_product_id = io_product x,
        pio_reserved = io_reserved x, pio_reason = io_reason x\<rparr>) (ro_results out)\<rparr>)"
    using call ref items run by (auto simp: ReserveStock_handler_def conv split: sum.splits)
  from ok have db_ok: "db_ok db" and own: "own_keys db" by (simp_all add: inventory_ok_def)
  show thesis
  proof (cases "keyed ref db")
    case True
    then have "q = Inr \<lparr>ro_success = True, ro_results = map (reserved_outcome \<circ> r_product) (replayed ref db)\<rparr>
        \<and> db1 = db"
      using run items reserve_stock_replay [of ?items ref db clk ref] by (auto simp: keyed_def)
    with True db' r show thesis by (intro replay) auto
  next
    case False
    from db_ok run show thesis
    proof (cases rule: reserve_stock_cases)
      case granted
      then have known: "\<forall>i \<in> set (sort_key ri_product ?items). known db (ri_product i)"
        by (simp add: feasible_def)
      have "db_ok db'"
        using db_ok granted db' by (auto simp: key_free_fresh intro!: take_lines_db_ok)
      moreover have "own_keys db'" using own granted(7) db' own_keys_take_lines by blast
      moreover have "keyed ref db'"
        using granted(7) db' items ref by (simp add: keyed_take_lines)
      moreover have "view_of db' = hold True ref (mset items) (view_of db)"
        using ref items granted(7) db' pairs by (simp add: view_of_take_lines [OF known])
      ultimately show thesis using False r granted(8) that(2) by (auto simp: inventory_ok_def)
    next
      case refused
      with False db' r that(3) show thesis by auto
    next
      case raised
      with False db' r that(4) show thesis by auto
    qed (use False in \<open>simp add: keyed_def\<close>)
  qed
qed

lemma release_handler_eq:
  assumes "db_ok db" "ref \<noteq> ''''"
  shows "\<exists>rsp. ReleaseStock_handler \<lparr>rlr_order_ref = ref\<rparr> db = (Inr rsp, released ref db)"
  using assms by (simp add: ReleaseStock_handler_def release_stock_eq)

lemma bulk_step_view:
  fixes clk :: "int \<Rightarrow> int" and item :: bulk_reserve_item and db :: inventory_db
  assumes "inventory_ok db" "fits (bri_order_ref item)"
  defines "out \<equiv> fst (bulk_step clk item db)" and "db' \<equiv> snd (bulk_step clk item db)"
  shows "inventory_ok db'"
    and "view_of db' = (if bio_reserved out
      then hold False (bri_order_ref item) {#(bri_product_id item, bri_quantity item)#} (view_of db)
      else view_of db)"
proof -
  from assms(1) have ok: "db_ok db" "own_keys db" by (simp_all add: inventory_ok_def)
  show "inventory_ok db'"
    using ok bulk_step_db_ok [OF ok(1), of clk item]
      own_keys_take_lines [OF ok(2), of "''''" "bri_order_ref item" clk "[bulk_line item]"]
    by (auto simp: db'_def inventory_ok_def bulk_step_def split: if_splits)
  show "view_of db' = (if bio_reserved out
      then hold False (bri_order_ref item) {#(bri_product_id item, bri_quantity item)#} (view_of db)
      else view_of db)"
    using view_of_take_lines [where items = "[bulk_line item]" and db = db and clk = clk
        and ref = "bri_order_ref item" and key = "''''"]
    by (auto simp: db'_def out_def bulk_step_def line_fits_def)
qed

lemma bulk_message_sel [simp]:
  "bri_order_ref (bulk_message l) = fst l"
  "bri_product_id (bulk_message l) = fst (snd l)"
  "bri_quantity (bulk_message l) = snd (snd l)"
  by (simp_all add: bulk_message_def split_def)

lemma bulk_run_view:
  fixes clk :: "int \<Rightarrow> int" and ls :: "(string \<times> int \<times> int) list" and db :: inventory_db
  assumes "inventory_ok db" "list_all (\<lambda>l. proper_ref (fst l)) ls"
  defines "run \<equiv> run_ops (bulk_step clk) (map bulk_message ls) db"
  shows "inventory_ok (snd run)"
    and "view_of (snd run) = hold_flagged ls (map bio_reserved (fst run)) (view_of db)"
    and "map (\<lambda>x. (bio_order_ref x, bio_product_id x, bio_reserved x)) (fst run) =
      map (\<lambda>((ref, pid, qty), b). (ref, pid, b)) (zip ls (map bio_reserved (fst run)))"
proof -
  have "inventory_ok (snd (run_ops (bulk_step clk) (map bulk_message ls) db))
    \<and> view_of (snd (run_ops (bulk_step clk) (map bulk_message ls) db)) =
        hold_flagged ls (map bio_reserved (fst (run_ops (bulk_step clk) (map bulk_message ls) db)))
          (view_of db)
    \<and> map (\<lambda>x. (bio_order_ref x, bio_product_id x, bio_reserved x))
          (fst (run_ops (bulk_step clk) (map bulk_message ls) db)) =
        map (\<lambda>((ref, pid, qty), b). (ref, pid, b))
          (zip ls (map bio_reserved (fst (run_ops (bulk_step clk) (map bulk_message ls) db))))"
    using assms(1,2)
  proof (induction ls arbitrary: db)
    case Nil
    then show ?case by simp
  next
    case (Cons l ls)
    have "fits (bri_order_ref (bulk_message l))" using Cons.prems(2) by (simp add: proper_ref_def)
    note step = bulk_step_view [OF Cons.prems(1) this, where clk = clk]
    have "list_all (\<lambda>l. proper_ref (fst l)) ls" using Cons.prems(2) by simp
    from Cons.IH [OF step(1) this] show ?case
      by (simp add: split_def Let_def bulk_step_reply hold_flagged_Cons step(2))
  qed
  then show "inventory_ok (snd run)"
    "view_of (snd run) = hold_flagged ls (map bio_reserved (fst run)) (view_of db)"
    "map (\<lambda>x. (bio_order_ref x, bio_product_id x, bio_reserved x)) (fst run) =
      map (\<lambda>((ref, pid, qty), b). (ref, pid, b)) (zip ls (map bio_reserved (fst run)))"
    by (simp_all add: run_def)
qed

section \<open>Attempts and retries\<close>

definition db_of :: "remote \<Rightarrow> inventory_db" where
  "db_of w = app (rm_server w)"

lemma db_of_simps [simp]: "db_of \<lparr>rm_server = s, rm_fates = fs\<rparr> = app s" "db_of (w\<lparr>rm_fates := fs\<rparr>) = db_of w"
  by (simp_all add: db_of_def)

lemma attempt_cases:
  assumes "attempt d kind name request w = (r, w')"
  obtains (delivered) "r = fst (server_call d kind name request (rm_server w))"
      "db_of w' = app (snd (server_call d kind name request (rm_server w)))"
  | (lost) c where "r = Inl c" "db_of w' = db_of w"
  | (reply_lost) n c where "r = Inl c"
      "db_of w' = app (snd (server_call d kind name (first_messages n request) (rm_server w)))"
  using assms by (auto simp: attempt_def split: rpc_fate.splits nat.splits prod.splits list.splits)

lemma retries_lift:
  assumes "retries codes call n w = (r, w')"
    and "\<And>w r w'. call w = (r, w') \<Longrightarrow> Q w r w'"
    and "\<And>w c w1 r w'. Q w (Inl c) w1 \<Longrightarrow> Q w1 r w' \<Longrightarrow> Q w r w'"
  shows "Q w r w'"
  using assms(1)
proof (induction n arbitrary: w)
  case 0
  then show ?case by (simp add: assms(2))
next
  case (Suc n)
  obtain q w1 where first: "call w = (q, w1)" by fastforce
  note assms(2) [OF first]
  with Suc first show ?case by (auto split: sum.splits if_splits intro: assms(3))
qed

text \<open>
  The effect of one or more attempts to reserve: under a key that already has lines it can only
  be answered with success; otherwise it reserves at most once, and is answered with success
  only when it did.
\<close>

definition reserve_effect ::
  "string \<Rightarrow> (int \<times> int) list \<Rightarrow> remote \<Rightarrow> status_code + rpc_response list \<Rightarrow> remote \<Rightarrow> bool" where
  "reserve_effect ref items w r w' \<longleftrightarrow>
     (\<forall>ms. r = Inr ms \<longrightarrow> (\<exists>rsp. ms = [ReserveRp rsp])) \<and>
     (inventory_ok (db_of w) \<longrightarrow> inventory_ok (db_of w') \<and>
       (if keyed ref (db_of w) then keyed ref (db_of w') \<and> view_of (db_of w') = view_of (db_of w)
          \<and> (\<forall>rsp. r = Inr [ReserveRp rsp] \<longrightarrow> rsp_success rsp)
        else if keyed ref (db_of w') then
          view_of (db_of w') = hold True ref (mset items) (view_of (db_of w))
          \<and> (\<forall>rsp. r = Inr [ReserveRp rsp] \<longrightarrow> rsp_success rsp)
        else view_of (db_of w') = view_of (db_of w)
          \<and> (\<forall>rsp. r = Inr [ReserveRp rsp] \<longrightarrow> \<not> rsp_success rsp)))"

lemma reserve_effect_trans:
  "reserve_effect ref items w (Inl c) w1 \<Longrightarrow> reserve_effect ref items w1 r w'
     \<Longrightarrow> reserve_effect ref items w r w'"
  by (auto simp: reserve_effect_def split: if_splits)

abbreviation reserve_request :: "string \<Rightarrow> (int \<times> int) list \<Rightarrow> rpc_request" where
  "reserve_request ref items \<equiv> ReserveRq \<lparr>rsr_order_ref = ref,
     rsr_items = map (\<lambda>(pid, qty). \<lparr>pri_product_id = pid, pri_quantity = qty\<rparr>) items,
     rsr_idempotency_key = ref\<rparr>"

lemma reserve_call_effect:
  assumes "ref \<noteq> ''''" "items \<noteq> []"
    and "db_of w' = app (snd (server_call d kind ''ReserveStock'' (reserve_request ref items) (rm_server w)))"
    and "r = fst (server_call d kind ''ReserveStock'' (reserve_request ref items) (rm_server w)) \<or> r = Inl c"
  shows "reserve_effect ref items w r w'"
proof (cases "trusted d")
  case False
  with assms(3,4) show ?thesis
    by (auto simp: server_call_ReserveStock reserve_effect_def db_of_def)
next
  case True
  let ?q = "\<lparr>rsr_order_ref = ref,
     rsr_items = map (\<lambda>(pid, qty). \<lparr>pri_product_id = pid, pri_quantity = qty\<rparr>) items,
     rsr_idempotency_key = ref\<rparr>"
  obtain h db' where call: "ReserveStock_handler (dp_clk d) ?q (db_of w) = (h, db')" by fastforce
  have db': "db_of w' = db'" and r: "r = call_result ReserveRp h \<or> r = Inl c"
    using True assms(3,4) call by (auto simp: server_call_ReserveStock db_of_def)
  have shape: "\<forall>ms. r = Inr ms \<longrightarrow> (\<exists>rsp. ms = [ReserveRp rsp])"
    using r by (auto simp: call_result_def split: sum.splits)
  show ?thesis
  proof (cases "inventory_ok (db_of w)")
    case False
    with shape show ?thesis by (simp add: reserve_effect_def)
  next
    case ok: True
    from ok assms(1,2) call show ?thesis
      by (cases rule: reserve_handler_cases)
        (use shape ok r db' in \<open>auto simp: reserve_effect_def call_result_def\<close>)
  qed
qed

lemma reserve_attempt_effect:
  assumes "ref \<noteq> ''''" "items \<noteq> []"
    and "attempt d kind ''ReserveStock'' (reserve_request ref items) w = (r, w')"
  shows "reserve_effect ref items w r w'"
  using assms(3)
proof (cases rule: attempt_cases)
  case lost
  then show ?thesis by (simp add: reserve_effect_def)
qed (use assms(1,2) in \<open>auto intro: reserve_call_effect\<close>)

lemma client_reserve_law:
  assumes "inventory_ok (db_of w)" "ref \<noteq> ''''" "items \<noteq> []"
    and "client_reserve_stock d ref items ref w = (r, w')"
  shows "inventory_ok (db_of w') \<and> reserve_law ref items (view_of (db_of w)) r (view_of (db_of w'))"
proof (cases "list_all in_range items")
  case False
  with assms show ?thesis by (auto simp: client_reserve_stock_def reserve_law_def)
next
  case True
  obtain q w1 where call: "stub_call d UnaryUnary ''ReserveStock'' (reserve_request ref items) w = (q, w1)"
    by fastforce
  have "reserve_effect ref items w q w1"
    using call unfolding stub_call_def SERVICE_CONFIG_def
    by (simp del: retries.simps)
      (rule retries_lift, assumption, rule reserve_attempt_effect [OF assms(2,3)], assumption,
       rule reserve_effect_trans)
  then show ?thesis
    using assms True call
    by (cases q) (auto simp: client_reserve_stock_def reserve_effect_def reserve_law_def split: if_splits)
qed

definition release_effect ::
  "string \<Rightarrow> remote \<Rightarrow> status_code + rpc_response list \<Rightarrow> remote \<Rightarrow> bool" where
  "release_effect ref w r w' \<longleftrightarrow>
     (\<forall>ms. r = Inr ms \<longrightarrow> (\<exists>rsp. ms = [ReleaseRp rsp])) \<and>
     (inventory_ok (db_of w) \<longrightarrow> inventory_ok (db_of w') \<and>
       (view_of (db_of w') = unhold ref (view_of (db_of w))
        \<or> (\<exists>c. r = Inl c) \<and> view_of (db_of w') = view_of (db_of w)))"

lemma release_effect_trans:
  "release_effect ref w (Inl c) w1 \<Longrightarrow> release_effect ref w1 r w' \<Longrightarrow> release_effect ref w r w'"
  by (auto simp: release_effect_def)

lemma inventory_ok_released: "inventory_ok db \<Longrightarrow> inventory_ok (released ref db)"
  by (simp add: inventory_ok_def released_db_ok own_keys_released)

lemma release_attempt_effect:
  assumes "ref \<noteq> ''''"
    and "attempt d kind ''ReleaseStock'' (ReleaseRq \<lparr>rlr_order_ref = ref\<rparr>) w = (r, w')"
  shows "release_effect ref w r w'"
proof -
  have shape: "ReleaseStock_handler \<lparr>rlr_order_ref = ref\<rparr> (db_of w) = (Inr rsp, db') \<Longrightarrow>
      inventory_ok (db_of w) \<Longrightarrow> db' = released ref (db_of w)" for rsp db'
    using release_handler_eq [OF _ assms(1)] by (fastforce simp: inventory_ok_def)
  have sound: "inventory_ok (db_of w) \<Longrightarrow>
      \<exists>rsp. ReleaseStock_handler \<lparr>rlr_order_ref = ref\<rparr> (db_of w) = (Inr rsp, released ref (db_of w))"
    using release_handler_eq [OF _ assms(1)] by (simp add: inventory_ok_def)
  have view: "inventory_ok (db_of w) \<Longrightarrow>
      view_of (released ref (db_of w)) = unhold ref (view_of (db_of w))"
    by (simp add: inventory_ok_def view_of_released)
  from assms(2) show ?thesis
    by (cases rule: attempt_cases)
      (use sound view inventory_ok_released in \<open>auto simp: release_effect_def server_call_ReleaseStock
        call_result_def simp flip: db_of_def split: sum.splits\<close>)
qed

lemma client_release_law:
  assumes "inventory_ok (db_of w)" "ref \<noteq> ''''" "client_release_stock d ref w = (r, w')"
  shows "inventory_ok (db_of w') \<and> release_law ref (view_of (db_of w)) r (view_of (db_of w'))"
proof -
  obtain q w1 where call: "stub_call d UnaryUnary ''ReleaseStock'' (ReleaseRq \<lparr>rlr_order_ref = ref\<rparr>) w
      = (q, w1)"
    by fastforce
  have "release_effect ref w q w1"
    using call unfolding stub_call_def SERVICE_CONFIG_def
    by (simp del: retries.simps)
      (rule retries_lift, assumption, rule release_attempt_effect [OF assms(2)], assumption,
       rule release_effect_trans)
  then show ?thesis
    using assms call
    by (cases q) (auto simp: client_release_stock_def release_effect_def release_law_def)
qed

section \<open>The streamed lines\<close>

lemma bulk_handler_view:
  assumes "inventory_ok db" "list_all (\<lambda>l. proper_ref (fst l)) ls"
    and "ReserveStockBulk_handler clk (map bulk_message ls) db = (r, db')"
  shows "inventory_ok db' \<and> (\<exists>flags summary. length flags = length ls \<and> r = Inr summary
    \<and> view_of db' = hold_flagged ls flags (view_of db)
    \<and> map (\<lambda>x. (bio_order_ref x, bio_product_id x, bio_reserved x)) (brs_results summary) =
        map (\<lambda>((ref, pid, qty), b). (ref, pid, b)) (zip ls flags))"
proof -
  have "\<forall>item \<in> set (map bulk_message ls). fits (bri_order_ref item)"
    using assms(2) by (auto simp: list_all_iff proper_ref_def)
  then have "ReserveStockBulk_handler clk (map bulk_message ls) db =
    (let (outs, db') = run_ops (bulk_step clk) (map bulk_message ls) db;
         n = int (length (filter bio_reserved outs)) in
     (Inr \<lparr>brs_total = int (length outs), brs_reserved_count = n,
           brs_failed_count = int (length outs) - n, brs_results = outs\<rparr>, db'))"
    using assms(1) by (intro ReserveStockBulk_handler_eq) (simp_all add: inventory_ok_def)
  moreover obtain outs db1 where run: "run_ops (bulk_step clk) (map bulk_message ls) db = (outs, db1)"
    by fastforce
  ultimately obtain summary where r: "r = Inr summary" "brs_results summary = outs" "db' = db1"
    using assms(3) by (auto simp: Let_def)
  note view = bulk_run_view [OF assms(1,2), of clk, unfolded run fst_conv snd_conv]
  have "length outs = length ls"
    using length_run_ops [of "bulk_step clk" "map bulk_message ls" db] by (simp add: run)
  then show ?thesis
    using view r by (intro conjI exI [of _ "map bio_reserved outs"] exI [of _ summary]) simp_all
qed

text \<open>A cut stream: the server has handled the lines up to the cut.\<close>

lemma bulk_cut_view:
  assumes "inventory_ok (db_of w)" "list_all (\<lambda>l. proper_ref (fst l)) ls"
  shows "inventory_ok (app (snd (server_call d kind ''ReserveStockBulk''
        (BulkRq (take n (map bulk_message ls))) (rm_server w))))
    \<and> (\<exists>flags. length flags = length ls \<and> view_of (app (snd (server_call d kind ''ReserveStockBulk''
        (BulkRq (take n (map bulk_message ls))) (rm_server w)))) =
          hold_flagged ls flags (view_of (db_of w)))"
proof (cases "trusted d")
  case False
  then show ?thesis
    using assms(1)
    by (auto simp: server_call_ReserveStockBulk db_of_def hold_flagged_none
        intro!: exI [of _ "replicate (length ls) False"])
next
  case True
  have "list_all (\<lambda>l. proper_ref (fst l)) (take n ls)"
    using assms(2) by (auto simp: list_all_iff dest: in_set_takeD)
  note lines = bulk_handler_view [OF assms(1) this]
  obtain h db' where run: "ReserveStockBulk_handler (dp_clk d) (map bulk_message (take n ls)) (db_of w) = (h, db')"
    by fastforce
  from lines [OF run] obtain flags where flags: "length flags = length (take n ls)"
    and ok: "inventory_ok db'" and view: "view_of db' = hold_flagged (take n ls) flags (view_of (db_of w))"
    by blast
  let ?flags = "flags @ replicate (length (drop n ls)) False"
  have "hold_flagged (take n ls @ drop n ls) ?flags (view_of (db_of w)) =
      hold_flagged (take n ls) flags (view_of (db_of w))"
    by (simp only: hold_flagged_append [OF flags [symmetric]] hold_flagged_none)
  then have "view_of db' = hold_flagged ls ?flags (view_of (db_of w))"
    by (simp only: append_take_drop_id view)
  moreover have "length ?flags = length ls" using flags by simp
  moreover have "app (snd (server_call d kind ''ReserveStockBulk''
      (BulkRq (take n (map bulk_message ls))) (rm_server w))) = db'"
    using True run by (simp add: server_call_ReserveStockBulk take_map flip: db_of_def)
  ultimately show ?thesis using ok by metis
qed

lemma client_bulk_law:
  assumes "inventory_ok (db_of w)" "list_all (\<lambda>l. proper_ref (fst l)) ls"
    and "client_reserve_stock_bulk d ls w = (r, w')"
  shows "inventory_ok (db_of w') \<and> bulk_law ls (view_of (db_of w)) r (view_of (db_of w'))"
proof (cases "takeWhile (in_range \<circ> snd) ls = ls")
  case False
  let ?sent = "takeWhile (in_range \<circ> snd) ls"
  have sent: "?sent = take (length ?sent) ls" by (rule takeWhile_eq_take)
  have cut: "take n (map bulk_message ?sent) = take (min n (length ?sent)) (map bulk_message ls)" for n
    by (subst sent) (simp add: take_map)
  show ?thesis
    using assms False bulk_cut_view [OF assms(1,2), of d StreamUnary]
    by (auto simp: client_reserve_stock_bulk_def Let_def cut bulk_law_def)
next
  case True
  obtain q w1 where call: "attempt d StreamUnary ''ReserveStockBulk'' (BulkRq (map bulk_message ls)) w = (q, w1)"
    by fastforce
  then have client: "w' = w1" "r = (case q of Inl c \<Rightarrow> Inl (AioRpcError c)
      | Inr [BulkRp s] \<Rightarrow> Inr s | _ \<Rightarrow> Inl (AioRpcError INTERNAL))"
    using assms(3) True
    by (auto simp: client_reserve_stock_bulk_def stub_call_def SERVICE_CONFIG_def
        split: sum.splits list.splits rpc_response.splits)
  note cut = bulk_cut_view [OF assms(1,2), of d StreamUnary]
  from call show ?thesis
  proof (cases rule: attempt_cases)
    case lost
    then show ?thesis
      using assms(1) client
      by (auto simp: bulk_law_def hold_flagged_none intro!: exI [of _ "replicate (length ls) False"])
  next
    case (reply_lost n c)
    with cut [of n] client show ?thesis by (auto simp: bulk_law_def)
  next
    case delivered
    show ?thesis
    proof (cases "trusted d")
      case False
      with delivered client cut [of "length ls"] show ?thesis
        by (simp add: server_call_ReserveStockBulk bulk_law_def)
    next
      case True
      obtain h db' where h: "ReserveStockBulk_handler (dp_clk d) (map bulk_message ls) (db_of w) = (h, db')"
        by fastforce
      with True delivered client bulk_handler_view [OF assms(1,2) h] show ?thesis
        by (auto simp: server_call_ReserveStockBulk call_result_def bulk_law_def db_of_def)
    qed
  qed
qed

section \<open>The contract holds\<close>

definition inventory_of :: "deployment \<Rightarrow> remote inventory_client" where
  "inventory_of d = \<lparr>reserve_rpc = client_reserve_stock d, release_rpc = client_release_stock d,
     bulk_rpc = client_reserve_stock_bulk d\<rparr>"

interpretation deployed: inventory_contract "inventory_of d" "\<lambda>w. inventory_ok (db_of w)"
    "\<lambda>w. view_of (db_of w)" for d
  by (unfold_locales, unfold inventory_of_def inventory_client.select_convs)
    (rule client_reserve_law client_release_law client_bulk_law; assumption)+

section \<open>A network that delivers\<close>

lemma retries_first:
  "call w = (r, w') \<Longrightarrow> (\<And>c. r = Inl c \<Longrightarrow> c \<notin> set codes) \<Longrightarrow> retries codes call n w = (r, w')"
  by (cases n) (auto split: sum.splits)

lemma stub_delivered:
  assumes "rm_fates w = []" "fst (server_call d kind name request (rm_server w)) \<noteq> Inl UNAVAILABLE"
  shows "stub_call d kind name request w =
    (fst (server_call d kind name request (rm_server w)),
     \<lparr>rm_server = snd (server_call d kind name request (rm_server w)), rm_fates = []\<rparr>)"
proof -
  let ?s = "server_call d kind name request (rm_server w)"
  have first: "attempt d kind name request w = (fst ?s, \<lparr>rm_server = snd ?s, rm_fates = []\<rparr>)"
    using assms(1) by (simp add: attempt_def split_def)
  moreover have "retries [UNAVAILABLE] (attempt d kind name request) n w =
      (fst ?s, \<lparr>rm_server = snd ?s, rm_fates = []\<rparr>)" for n
    by (rule retries_first, rule first) (use assms(2) in auto)
  ultimately show ?thesis by (simp add: stub_call_def SERVICE_CONFIG_def del: retries.simps)
qed

lemma reserve_handler_status:
  "fst (ReserveStock_handler clk q db) = Inl e \<Longrightarrow> wire_status e \<noteq> UNAVAILABLE"
  by (auto simp: ReserveStock_handler_def Let_def split: if_splits sum.splits prod.splits)

abbreviation reserve_handled ::
  "deployment \<Rightarrow> string \<Rightarrow> (int \<times> int) list \<Rightarrow> string \<Rightarrow> inventory_db
     \<Rightarrow> (handler_error + reserve_stock_response) \<times> inventory_db" where
  "reserve_handled d ref items key \<equiv> ReserveStock_handler (dp_clk d) \<lparr>rsr_order_ref = ref,
      rsr_items = map (\<lambda>(pid, qty). \<lparr>pri_product_id = pid, pri_quantity = qty\<rparr>) items,
      rsr_idempotency_key = key\<rparr>"

lemma reserve_delivered:
  assumes "rm_fates w = []" "list_all in_range items" "client_reserve_stock d ref items key w = (r, w')"
  shows "rm_fates w' = []"
    and "db_of w' = (if trusted d then snd (reserve_handled d ref items key (db_of w)) else db_of w)"
    and "r = (if trusted d then map_sum (AioRpcError \<circ> wire_status) id
        (fst (reserve_handled d ref items key (db_of w))) else Inl (AioRpcError UNAUTHENTICATED))"
proof -
  let ?q = "ReserveRq \<lparr>rsr_order_ref = ref,
      rsr_items = map (\<lambda>(pid, qty). \<lparr>pri_product_id = pid, pri_quantity = qty\<rparr>) items,
      rsr_idempotency_key = key\<rparr>"
  have "fst (server_call d UnaryUnary ''ReserveStock'' ?q (rm_server w)) \<noteq> Inl UNAVAILABLE"
    using reserve_handler_status by (auto simp: server_call_ReserveStock call_result_def split: sum.splits)
  note stub = stub_delivered [OF assms(1) this]
  show "rm_fates w' = []"
    and "db_of w' = (if trusted d then snd (reserve_handled d ref items key (db_of w)) else db_of w)"
    and "r = (if trusted d then map_sum (AioRpcError \<circ> wire_status) id
        (fst (reserve_handled d ref items key (db_of w))) else Inl (AioRpcError UNAUTHENTICATED))"
    using assms(2,3) stub
    by (auto simp: client_reserve_stock_def server_call_ReserveStock call_result_def
        simp flip: db_of_def split: sum.splits if_splits)
qed

lemma client_reserve_reliable:
  assumes "inventory_ok (db_of w)" "rm_fates w = [] \<and> trusted d" "ref \<noteq> ''''" "items \<noteq> []"
    and "client_reserve_stock d ref items ref w = (r, w')"
  shows "(rm_fates w' = [] \<and> trusted d) \<and> (\<forall>e. r = Inl e \<longrightarrow> view_of (db_of w') = view_of (db_of w))"
proof (cases "list_all in_range items")
  case False
  with assms show ?thesis by (auto simp: client_reserve_stock_def)
next
  case True
  from assms(2) have net: "rm_fates w = []" "trusted d" by simp_all
  obtain h db' where handled: "reserve_handled d ref items ref (db_of w) = (h, db')" by fastforce
  from assms(1,3,4) handled have "(\<exists>e. h = Inl e) \<Longrightarrow> db' = db_of w"
    by (cases rule: reserve_handler_cases) auto
  with net reserve_delivered [OF net(1) True assms(5)] handled show ?thesis
    by (cases h) auto
qed

lemma client_release_reliable:
  assumes "inventory_ok (db_of w)" "rm_fates w = [] \<and> trusted d" "ref \<noteq> ''''"
    and "client_release_stock d ref w = (r, w')"
  shows "(rm_fates w' = [] \<and> trusted d) \<and> (\<exists>x. r = Inr x)"
proof -
  from assms(1,3) obtain rsp where
    "ReleaseStock_handler \<lparr>rlr_order_ref = ref\<rparr> (db_of w) = (Inr rsp, released ref (db_of w))"
    using release_handler_eq by (auto simp: inventory_ok_def)
  then have reply: "fst (server_call d UnaryUnary ''ReleaseStock'' (ReleaseRq \<lparr>rlr_order_ref = ref\<rparr>)
      (rm_server w)) = Inr [ReleaseRp rsp]"
    using assms(2) by (simp add: server_call_ReleaseStock call_result_def flip: db_of_def)
  with assms(2) have "stub_call d UnaryUnary ''ReleaseStock'' (ReleaseRq \<lparr>rlr_order_ref = ref\<rparr>) w =
      (Inr [ReleaseRp rsp], \<lparr>rm_server = snd (server_call d UnaryUnary ''ReleaseStock''
         (ReleaseRq \<lparr>rlr_order_ref = ref\<rparr>) (rm_server w)), rm_fates = []\<rparr>)"
    using stub_delivered [of w d UnaryUnary "''ReleaseStock''"] by simp
  with assms(2,4) show ?thesis by (auto simp: client_release_stock_def)
qed

lemma client_bulk_reliable:
  assumes "rm_fates w = [] \<and> trusted d" "client_reserve_stock_bulk d ls w = (r, w')"
  shows "rm_fates w' = [] \<and> trusted d"
  using assms
  by (auto simp: client_reserve_stock_bulk_def stub_call_def SERVICE_CONFIG_def attempt_def Let_def
      split: if_splits prod.splits sum.splits list.splits rpc_response.splits)

interpretation reliably: reliable_inventory "inventory_of d" "\<lambda>w. inventory_ok (db_of w)"
    "\<lambda>w. view_of (db_of w)" "\<lambda>w. rm_fates w = [] \<and> trusted d" for d
  by (unfold_locales, unfold inventory_of_def inventory_client.select_convs)
    (rule client_reserve_reliable client_release_reliable client_bulk_reliable; assumption)+

section \<open>Properties\<close>

text \<open>
  C12: transparent retries reserve at most once. Whatever the network does to the (up to four)
  attempts of one reservation under its own reference as key, the inventory afterwards holds
  either what it held before or, once, the requested lines more, taken from what is left of
  their products; the client is told of success only if the reference holds lines, and of a
  refusal only if nothing changed.
\<close>

theorem client_reserve_at_most_once:
  assumes "inventory_ok (db_of w)" "ref \<noteq> ''''" "items \<noteq> []"
    and "client_reserve_stock d ref items ref w = (r, w')"
  shows "\<exists>M \<in> {{#}, mset items}.
      (\<forall>s. lines_of (db_of w') s = lines_of (db_of w) s + (if s = ref then M else {#}))
    \<and> (\<forall>pid. available (db_of w') pid = available (db_of w) pid - line_sum M pid)
    \<and> (case r of Inl e \<Rightarrow> True
       | Inr rsp \<Rightarrow> if rsp_success rsp then lines_of (db_of w') ref \<noteq> {#} else M = {#})"
proof -
  from deployed.reserve [of w ref items d r w'] assms
  have law: "reserve_law ref items (view_of (db_of w)) r (view_of (db_of w'))"
    by (simp add: inventory_of_def)
  then consider (same) "view_of (db_of w') = view_of (db_of w)"
      "\<And>rsp. r = Inr rsp \<Longrightarrow> rsp_success rsp \<Longrightarrow> lines_of (db_of w) ref \<noteq> {#}"
    | (held) "view_of (db_of w') = hold True ref (mset items) (view_of (db_of w))"
      "\<And>rsp. r = Inr rsp \<Longrightarrow> rsp_success rsp"
    using keyed_lines [of "db_of w" ref] assms(1)
    by (cases r) (auto simp: reserve_law_def inventory_ok_def split: if_splits)
  then show ?thesis
  proof cases
    case same
    then have "lines_of (db_of w') = lines_of (db_of w)" "available (db_of w') = available (db_of w)"
      by (simp_all add: view_of_def)
    with same(2) show ?thesis by (auto split: sum.split)
  next
    case held
    from arg_cong [OF held(1), of h_lines] arg_cong [OF held(1), of h_left]
    have "lines_of (db_of w') s = lines_of (db_of w) s + (if s = ref then mset items else {#})"
      "available (db_of w') pid = available (db_of w) pid - line_sum (mset items) pid" for s pid
      by (simp_all add: hold_def)
    with held(2) assms(3) show ?thesis by (auto split: sum.split)
  qed
qed

abbreviation demo_deployment :: deployment where
  "demo_deployment \<equiv> \<lparr>dp_clk = (\<lambda>i. i), dp_others = (\<lambda>_. None), dp_server_token = ''secret'',
     dp_client_token = ''secret''\<rparr>"

abbreviation demo_remote :: "rpc_fate list \<Rightarrow> remote" where
  "demo_remote fates \<equiv> \<lparr>rm_server = \<lparr>app = demo_db, logged = []\<rparr>, rm_fates = fates\<rparr>"

lemma demo_inventory_ok: "inventory_ok (db_of (demo_remote fates))"
  by (simp add: inventory_ok_def demo_db_ok own_keys_def demo_values)

lemma demo_lines: "lines_of demo_db ref = {#}"
  by (simp add: lines_of_def demo_values)

theorem client_reserve_at_most_once_witness:
  "\<exists>w'. snd (client_reserve_stock demo_deployment ''o1'' [(3, 4)] ''o1''
       (demo_remote [Lost 1 UNAVAILABLE, Lost 0 UNAVAILABLE])) = w'
    \<and> (lines_of (db_of w') ''o1'' = {#} \<or> lines_of (db_of w') ''o1'' = {#(3, 4)#})
    \<and> lines_of (db_of w') ''o2'' = {#}"
proof -
  obtain r w' where call: "client_reserve_stock demo_deployment ''o1'' [(3, 4)] ''o1''
       (demo_remote [Lost 1 UNAVAILABLE, Lost 0 UNAVAILABLE]) = (r, w')"
    by fastforce
  from client_reserve_at_most_once [OF demo_inventory_ok _ _ call] show ?thesis
    using call by (auto simp: demo_lines)
qed

text \<open>
  The shared secret, end to end. On a network that delivers, a reservation reaches the
  servicer and returns its answer when the server has no token configured or both sides have
  the same; otherwise it changes nothing and fails as \<open>UNAUTHENTICATED\<close>, which the edge
  reports as 502.
\<close>

theorem client_reserve_authenticated:
  assumes "rm_fates w = []" "list_all in_range items"
  shows "case client_reserve_stock d ref items key w of (r, w') \<Rightarrow>
    if dp_server_token d = '''' \<or> dp_client_token d = dp_server_token d then
      (case ReserveStock_handler (dp_clk d) \<lparr>rsr_order_ref = ref,
          rsr_items = map (\<lambda>(pid, qty). \<lparr>pri_product_id = pid, pri_quantity = qty\<rparr>) items,
          rsr_idempotency_key = key\<rparr> (db_of w) of
         (Inr response, db') \<Rightarrow> r = Inr response \<and> db_of w' = db'
       | (Inl e, db') \<Rightarrow> r = Inl (AioRpcError (wire_status e)) \<and> db_of w' = db')
    else r = Inl (AioRpcError UNAUTHENTICATED) \<and> grpc_to_http_status UNAUTHENTICATED = 502
      \<and> db_of w' = db_of w"
proof -
  obtain r w' where call: "client_reserve_stock d ref items key w = (r, w')" by fastforce
  from reserve_delivered [OF assms call] show ?thesis
    by (auto simp: call trusted_def grpc_to_http_status_def split: prod.splits sum.splits)
qed

theorem client_reserve_authenticated_witness:
  "\<exists>w'. client_reserve_stock (demo_deployment\<lparr>dp_client_token := ''guess''\<rparr>) ''o1'' [(3, 4)] ''o1''
      (demo_remote []) = (Inl (AioRpcError UNAUTHENTICATED), w') \<and> db_of w' = demo_db"
  using client_reserve_authenticated [of "demo_remote []" "[(3, 4)]"
      "demo_deployment\<lparr>dp_client_token := ''guess''\<rparr>" "''o1''" "''o1''"]
  by (auto simp: in_range_def in_int64_def in_int32_def split: prod.splits)

end
