(* ===== verification/OrderSaga.thy ===== *)
theory OrderSaga
  imports OrderRouter RemoteInventory
begin

text \<open>
  The consistency of the two databases that the reserve-then-persist saga keeps without a
  distributed transaction: what the inventory holds for an order reference against what the
  order database has persisted under it. The lemmas rest on the inventory's contract; the
  properties are about the order service wired to the deployed inventory.
\<close>

section \<open>Requests in sequence\<close>

type_synonym order_call = "order_request \<times> order_item_in list \<times> string option"

definition order_step ::
  "'w inventory_client \<Rightarrow> order_call \<Rightarrow> order_db \<times> 'w \<Rightarrow> order http_reply \<times> order_db \<times> 'w" where
  "order_step client = (\<lambda>(rq, payload, key). post_order client rq payload key)"

text \<open>The database of the order service may refuse a lookup or a commit, but does what it says.\<close>

definition clean_faults :: "session_faults \<Rightarrow> bool" where
  "clean_faults f \<longleftrightarrow> \<not> sf_refresh f \<and> \<not> sf_rollback f \<and> sf_commit f \<noteq> CommitUnconfirmed"

definition clean_call :: "order_call \<Rightarrow> bool" where
  "clean_call = (\<lambda>(rq, payload, key). clean_faults (rq_faults rq))"

text \<open>
  Nothing is stranded and nothing is missing: the inventory holds, under every reference,
  exactly the lines of the persisted order, and no lines where no order is persisted.
\<close>

definition consistent :: "order_db \<Rightarrow> holdings \<Rightarrow> bool" where
  "consistent odb V \<longleftrightarrow> (\<forall>ref.
     h_lines V ref = (case session_get ref odb of None \<Rightarrow> {#} | Some ord \<Rightarrow> order_lines ord)
     \<and> (session_get ref odb = None \<longrightarrow> \<not> h_keyed V ref))"

lemma consistent_new:
  assumes "consistent odb V" "session_get ref odb = None"
  shows "h_lines V ref = {#}" "\<not> h_keyed V ref"
  using assms(1) [unfolded consistent_def, rule_format, of ref] assms(2) by simp_all

lemma consistent_hold:
  assumes "consistent odb V" "session_get ref odb = None"
    and "\<And>i. session_get i odb' = (if i = ref then Some ord else session_get i odb)"
  shows "consistent odb' (hold True ref (order_lines ord) V)"
  using assms(1) consistent_new [OF assms(1,2)] by (auto simp: consistent_def assms(3))

definition saga_inv ::
  "('w \<Rightarrow> bool) \<Rightarrow> ('w \<Rightarrow> holdings) \<Rightarrow> ('w \<Rightarrow> bool) \<Rightarrow> order_db \<times> 'w \<Rightarrow> bool" where
  "saga_inv ok view reliable = (\<lambda>(odb, w). ok w \<and> reliable w \<and> odb_ok odb \<and> consistent odb (view w))"

context reliable_inventory
begin

lemma create_order_consistent:
  assumes inv: "saga_inv wf view reliable (odb, w)" and clean: "clean_faults f"
    and req: "payload \<noteq> []" "order_ref_of key uuid = ref" "ref \<noteq> ''''"
    and call: "create_order client f now uuid payload key (odb, w) = (r, odb', w')"
  shows "saga_inv wf view reliable (odb', w')"
proof -
  from inv have ok: "wf w" "odb_ok odb" and rel: "reliable w" and cons: "consistent odb (view w)"
    by (simp_all add: saga_inv_def)
  have items: "line_items payload \<noteq> []" using req(1) by simp
  note reserved = reserve_reliable [OF ok(1) rel req(3) items]
  from ok req call show ?thesis
  proof (cases rule: create_order_cases)
    case refused
    with inv reserved show ?thesis by (auto simp: saga_inv_def)
  next
    case (failed e)
    with inv reserved [OF failed(6)] show ?thesis by (simp add: saga_inv_def)
  next
    case created
    then have "view w' = hold True ref (order_lines (order_of now (build_order ref payload))) (view w)"
      using consistent_new [OF cons created(1)] by simp
    with consistent_hold [OF cons created(1,5)] created(3,4,7) reserved show ?thesis
      by (auto simp: saga_inv_def)
  next
    case (compensated w1 e)
    obtain s w2 where release: "release_rpc client ref w1 = (s, w2)" by fastforce
    have "reliable w1" using compensated(7) reserved by auto
    from release_reliable [OF compensated(4) this req(3) release]
    have rel': "reliable w'" "\<exists>x. s = Inr x"
      using compensated(11) clean release by (auto simp: clean_faults_def)
    have "view w1 = hold True ref (mset (line_items payload)) (view w)"
      using compensated(6) consistent_new [OF cons compensated(1)] by simp
    moreover have "view w' = unhold ref (view w1)"
      using compensated(10) clean release rel'(2) by (auto simp: clean_faults_def)
    ultimately have "view w' = view w"
      using consistent_new [OF cons compensated(1)] by (simp add: unhold_hold)
    with compensated(3,5,8) rel' cons clean ok(2) show ?thesis
      by (auto simp: saga_inv_def clean_faults_def)
  qed (use inv in simp_all)
qed

lemma order_step_consistent:
  assumes "saga_inv wf view reliable s" "clean_call x"
  shows "saga_inv wf view reliable (snd (order_step client x s))"
proof -
  obtain rq payload key where x: "x = (rq, payload, key)" by (cases x)
  obtain odb w where s: "s = (odb, w)" by (cases s)
  show ?thesis
  proof (cases "accepted payload key")
    case False
    with assms(1) show ?thesis by (simp add: x order_step_def post_order_rejected)
  next
    case True
    obtain r odb' w' where call: "create_order client (rq_faults rq) (rq_now rq) (uuid_str (rq_uuid rq 0))
        payload key (odb, w) = (r, odb', w')"
      by (metis prod_cases3)
    have "payload \<noteq> []" using True by (simp add: accepted_def valid_order_def)
    moreover have "request_ref rq key \<noteq> ''''" using request_ref_proper [OF True] by (simp add: proper_ref_def)
    ultimately have "saga_inv wf view reliable (odb', w')"
      using assms call create_order_consistent
      by (simp add: s x clean_call_def request_ref_def)
    with True call show ?thesis by (simp add: x s order_step_def post_order_accepted)
  qed
qed

end

interpretation saga: guarded_machine "order_step (inventory_of d)"
    "saga_inv (\<lambda>w. inventory_ok (db_of w)) (\<lambda>w. view_of (db_of w)) (\<lambda>w. rm_fates w = [] \<and> trusted d)"
    clean_call for d
  by unfold_locales (rule reliably.order_step_consistent)

section \<open>Retries over a network that loses messages\<close>

text \<open>
  Every reference belongs to one body: a client that retries a key sends the same order again.
  Whatever got lost on the way, the reference holds the lines of its body once or not at all,
  and once if its order is persisted.
\<close>

definition covered :: "(string \<Rightarrow> order_item_in list) \<Rightarrow> order_db \<Rightarrow> holdings \<Rightarrow> bool" where
  "covered body odb V \<longleftrightarrow> (\<forall>ref.
     h_lines V ref = (if h_keyed V ref then mset (line_items (body ref)) else {#})
     \<and> (\<forall>ord. session_get ref odb = Some ord \<longrightarrow>
          h_keyed V ref \<and> order_lines ord = mset (line_items (body ref))))"

definition same_body_call :: "(string \<Rightarrow> order_item_in list) \<Rightarrow> order_call \<Rightarrow> bool" where
  "same_body_call body = (\<lambda>(rq, payload, key).
     \<not> sf_refresh (rq_faults rq) \<and> sf_commit (rq_faults rq) \<noteq> CommitUnconfirmed
     \<and> payload = body (request_ref rq key))"

definition retry_inv ::
  "('w \<Rightarrow> bool) \<Rightarrow> ('w \<Rightarrow> holdings) \<Rightarrow> (string \<Rightarrow> order_item_in list) \<Rightarrow> order_db \<times> 'w \<Rightarrow> bool" where
  "retry_inv ok view body = (\<lambda>(odb, w). ok w \<and> odb_ok odb \<and> covered body odb (view w))"

lemma covered_refD:
  assumes "covered body odb V"
  shows "h_lines V ref = (if h_keyed V ref then mset (line_items (body ref)) else {#})"
    and "session_get ref odb = Some ord \<Longrightarrow> h_keyed V ref \<and> order_lines ord = mset (line_items (body ref))"
    and "\<not> h_keyed V ref \<Longrightarrow> session_get ref odb = None"
  using assms unfolding covered_def by (blast, blast, metis not_None_eq)

lemma covered_held:
  assumes "covered body odb V"
    and "V' = (if h_keyed V ref then V else hold True ref (mset (line_items (body ref))) V)"
  shows "covered body odb V'"
    and "(\<And>i. session_get i odb' = (if i = ref then Some ord else session_get i odb)) \<Longrightarrow>
      order_lines ord = mset (line_items (body ref)) \<Longrightarrow> covered body odb' V'"
  using covered_refD [OF assms(1)] assms(2) by (auto simp: covered_def)

lemma covered_unheld:
  assumes "covered body odb V" "session_get ref odb = None"
  shows "covered body odb (unhold ref V)"
  using covered_refD [OF assms(1)] assms(2) by (auto simp: covered_def)

context inventory_contract
begin

lemma create_order_covered:
  assumes inv: "retry_inv wf view body (odb, w)"
    and clean: "\<not> sf_refresh f" "sf_commit f \<noteq> CommitUnconfirmed"
    and req: "body ref \<noteq> []" "order_ref_of key uuid = ref" "ref \<noteq> ''''"
    and call: "create_order client f now uuid (body ref) key (odb, w) = (r, odb', w')"
  shows "retry_inv wf view body (odb', w')"
proof -
  from inv have ok: "wf w" "odb_ok odb" and cov: "covered body odb (view w)"
    by (simp_all add: retry_inv_def)
  from ok req call show ?thesis
  proof (cases rule: create_order_cases)
    case (failed e)
    with inv covered_held(1) [OF cov, of "view w'" ref] show ?thesis by (auto simp: retry_inv_def)
  next
    case created
    with covered_held(2) [OF cov created(6,5)] show ?thesis by (simp add: retry_inv_def)
  next
    case (compensated w1 e)
    from compensated(8) clean have "odb' = odb" by auto
    moreover have "covered body odb (view w1)" using covered_held(1) [OF cov compensated(6)] .
    ultimately show ?thesis
      using compensated(1,3,5,10) covered_unheld by (auto simp: retry_inv_def)
  qed (use inv in \<open>simp_all add: retry_inv_def\<close>)
qed

lemma order_step_covered:
  assumes "retry_inv wf view body s" "same_body_call body x"
  shows "retry_inv wf view body (snd (order_step client x s))"
proof -
  obtain rq payload key where x: "x = (rq, payload, key)" by (cases x)
  obtain odb w where s: "s = (odb, w)" by (cases s)
  show ?thesis
  proof (cases "accepted payload key")
    case False
    with assms(1) show ?thesis by (simp add: x order_step_def post_order_rejected)
  next
    case True
    let ?ref = "request_ref rq key"
    have body: "payload = body ?ref" using assms(2) by (simp add: x same_body_call_def)
    obtain r odb' w' where call: "create_order client (rq_faults rq) (rq_now rq) (uuid_str (rq_uuid rq 0))
        payload key (odb, w) = (r, odb', w')"
      by (metis prod_cases3)
    have ne: "body ?ref \<noteq> []" using True body by (simp add: accepted_def valid_order_def)
    have clean: "\<not> sf_refresh (rq_faults rq)" "sf_commit (rq_faults rq) \<noteq> CommitUnconfirmed"
      using assms(2) by (simp_all add: x same_body_call_def)
    have "?ref \<noteq> ''''" using request_ref_proper [OF True] by (simp add: proper_ref_def)
    from assms(1) [unfolded s] clean ne request_ref_def [symmetric] this call [unfolded body]
    have "retry_inv wf view body (odb', w')" by (rule create_order_covered)
    with True call show ?thesis by (simp add: x s order_step_def post_order_accepted)
  qed
qed

end

interpretation retried: guarded_machine "order_step (inventory_of d)"
    "retry_inv (\<lambda>w. inventory_ok (db_of w)) (\<lambda>w. view_of (db_of w)) body" "same_body_call body" for d body
  by unfold_locales (rule deployed.order_step_covered)

lemmas deployed_create_order_cases
  [consumes 6, case_names get_failed replayed refused failed created compensated] =
  inventory_contract.create_order_cases [OF deployed.inventory_contract_axioms]

section \<open>When the reservation succeeds\<close>

abbreviation reserve_items :: "(int \<times> int) list \<Rightarrow> reserve_item list" where
  "reserve_items items \<equiv> map (\<lambda>(pid, qty). \<lparr>ri_product = pid, ri_quantity = qty\<rparr>) items"

lemma reserve_handled_eq:
  assumes "ref \<noteq> ''''" "items \<noteq> []"
  shows "reserve_handled d ref items key db =
    (case reserve_stock (dp_clk d) ref (reserve_items items) key db of
       (Inl e, db') \<Rightarrow> (Inl (Uncaught e), db')
     | (Inr out, db') \<Rightarrow> (Inr \<lparr>rsp_success = ro_success out, rsp_results =
          map (\<lambda>x. \<lparr>pio_product_id = io_product x, pio_reserved = io_reserved x,
            pio_reason = io_reason x\<rparr>) (ro_results out)\<rparr>, db'))"
proof -
  have conv: "map ((\<lambda>item. \<lparr>ri_product = pri_product_id item, ri_quantity = pri_quantity item\<rparr>) \<circ>
      (\<lambda>(pid, qty). \<lparr>pri_product_id = pid, pri_quantity = qty\<rparr>)) items = reserve_items items"
    by (rule map_cong) auto
  from assms show ?thesis by (simp add: ReserveStock_handler_def conv)
qed

lemma need_distinct:
  "distinct (map ri_product items) \<Longrightarrow> i \<in> set items \<Longrightarrow> need items (ri_product i) = ri_quantity i"
  by (induction items) (auto simp: need_absent image_iff)

text \<open>What an order needs of the inventory to be granted, besides distinct products.\<close>

definition stocked :: "order_item_in list \<Rightarrow> inventory_db \<Rightarrow> bool" where
  "stocked payload db \<longleftrightarrow> feasible (reserve_items (line_items payload)) db"

definition storable :: "order_item_in list \<Rightarrow> bool" where
  "storable payload \<longleftrightarrow> list_all (\<lambda>i. in_int4 (in_product_id i) \<and> in_int4 (in_quantity i)) payload"

lemma storable_in_range: "storable payload \<Longrightarrow> list_all in_range (line_items payload)"
  by (auto simp: storable_def line_items_def list_all_iff in_range_def in_int64_def in_int32_def
      in_int4_def max_int4_def)

lemma stocked_distinct:
  assumes "distinct (map in_product_id payload)" "valid_order payload"
    and "\<forall>i \<in> set payload. known db (in_product_id i) \<and> in_quantity i \<le> available db (in_product_id i)"
  shows "stocked payload db"
proof -
  let ?items = "reserve_items (line_items payload)"
  have items: "?items = map (\<lambda>i. \<lparr>ri_product = in_product_id i, ri_quantity = in_quantity i\<rparr>) payload"
    by (simp add: line_items_def)
  have "distinct (map ri_product ?items)" using assms(1) by (simp add: items comp_def)
  from need_distinct [OF this] assms(2,3) show ?thesis
    by (auto simp: stocked_def feasible_def items valid_order_def valid_item_def list_all_iff)
qed

lemma reserve_phase_delivered:
  assumes "inventory_ok (db_of w)" "rm_fates w = []" "trusted d"
    and "payload \<noteq> []" "proper_ref ref" "\<not> keyed ref (db_of w)" "storable payload" "stocked payload (db_of w)"
  shows "if distinct (map in_product_id payload)
    then \<exists>w'. reserve_phase (inventory_of d) ref (line_items payload) w = (Inr (), w')
    else \<exists>w' results. reserve_phase (inventory_of d) ref (line_items payload) w =
        (Inl (HTTPException 409 (Refusal results)), w') \<and> db_of w' = db_of w"
proof -
  let ?items = "reserve_items (line_items payload)"
  obtain r w' where call: "client_reserve_stock d ref (line_items payload) ref w = (r, w')" by fastforce
  from assms(1,5,6,8) have db: "db_ok (db_of w)" "fits ref" "ref \<noteq> ''''" "replayed ref (db_of w) = []"
      "feasible ?items (db_of w)"
    by (simp_all add: inventory_ok_def proper_ref_def keyed_def stocked_def)
  have items: "?items \<noteq> []" "line_items payload \<noteq> []" using assms(4) by simp_all
  have dist: "distinct (map ri_product ?items) = distinct (map in_product_id payload)"
    by (simp add: line_items_def comp_def)
  have reply: "r = map_sum (AioRpcError \<circ> wire_status) id
      (fst (reserve_handled d ref (line_items payload) ref (db_of w)))"
    "db_of w' = snd (reserve_handled d ref (line_items payload) ref (db_of w))"
    using reserve_delivered [OF assms(2) storable_in_range [OF assms(7)] call] assms(3) by simp_all
  have rpc: "reserve_rpc (inventory_of d) ref (line_items payload) ref w = (r, w')"
    using call by (simp add: inventory_of_def)
  show ?thesis
  proof (cases "distinct (map in_product_id payload)")
    case True
    then have "\<exists>out. r = Inr out \<and> rsp_success out"
      using reserve_stock_granted [OF db(1,2,2) items(1) db(4,5)] dist reply(1)
      by (simp add: reserve_handled_eq [OF db(3) items(2)])
    with True rpc show ?thesis by (auto simp: reserve_phase_def)
  next
    case False
    then have "\<not> (feasible ?items (db_of w) \<and> (ref = '''' \<or> distinct (map ri_product ?items)))"
      using db(3) dist by simp
    from db(1,2,2,4) this obtain rs where "reserve_stock (dp_clk d) ref ?items ref (db_of w) =
        (Inr \<lparr>ro_success = False, ro_results = rs\<rparr>, db_of w)"
      by (rule reserve_stock_refused)
    with reply have "\<exists>out. r = Inr out \<and> \<not> rsp_success out" "db_of w' = db_of w"
      by (simp_all add: reserve_handled_eq [OF db(3) items(2)])
    with False rpc show ?thesis by (auto simp: reserve_phase_def)
  qed
qed

lemma persist_phase_succeeds:
  assumes "odb_ok odb" "session_get ref odb = None" "storable payload"
  shows "\<exists>ord odb'. persist_phase no_faults now (build_order ref payload) odb = (Some ord, odb')"
proof -
  have "list_all (\<lambda>x. in_int4 (oi_product_id x) \<and> in_int4 (oi_quantity x)) (no_items (build_order ref payload))"
    using assms(3) by (simp add: storable_def build_order_def list_all_iff)
  then obtain odb' where ins: "order_insert now (build_order ref payload) odb = Inr odb'"
    using assms(2) by (auto simp: order_insert_def session_get_None)
  with order_insert_Inr(3) [OF ins assms(1), of ref] show ?thesis
    by (simp add: persist_phase_def session_commit_def)
qed

lemma post_order_delivered:
  assumes "inventory_ok (db_of w)" "rm_fates w = []" "trusted d" "odb_ok odb"
    and "accepted payload key" "rq_faults rq = no_faults"
    and "session_get (request_ref rq key) odb = None" "\<not> keyed (request_ref rq key) (db_of w)"
    and "storable payload" "stocked payload (db_of w)"
  shows "if distinct (map in_product_id payload)
    then \<exists>ord s. post_order (inventory_of d) rq payload key (odb, w) = (Reply 201 ord, s)
    else \<exists>results w'. post_order (inventory_of d) rq payload key (odb, w) =
        (Error 409 (Some (Refusal results)), odb, w') \<and> db_of w' = db_of w"
proof -
  let ?ref = "request_ref rq key"
  have ne: "payload \<noteq> []" using assms(5) by (simp add: accepted_def valid_order_def)
  obtain ord odb' where persist: "persist_phase no_faults (rq_now rq) (build_order ?ref payload) odb = (Some ord, odb')"
    using persist_phase_succeeds [OF assms(4,7,9)] by blast
  note reserve = reserve_phase_delivered [OF assms(1-3) ne request_ref_proper [OF assms(5)] assms(8-10)]
  have ref: "order_ref_of key (uuid_str (rq_uuid rq 0)) = ?ref" by (simp add: request_ref_def)
  show ?thesis
  proof (cases "distinct (map in_product_id payload)")
    case True
    with reserve obtain w' where "reserve_phase (inventory_of d) ?ref (line_items payload) w = (Inr (), w')"
      by auto
    with True assms(6,7) persist show ?thesis
      by (simp add: post_order_accepted [OF assms(5)] create_order_def ref http_reply_of_def)
  next
    case False
    with reserve obtain w' results where "reserve_phase (inventory_of d) ?ref (line_items payload) w =
        (Inl (HTTPException 409 (Refusal results)), w')" "db_of w' = db_of w"
      by auto
    with False assms(6,7) show ?thesis
      by (simp add: post_order_accepted [OF assms(5)] create_order_def ref http_reply_of_def)
  qed
qed

section \<open>Properties\<close>

text \<open>
  C3: nothing is stranded, nothing is missing. Take any sequence of \<^verbatim>\<open>POST /orders\<close> requests, with
  keys repeated or not, bodies valid or not, stock sufficient or not, and database lookups or
  commits that fail, on a network that delivers. If the inventory held exactly the lines of the
  persisted orders before, it does so after: every line held under a reference is a line of its
  order, and a reference without an order holds nothing.
\<close>

theorem saga_consistent:
  assumes "inventory_ok (db_of w)" "rm_fates w = []" "trusted d" "odb_ok odb"
    and "consistent odb (view_of (db_of w))" "list_all clean_call calls"
    and "snd (run_ops (order_step (inventory_of d)) calls (odb, w)) = (odb', w')"
  shows "lines_of (db_of w') ref =
      (case session_get ref odb' of None \<Rightarrow> {#} | Some ord \<Rightarrow> order_lines ord)"
proof -
  let ?inv = "saga_inv (\<lambda>w. inventory_ok (db_of w)) (\<lambda>w. view_of (db_of w)) (\<lambda>w. rm_fates w = [] \<and> trusted d)"
  from assms(1-5) have "?inv (odb, w)" by (simp add: saga_inv_def)
  from saga.inv_allowed_run [OF this assms(6)] have "consistent odb' (view_of (db_of w'))"
    by (simp add: assms(7) saga_inv_def)
  from this [unfolded consistent_def, rule_format, of ref] show ?thesis by simp
qed

abbreviation no_orders :: order_db where
  "no_orders \<equiv> \<lparr>order_rows = [], item_rows = [], item_seq = 1\<rparr>"

abbreviation item_in :: "int \<Rightarrow> int \<Rightarrow> order_item_in" where
  "item_in pid qty \<equiv> \<lparr>in_product_id = pid, in_quantity = qty\<rparr>"

abbreviation quiet_request :: "nat \<Rightarrow> order_request" where
  "quiet_request n \<equiv> \<lparr>rq_faults = no_faults, rq_now = 0, rq_uuid = (\<lambda>k. n + k)\<rparr>"

lemma no_orders_ok: "odb_ok no_orders" "session_get ref no_orders = None"
  by (simp_all add: odb_ok_def session_get_def)

lemma demo_view: "h_lines (view_of demo_db) ref = {#}" "\<not> h_keyed (view_of demo_db) ref"
  by (simp_all add: demo_lines keyed_def demo_fresh)

lemma demo_consistent: "consistent no_orders (view_of demo_db)"
  using demo_view by (simp add: consistent_def no_orders_ok)

theorem saga_consistent_witness:
  "\<exists>odb' w'. snd (run_ops (order_step (inventory_of demo_deployment))
        [(quiet_request 7, [item_in 3 4, item_in 1 2], Some ''k1''),
         ((quiet_request 8)\<lparr>rq_faults := no_faults\<lparr>sf_commit := CommitFails\<rparr>\<rparr>, [item_in 3 4], None)]
        (no_orders, demo_remote [])) = (odb', w')
    \<and> lines_of (db_of w') ''k1'' =
        (case session_get ''k1'' odb' of None \<Rightarrow> {#} | Some ord \<Rightarrow> order_lines ord)"
proof -
  let ?calls = "[(quiet_request 7, [item_in 3 4, item_in 1 2], Some ''k1''),
     ((quiet_request 8)\<lparr>rq_faults := no_faults\<lparr>sf_commit := CommitFails\<rparr>\<rparr>, [item_in 3 4], None)]"
  obtain odb' w' where run: "snd (run_ops (order_step (inventory_of demo_deployment)) ?calls
      (no_orders, demo_remote [])) = (odb', w')"
    by fastforce
  have "list_all clean_call ?calls" by (simp add: clean_call_def clean_faults_def)
  from saga_consistent [OF demo_inventory_ok _ _ no_orders_ok(1) _ this run, of "''k1''"]
  have "lines_of (db_of w') ''k1'' =
      (case session_get ''k1'' odb' of None \<Rightarrow> {#} | Some ord \<Rightarrow> order_lines ord)"
    by (simp add: trusted_def demo_consistent)
  with run show ?thesis by blast
qed

text \<open>
  C4: retries over a network that loses messages. Let every key always come with the same body,
  let requests and replies get lost or time out in any way, and let commits fail. Then at any
  time the inventory holds, under each reference, the lines of its body exactly once or not at
  all, and the order that is persisted under a reference is its body, held exactly once.
\<close>

theorem retries_hold_once:
  assumes "inventory_ok (db_of w)" "odb_ok odb" "covered body odb (view_of (db_of w))"
    and "list_all (same_body_call body) calls"
    and "snd (run_ops (order_step (inventory_of d)) calls (odb, w)) = (odb', w')"
  shows "lines_of (db_of w') ref \<in> {{#}, mset (line_items (body ref))}
    \<and> (case session_get ref odb' of None \<Rightarrow> True
       | Some ord \<Rightarrow> lines_of (db_of w') ref = order_lines ord
           \<and> order_lines ord = mset (line_items (body ref)))"
proof -
  let ?inv = "retry_inv (\<lambda>w. inventory_ok (db_of w)) (\<lambda>w. view_of (db_of w)) body"
  from assms(1-3) have "?inv (odb, w)" by (simp add: retry_inv_def)
  from retried.inv_allowed_run [OF this assms(4), of d] have "covered body odb' (view_of (db_of w'))"
    by (simp add: assms(5) retry_inv_def)
  from covered_refD [OF this, of ref] show ?thesis by (auto split: option.split)
qed

lemma demo_covered: "covered body no_orders (view_of demo_db)"
  using demo_view by (simp add: covered_def no_orders_ok)

theorem retries_hold_once_witness:
  "\<exists>odb' w'. snd (run_ops (order_step (inventory_of demo_deployment))
        [(quiet_request 7, [item_in 3 4], Some ''k1''), (quiet_request 8, [item_in 3 4], Some ''k1'')]
        (no_orders, demo_remote [Lost 1 DEADLINE_EXCEEDED])) = (odb', w')
    \<and> lines_of (db_of w') ''k1'' \<in> {{#}, {#(3, 4)#}}"
proof -
  let ?calls = "[(quiet_request 7, [item_in 3 4], Some ''k1''), (quiet_request 8, [item_in 3 4], Some ''k1'')]"
  let ?body = "\<lambda>_. [item_in 3 4]"
  obtain odb' w' where run: "snd (run_ops (order_step (inventory_of demo_deployment)) ?calls
      (no_orders, demo_remote [Lost 1 DEADLINE_EXCEEDED])) = (odb', w')"
    by fastforce
  have "list_all (same_body_call ?body) ?calls" by (simp add: same_body_call_def)
  moreover have "covered ?body no_orders (view_of (db_of (demo_remote [Lost 1 DEADLINE_EXCEEDED])))"
    by (simp add: demo_covered)
  ultimately have "lines_of (db_of w') ''k1'' \<in> {{#}, {#(3, 4)#}}"
    using retries_hold_once [OF demo_inventory_ok no_orders_ok(1) _ _ run, of ?body "''k1''"]
    by (simp add: line_items_def)
  with run show ?thesis by blast
qed

text \<open>
  C10: a created order. When \<^verbatim>\<open>POST /orders\<close> answers 201 for a reference that was neither persisted
  nor reserved under a key before, in whatever environment, the order returned is the body under
  that reference, it can be read back, all other orders are as before; the inventory holds the
  body's lines under the reference in addition, took their quantities from what is left, and
  holds for others what it held.
\<close>

theorem created_order_is_held:
  assumes "inventory_ok (db_of w)" "odb_ok odb"
    and "session_get (request_ref rq key) odb = None" "\<not> keyed (request_ref rq key) (db_of w)"
    and "post_order (inventory_of d) rq payload key (odb, w) = (Reply code ord, odb', w')"
  shows "code = 201 \<and> o_id ord = request_ref rq key
    \<and> map (\<lambda>i. (oi_product_id i, oi_quantity i)) (o_items ord) = line_items payload
    \<and> get_order no_faults (request_ref rq key) odb' = Inr ord
    \<and> (\<forall>ref. session_get ref odb' = (if ref = request_ref rq key then Some ord else session_get ref odb))
    \<and> (\<forall>ref. lines_of (db_of w') ref = lines_of (db_of w) ref
          + (if ref = request_ref rq key then mset (line_items payload) else {#}))
    \<and> (\<forall>pid. available (db_of w') pid = available (db_of w) pid - line_sum (mset (line_items payload)) pid)"
proof -
  let ?ref = "request_ref rq key"
  have acc: "accepted payload key"
    using assms(5) by (auto simp: post_order_def accepted_def split: if_splits option.splits)
  obtain r s where call: "create_order (inventory_of d) (rq_faults rq) (rq_now rq) (uuid_str (rq_uuid rq 0))
      payload key (odb, w) = (r, s)"
    by (metis surj_pair)
  have ok: "code = 201" "r = Inr ord" "s = (odb', w')"
    using assms(5) acc call
    by (auto simp: post_order_accepted http_reply_of_def split: sum.splits api_error.splits)
  have ref: "order_ref_of key (uuid_str (rq_uuid rq 0)) = ?ref" "?ref \<noteq> ''''" "payload \<noteq> []"
    using request_ref_proper [OF acc, of rq] acc
    by (simp_all add: request_ref_def proper_ref_def accepted_def valid_order_def)
  from assms(1,2) ref(3,1,2) call [unfolded ok(2,3)] show ?thesis
  proof (cases rule: deployed_create_order_cases)
    case created
    from created(6) assms(4)
    have "view_of (db_of w') = hold True ?ref (mset (line_items payload)) (view_of (db_of w))" by simp
    from arg_cong [OF this, of h_lines] arg_cong [OF this, of h_left]
    have "lines_of (db_of w') r = lines_of (db_of w) r + (if r = ?ref then mset (line_items payload) else {#})"
      "available (db_of w') pid = available (db_of w) pid - line_sum (mset (line_items payload)) pid" for r pid
      by (simp_all add: hold_def)
    with created(2,5) ok(1) show ?thesis
      by (simp add: get_order_def order_of_def build_order_def line_items_def comp_def)
  qed (use assms(3) in simp_all)
qed

lemma demo_stocked: "stocked [item_in 3 4, item_in 1 2] demo_db"
  by (rule stocked_distinct) (simp_all add: valid_order_def valid_item_def demo_values)

lemma demo_post:
  "\<exists>ord s. post_order (inventory_of demo_deployment) (quiet_request 7) [item_in 3 4, item_in 1 2]
     (Some ''k1'') (no_orders, demo_remote []) = (Reply 201 ord, s)"
proof -
  have "\<not> keyed (request_ref (quiet_request 7) (Some ''k1'')) (db_of (demo_remote []))"
    by (simp add: keyed_def demo_fresh)
  from post_order_delivered [OF demo_inventory_ok _ _ no_orders_ok(1) _ _ no_orders_ok(2) this,
      of demo_deployment "[item_in 3 4, item_in 1 2]"]
  show ?thesis
    by (simp add: trusted_def accepted_def valid_order_def valid_item_def storable_def in_int4_def
        max_int4_def demo_stocked)
qed

theorem created_order_is_held_witness:
  "\<exists>ord odb' w'. post_order (inventory_of demo_deployment) (quiet_request 7) [item_in 3 4, item_in 1 2]
      (Some ''k1'') (no_orders, demo_remote []) = (Reply 201 ord, odb', w')
    \<and> get_order no_faults ''k1'' odb' = Inr ord \<and> lines_of (db_of w') ''k1'' = {#(3, 4), (1, 2)#}
    \<and> available (db_of w') 3 = 6"
proof -
  from demo_post obtain ord odb' w' where post: "post_order (inventory_of demo_deployment) (quiet_request 7)
      [item_in 3 4, item_in 1 2] (Some ''k1'') (no_orders, demo_remote []) = (Reply 201 ord, odb', w')"
    by auto
  have ref: "request_ref (quiet_request 7) (Some ''k1'') = ''k1''"
    by (simp add: request_ref_def order_ref_of_def)
  from created_order_is_held [OF demo_inventory_ok no_orders_ok(1) no_orders_ok(2) _ post]
  have "get_order no_faults ''k1'' odb' = Inr ord" "lines_of (db_of w') ''k1'' = {#(3, 4), (1, 2)#}"
    "available (db_of w') 3 = 6"
    by (simp_all add: ref keyed_def demo_fresh demo_lines line_items_def demo_values)
  with post show ?thesis by blast
qed

text \<open>
  C18: the answer of \<^verbatim>\<open>POST /orders\<close> when everything is up and there is stock. An accepted body
  of a fresh reference, whose lines fit the columns and the stock of their products, is answered
  with 201, unless a product occurs in two lines: then it is refused with 409 and nothing
  changes, although the stock suffices.
\<close>

theorem stocked_order_answer:
  assumes "inventory_ok (db_of w)" "rm_fates w = []" "trusted d" "odb_ok odb"
    and "accepted payload key" "rq_faults rq = no_faults"
    and "session_get (request_ref rq key) odb = None" "\<not> keyed (request_ref rq key) (db_of w)"
    and "storable payload" "stocked payload (db_of w)"
  shows "case post_order (inventory_of d) rq payload key (odb, w) of
      (Reply code ord, s) \<Rightarrow> code = 201 \<and> distinct (map in_product_id payload)
    | (Error code detail, odb', w') \<Rightarrow> code = 409 \<and> \<not> distinct (map in_product_id payload)
        \<and> odb' = odb \<and> db_of w' = db_of w"
  using post_order_delivered [OF assms] by (auto split: if_splits)

theorem stocked_order_answer_witness:
  "\<exists>detail w'. post_order (inventory_of demo_deployment) (quiet_request 7) [item_in 1 2, item_in 1 3]
      None (no_orders, demo_remote []) = (Error 409 detail, no_orders, w') \<and> db_of w' = demo_db"
proof -
  have "stocked [item_in 1 2, item_in 1 3] demo_db"
    by (simp add: stocked_def feasible_def line_items_def demo_values)
  moreover have "\<not> keyed (request_ref (quiet_request 7) None) (db_of (demo_remote []))"
    by (simp add: keyed_def demo_fresh)
  ultimately show ?thesis
    using stocked_order_answer [OF demo_inventory_ok _ _ no_orders_ok(1) _ _ no_orders_ok(2),
        of "[]" demo_deployment "[item_in 1 2, item_in 1 3]" None "quiet_request 7"]
    by (auto simp: trusted_def accepted_def valid_order_def valid_item_def storable_def in_int4_def
        max_int4_def split: prod.splits http_reply.splits)
qed

subsection \<open>Errors\<close>

lemma grpc_to_http_status_range: "grpc_to_http_status code \<in> {502, 503, 504}"
  by (cases code) (simp_all add: grpc_to_http_status_def)

text \<open>
  C16: what an error answer of \<^verbatim>\<open>POST /orders\<close> means, in whatever environment. The status is one of
  400, 409, 422, 500, 502, 503 and 504. After a 400, 409 or 422 nothing has changed in either
  service. After a 502, 503 or 504 the order is not persisted, and the inventory holds either
  what it held or, in addition, the order's lines under its reference (the reply got lost).
\<close>

theorem post_order_errors:
  assumes "inventory_ok (db_of w)" "odb_ok odb"
    and "post_order (inventory_of d) rq payload key (odb, w) = (Error code detail, odb', w')"
  shows "code \<in> {400, 409, 422, 500, 502, 503, 504}
    \<and> (code \<in> {400, 409, 422} \<longrightarrow> odb' = odb \<and> view_of (db_of w') = view_of (db_of w))
    \<and> (code \<in> {502, 503, 504} \<longrightarrow> odb' = odb \<and> view_of (db_of w') \<in> {view_of (db_of w),
         hold True (request_ref rq key) (mset (line_items payload)) (view_of (db_of w))})"
proof (cases "accepted payload key")
  case False
  with assms(3) post_order_rejected [OF False, of "inventory_of d" rq "(odb, w)"] show ?thesis
    by (auto simp: post_order_def accepted_def split: if_splits option.splits)
next
  case acc: True
  let ?ref = "request_ref rq key"
  obtain r odb1 w1 where call: "create_order (inventory_of d) (rq_faults rq) (rq_now rq)
      (uuid_str (rq_uuid rq 0)) payload key (odb, w) = (r, odb1, w1)"
    by (metis prod_cases3)
  have s: "odb' = odb1" "w' = w1" and answer: "http_reply_of 201 r = Error code detail"
    using assms(3) acc call by (simp_all add: post_order_accepted)
  have ref: "order_ref_of key (uuid_str (rq_uuid rq 0)) = ?ref" "?ref \<noteq> ''''" "payload \<noteq> []"
    using request_ref_proper [OF acc, of rq] acc
    by (simp_all add: request_ref_def proper_ref_def accepted_def valid_order_def)
  from assms(1,2) ref(3,1,2) call show ?thesis
  proof (cases rule: deployed_create_order_cases)
    case (failed e)
    have "code \<in> {500, 502, 503, 504}"
      using answer failed(2) grpc_to_http_status_range
      by (cases e) (auto simp: http_reply_of_def rpc_error_def)
    with failed(3,5) s show ?thesis by auto
  next
    case (refused results)
    then have "code = 409" using answer by (simp add: http_reply_of_def)
    with refused(3,5) s show ?thesis by simp
  next
    case get_failed
    then have "code = 500" using answer by (simp add: http_reply_of_def)
    then show ?thesis by simp
  next
    case (compensated w2 e)
    then have "code = 500" using answer by (auto simp: http_reply_of_def)
    then show ?thesis by simp
  qed (use answer in \<open>simp_all add: http_reply_of_def\<close>)
qed

theorem post_order_errors_witness:
  "\<exists>code detail odb' w'. post_order (inventory_of (demo_deployment\<lparr>dp_client_token := ''guess''\<rparr>))
      (quiet_request 7) [item_in 3 4] (Some ''k1'') (no_orders, demo_remote []) =
      (Error code detail, odb', w')
    \<and> (code \<in> {400, 409, 422} \<longrightarrow> odb' = no_orders)"
proof -
  let ?d = "demo_deployment\<lparr>dp_client_token := ''guess''\<rparr>"
  obtain r w' where call: "client_reserve_stock ?d ''k1'' [(3, 4)] ''k1'' (demo_remote []) = (r, w')"
    by fastforce
  have "r = Inl (AioRpcError UNAUTHENTICATED)"
    using reserve_delivered(3) [OF _ _ call]
    by (simp add: trusted_def in_range_def in_int64_def in_int32_def)
  then have post: "post_order (inventory_of ?d) (quiet_request 7) [item_in 3 4] (Some ''k1'')
      (no_orders, demo_remote []) = (Error 502 (Some (Text ''inventory unavailable: UNAUTHENTICATED'')), no_orders, w')"
    using call
    by (simp add: post_order_accepted accepted_def valid_order_def valid_item_def create_order_def
        order_ref_of_def no_orders_ok(2) reserve_phase_def inventory_of_def line_items_def
        http_reply_of_def rpc_error_def grpc_to_http_status_def)
  from post_order_errors [OF demo_inventory_ok no_orders_ok(1) post]
  have "(502::int) \<in> {400, 409, 422} \<longrightarrow> no_orders = no_orders" by simp
  with post post_order_errors [OF demo_inventory_ok no_orders_ok(1) post] show ?thesis by blast
qed

text \<open>
  C17: a created order is idempotent under its reference. Once \<^verbatim>\<open>POST /orders\<close> has answered 201 with
  an order, every further accepted request with that reference is answered with the same order
  and touches neither database nor inventory, whatever its body, unless the lookup itself fails.
\<close>

theorem post_order_idempotent:
  assumes "inventory_ok (db_of w)" "odb_ok odb"
    and "post_order (inventory_of d) rq payload key (odb, w) = (Reply code ord, odb', w')"
    and "accepted payload' key'" "request_ref rq' key' = request_ref rq key" "\<not> sf_get (rq_faults rq')"
  shows "post_order (inventory_of d) rq' payload' key' (odb', w') = (Reply 201 ord, odb', w')"
proof -
  let ?ref = "request_ref rq key"
  have acc: "accepted payload key"
    using assms(3) by (auto simp: post_order_def accepted_def split: if_splits option.splits)
  obtain r s where call: "create_order (inventory_of d) (rq_faults rq) (rq_now rq) (uuid_str (rq_uuid rq 0))
      payload key (odb, w) = (r, s)"
    by (metis surj_pair)
  have ok: "r = Inr ord" "s = (odb', w')"
    using assms(3) acc call
    by (auto simp: post_order_accepted http_reply_of_def split: sum.splits api_error.splits)
  have ref: "order_ref_of key (uuid_str (rq_uuid rq 0)) = ?ref" "?ref \<noteq> ''''" "payload \<noteq> []"
    using request_ref_proper [OF acc, of rq] acc
    by (simp_all add: request_ref_def proper_ref_def accepted_def valid_order_def)
  from assms(1,2) ref(3,1,2) call [unfolded ok] have "session_get ?ref odb' = Some ord"
    by (cases rule: deployed_create_order_cases) simp_all
  with assms(5,6) show ?thesis
    by (simp add: post_order_accepted [OF assms(4)] create_order_def request_ref_def http_reply_of_def)
qed

theorem post_order_idempotent_witness:
  "\<exists>ord s. post_order (inventory_of demo_deployment) (quiet_request 7) [item_in 3 4, item_in 1 2]
      (Some ''k1'') (no_orders, demo_remote []) = (Reply 201 ord, s)
    \<and> post_order (inventory_of demo_deployment) (quiet_request 9) [item_in 2 50] (Some ''k1'') s =
        (Reply 201 ord, s)"
proof -
  from demo_post obtain ord odb' w' where post: "post_order (inventory_of demo_deployment) (quiet_request 7)
      [item_in 3 4, item_in 1 2] (Some ''k1'') (no_orders, demo_remote []) = (Reply 201 ord, odb', w')"
    by auto
  have "accepted [item_in 2 50] (Some ''k1'')" by (simp add: accepted_def valid_order_def valid_item_def)
  from post_order_idempotent [OF demo_inventory_ok no_orders_ok(1) post this, of "quiet_request 9"] post
  show ?thesis by (auto simp: request_ref_def order_ref_of_def)
qed

text \<open>
  C27: a refresh that fails after the commit. The order is durable by then, but the \<^verbatim>\<open>try\<close> covers
  \<^verbatim>\<open>add\<close>, \<^verbatim>\<open>commit\<close> and \<^verbatim>\<open>refresh\<close> alike, and the rollback cannot undo a commit: the caller is told
  that the order could not be persisted, the order can be read back, and the stock it needs has
  been released.
\<close>

theorem refresh_failure_releases_persisted_order:
  assumes "inventory_ok (db_of w)" "rm_fates w = []" "trusted d" "odb_ok odb"
    and "accepted payload key" "rq_faults rq = no_faults\<lparr>sf_refresh := True\<rparr>"
    and "session_get (request_ref rq key) odb = None" "\<not> keyed (request_ref rq key) (db_of w)"
    and "lines_of (db_of w) (request_ref rq key) = {#}"
    and "storable payload" "stocked payload (db_of w)" "distinct (map in_product_id payload)"
  shows "\<exists>ord odb' w'. post_order (inventory_of d) rq payload key (odb, w) =
      (Error 500 (Some (Text ''failed to persist order'')), odb', w')
    \<and> get_order no_faults (request_ref rq key) odb' = Inr ord
    \<and> order_lines ord = mset (line_items payload)
    \<and> lines_of (db_of w') (request_ref rq key) = {#}
    \<and> (\<forall>pid. available (db_of w') pid = available (db_of w) pid)"
proof -
  let ?ref = "request_ref rq key"
  let ?ord = "order_of (rq_now rq) (build_order ?ref payload)"
  have ne: "payload \<noteq> []" "line_items payload \<noteq> []"
    using assms(5) by (simp_all add: accepted_def valid_order_def)
  have ref: "order_ref_of key (uuid_str (rq_uuid rq 0)) = ?ref" "?ref \<noteq> ''''"
    using request_ref_proper [OF assms(5), of rq] by (simp_all add: request_ref_def proper_ref_def)
  from reserve_phase_delivered [OF assms(1-3) ne(1) request_ref_proper [OF assms(5)] assms(8,10,11)] assms(12)
  obtain w1 where reserved: "reserve_phase (inventory_of d) ?ref (line_items payload) w = (Inr (), w1)"
    by auto
  then obtain rsp where rpc: "rsp_success rsp"
      "reserve_rpc (inventory_of d) ?ref (line_items payload) ?ref w = (Inr rsp, w1)"
    by (auto simp: reserve_phase_def split: sum.splits prod.splits if_splits)
  have w1: "inventory_ok (db_of w1)"
      "view_of (db_of w1) = hold True ?ref (mset (line_items payload)) (view_of (db_of w))"
      "reserve_rpc (inventory_of d) ?ref (line_items payload) ?ref w = (Inr rsp, w1)"
    using deployed.reserve [OF assms(1) ref(2) ne(2) rpc(2)]
      deployed.granted_holds [OF assms(1) ref(2) ne(2) rpc(2,1)] rpc(2) assms(8)
    by simp_all
  have "rm_fates w1 = [] \<and> trusted d"
    using reliably.reserve_reliable [OF assms(1) _ ref(2) ne(2) w1(3)] assms(2,3) by simp
  note released = reliably.release_reliable [OF w1(1) this ref(2)]
  obtain s w2 where release: "release_rpc (inventory_of d) ?ref w1 = (Inr s, w2)"
    using released by (metis surj_pair)
  have view: "view_of (db_of w2) = view_of (db_of w)"
    using deployed.release_delivered [OF w1(1) ref(2) release] w1(2) assms(8,9) by (simp add: unhold_hold)
  obtain ord odb' where "persist_phase no_faults (rq_now rq) (build_order ?ref payload) odb = (Some ord, odb')"
    using persist_phase_succeeds [OF assms(4,7,10)] by blast
  with assms(4) have stored: "persist_phase (rq_faults rq) (rq_now rq) (build_order ?ref payload) odb = (None, odb')"
      "session_get ?ref odb' = Some ?ord"
    by (auto simp: persist_phase_def assms(6) session_commit_one split: prod.splits bool.splits
        dest: session_commit_one)
  have "post_order (inventory_of d) rq payload key (odb, w) =
      (Error 500 (Some (Text ''failed to persist order'')), odb', w2)"
    using assms(7) reserved stored(1) release
    by (simp add: post_order_accepted [OF assms(5)] create_order_def ref(1) http_reply_of_def
        compensate_phase_def release_quietly_def assms(6))
  moreover have "get_order no_faults ?ref odb' = Inr ?ord" using stored(2) by (simp add: get_order_def)
  moreover have "lines_of (db_of w2) ?ref = {#}"
    using arg_cong [OF view, of h_lines] assms(9) by simp
  moreover have "available (db_of w2) pid = available (db_of w) pid" for pid
    using arg_cong [OF view, of h_left] by simp
  ultimately show ?thesis using order_lines_build by blast
qed

theorem refresh_failure_releases_persisted_order_witness:
  "\<exists>ord odb' w'. post_order (inventory_of demo_deployment)
      ((quiet_request 7)\<lparr>rq_faults := no_faults\<lparr>sf_refresh := True\<rparr>\<rparr>) [item_in 3 4, item_in 1 2]
      (Some ''k1'') (no_orders, demo_remote []) =
      (Error 500 (Some (Text ''failed to persist order'')), odb', w')
    \<and> get_order no_faults ''k1'' odb' = Inr ord \<and> lines_of (db_of w') ''k1'' = {#}"
proof -
  let ?rq = "(quiet_request 7)\<lparr>rq_faults := no_faults\<lparr>sf_refresh := True\<rparr>\<rparr>"
  have ref: "request_ref rq (Some ''k1'') = ''k1''" for rq by (simp add: request_ref_def order_ref_of_def)
  have "\<not> keyed (request_ref ?rq (Some ''k1'')) (db_of (demo_remote []))"
    by (simp add: keyed_def demo_fresh)
  from refresh_failure_releases_persisted_order [OF demo_inventory_ok _ _ no_orders_ok(1) _ _
      no_orders_ok(2) this, of demo_deployment "[item_in 3 4, item_in 1 2]"]
  show ?thesis
    by (auto simp: ref trusted_def accepted_def valid_order_def valid_item_def storable_def in_int4_def
        max_int4_def demo_stocked demo_lines)
qed

end
