(* ===== verification/OrderRace.thy ===== *)
theory OrderRace
  imports OrderSaga
begin

text \<open>
  Concurrent \<^verbatim>\<open>POST /orders\<close> requests. The order service runs on one event loop, so requests
  interleave where \<^verbatim>\<open>create_order\<close> awaits: the lookup, the reservation, the commit, and the
  release of the compensation. A request is a task with a program counter at one of these
  points, and a step lets one task of a pool run up to its next one.
\<close>

section \<open>Tasks\<close>

datatype order_pc = AtLookup | AtReserve | AtPersist | AtCompensate | Answered "api_error + order"

record order_task =
  ot_faults :: session_faults
  ot_now :: int
  ot_uuid :: string
  ot_payload :: "order_item_in list"
  ot_key :: "string option"
  ot_pc :: order_pc

definition task_ref :: "order_task \<Rightarrow> string" where
  "task_ref t = order_ref_of (ot_key t) (ot_uuid t)"

definition task_step ::
  "'w inventory_client \<Rightarrow> order_task \<Rightarrow> order_db \<times> 'w \<Rightarrow> order_pc \<times> order_db \<times> 'w" where
  "task_step client t = (\<lambda>(odb, w).
     case ot_pc t of
       AtLookup \<Rightarrow>
         (if sf_get (ot_faults t) then Answered (Inl Unhandled)
          else case session_get (task_ref t) odb of
            Some existing \<Rightarrow> Answered (Inr existing)
          | None \<Rightarrow> AtReserve, odb, w)
     | AtReserve \<Rightarrow>
         (case reserve_phase client (task_ref t) (line_items (ot_payload t)) w of
            (Inl e, w1) \<Rightarrow> (Answered (Inl e), odb, w1)
          | (Inr _, w1) \<Rightarrow> (AtPersist, odb, w1))
     | AtPersist \<Rightarrow>
         (case persist_phase (ot_faults t) (ot_now t) (build_order (task_ref t) (ot_payload t)) odb of
            (Some ord, odb1) \<Rightarrow> (Answered (Inr ord), odb1, w)
          | (None, odb1) \<Rightarrow> (AtCompensate, odb1, w))
     | AtCompensate \<Rightarrow>
         (case compensate_phase client (ot_faults t) (task_ref t) w of
            (e, w1) \<Rightarrow> (Answered (Inl e), odb, w1))
     | Answered r \<Rightarrow> (Answered r, odb, w))"

inductive race_step ::
  "'w inventory_client \<Rightarrow> order_task list \<times> order_db \<times> 'w \<Rightarrow> order_task list \<times> order_db \<times> 'w \<Rightarrow> bool"
  for client where
  Task: "i < length ts \<Longrightarrow> (\<nexists>r. ot_pc (ts ! i) = Answered r)
    \<Longrightarrow> task_step client (ts ! i) s = (pc, s')
    \<Longrightarrow> race_step client (ts, s) (ts[i := (ts ! i)\<lparr>ot_pc := pc\<rparr>], s')"

inductive_cases race_stepE: "race_step client (ts, s) (ts', s')"

text \<open>One task alone.\<close>

fun run_task ::
  "'w inventory_client \<Rightarrow> nat \<Rightarrow> order_task \<Rightarrow> order_db \<times> 'w \<Rightarrow> order_pc \<times> order_db \<times> 'w" where
  "run_task client 0 t s = (ot_pc t, s)"
| "run_task client (Suc n) t s =
     (case task_step client t s of (pc, s') \<Rightarrow> run_task client n (t\<lparr>ot_pc := pc\<rparr>) s')"

lemma run_task_answered:
  "ot_pc t = Answered r \<Longrightarrow> run_task client n t s = (Answered r, s)"
  by (induction n arbitrary: t) (auto simp: task_step_def split: prod.split)

lemma run_task_create_order:
  assumes "ot_pc t = AtLookup"
  shows "run_task client 4 t s =
    apfst Answered (create_order client (ot_faults t) (ot_now t) (ot_uuid t) (ot_payload t) (ot_key t) s)"
proof -
  obtain odb w where s: "s = (odb, w)" by (cases s)
  have four: "(4::nat) = Suc (Suc (Suc (Suc 0)))" by simp
  show ?thesis
    using assms unfolding s four
    by (auto simp: task_step_def create_order_def task_ref_def Let_def split: option.split sum.split prod.split)
qed

section \<open>The invariant of a pool\<close>

text \<open>
  What both databases say about the reference of a task, depending on where the task is. A
  reference is \<open>settled\<close> when the inventory holds exactly the lines of its persisted order.
\<close>

definition settled :: "order_db \<Rightarrow> holdings \<Rightarrow> string \<Rightarrow> bool" where
  "settled odb V ref \<longleftrightarrow>
     h_lines V ref = (case session_get ref odb of None \<Rightarrow> {#} | Some ord \<Rightarrow> order_lines ord)
     \<and> (session_get ref odb = None \<longrightarrow> \<not> h_keyed V ref)"

lemma consistent_settled: "consistent odb V \<longleftrightarrow> (\<forall>ref. settled odb V ref)"
  by (simp add: consistent_def settled_def)

fun pc_ok :: "order_pc \<Rightarrow> order_db \<Rightarrow> holdings \<Rightarrow> string \<Rightarrow> order_item_in list \<Rightarrow> bool" where
  "pc_ok AtLookup odb V ref payload = settled odb V ref"
| "pc_ok AtReserve odb V ref payload = (session_get ref odb = None \<and> settled odb V ref)"
| "pc_ok AtPersist odb V ref payload =
     (session_get ref odb = None \<and> h_lines V ref = mset (line_items payload))"
| "pc_ok AtCompensate odb V ref payload =
     (session_get ref odb = None \<and> h_lines V ref = mset (line_items payload))"
| "pc_ok (Answered r) odb V ref payload =
     (settled odb V ref \<and> (\<forall>ord. r = Inr ord \<longrightarrow> session_get ref odb = Some ord))"

definition good_task :: "order_task \<Rightarrow> bool" where
  "good_task t \<longleftrightarrow> ot_payload t \<noteq> [] \<and> task_ref t \<noteq> '''' \<and> clean_faults (ot_faults t)"

text \<open>Nothing is known to change under the other references.\<close>

definition same_elsewhere ::
  "string \<Rightarrow> order_db \<Rightarrow> holdings \<Rightarrow> order_db \<Rightarrow> holdings \<Rightarrow> bool" where
  "same_elsewhere ref odb V odb' V' \<longleftrightarrow>
     (\<forall>r. r \<noteq> ref \<longrightarrow> session_get r odb' = session_get r odb \<and> h_lines V' r = h_lines V r
        \<and> h_keyed V' r = h_keyed V r)"

lemma same_elsewhere_settled:
  "same_elsewhere ref odb V odb' V' \<Longrightarrow> r \<noteq> ref \<Longrightarrow> settled odb' V' r = settled odb V r"
  by (simp add: same_elsewhere_def settled_def)

lemma same_elsewhere_pc_ok:
  "same_elsewhere ref odb V odb' V' \<Longrightarrow> r \<noteq> ref \<Longrightarrow> pc_ok pc odb' V' r items = pc_ok pc odb V r items"
  by (cases pc) (simp_all add: same_elsewhere_def settled_def)

definition pool_inv ::
  "('w \<Rightarrow> bool) \<Rightarrow> ('w \<Rightarrow> holdings) \<Rightarrow> order_task list \<times> order_db \<times> 'w \<Rightarrow> bool" where
  "pool_inv ok view = (\<lambda>(ts, odb, w).
     ok w \<and> odb_ok odb \<and> distinct (map task_ref ts) \<and> (\<forall>t \<in> set ts. good_task t)
     \<and> (\<forall>t \<in> set ts. pc_ok (ot_pc t) odb (view w) (task_ref t) (ot_payload t))
     \<and> (\<forall>r. r \<notin> task_ref ` set ts \<longrightarrow> settled odb (view w) r))"

context reliable_inventory
begin

lemma task_step_ok:
  assumes ok: "wf w" "reliable w" "odb_ok odb" and good: "good_task t"
    and pc: "pc_ok (ot_pc t) odb (view w) (task_ref t) (ot_payload t)"
    and step: "task_step client t (odb, w) = (pc', odb', w')"
  shows "wf w' \<and> reliable w' \<and> odb_ok odb' \<and> pc_ok pc' odb' (view w') (task_ref t) (ot_payload t)
    \<and> same_elsewhere (task_ref t) odb (view w) odb' (view w')"
proof (cases "ot_pc t")
  case AtLookup
  with step ok pc show ?thesis
    by (auto simp: task_step_def same_elsewhere_def settled_def split: if_splits option.splits)
next
  case AtReserve
  let ?ref = "task_ref t" and ?items = "line_items (ot_payload t)"
  have req: "?ref \<noteq> ''''" "?items \<noteq> []" using good by (simp_all add: good_task_def)
  have new: "session_get ?ref odb = None" "h_lines (view w) ?ref = {#}" "\<not> h_keyed (view w) ?ref"
    using pc AtReserve by (auto simp: settled_def)
  obtain q w1 where reserved: "reserve_phase client ?ref ?items w = (q, w1)" by fastforce
  note rel = reserve_reliable [OF ok(1,2) req]
  from ok(1) req reserved show ?thesis
  proof (cases rule: reserve_phase_cases)
    case held
    with step AtReserve reserved new rel ok show ?thesis
      by (auto simp: task_step_def same_elsewhere_def)
  next
    case (refused results)
    with step AtReserve reserved new rel ok show ?thesis
      by (auto simp: task_step_def same_elsewhere_def settled_def)
  next
    case (failed e)
    with step AtReserve reserved new rel [OF failed(3)] ok show ?thesis
      by (auto simp: task_step_def same_elsewhere_def settled_def)
  qed
next
  case AtPersist
  let ?ref = "task_ref t"
  obtain p odb1 where persist:
      "persist_phase (ot_faults t) (ot_now t) (build_order ?ref (ot_payload t)) odb = (p, odb1)"
    by fastforce
  have clean: "\<not> sf_refresh (ot_faults t)" "sf_commit (ot_faults t) \<noteq> CommitUnconfirmed"
    using good by (simp_all add: good_task_def clean_faults_def)
  from persist ok(3) show ?thesis
  proof (cases rule: persist_phase_cases)
    case stored
    with step AtPersist persist pc ok show ?thesis
      by (auto simp: task_step_def same_elsewhere_def settled_def)
  next
    case lost
    with step AtPersist persist pc ok show ?thesis
      by (auto simp: task_step_def same_elsewhere_def)
  next
    case unconfirmed
    with clean show ?thesis by simp
  qed
next
  case AtCompensate
  let ?ref = "task_ref t"
  have req: "?ref \<noteq> ''''" using good by (simp add: good_task_def)
  obtain e w1 where phase: "compensate_phase client (ot_faults t) ?ref w = (e, w1)" by fastforce
  obtain s w2 where release: "release_rpc client ?ref w = (s, w2)" by fastforce
  have rel: "reliable w2" "\<exists>x. s = Inr x" using release_reliable [OF ok(1,2) req release] by auto
  have "\<not> sf_rollback (ot_faults t)" using good by (simp add: good_task_def clean_faults_def)
  with compensate_phase_cases [OF ok(1) req phase] release rel
  have "wf w1" "w1 = w2" "view w1 = unhold ?ref (view w)" by auto
  with step AtCompensate phase pc ok rel show ?thesis
    by (auto simp: task_step_def same_elsewhere_def settled_def)
next
  case (Answered r)
  with step ok pc show ?thesis by (auto simp: task_step_def same_elsewhere_def)
qed

lemma race_step_inv:
  assumes "race_step client a b" "pool_inv (\<lambda>w. wf w \<and> reliable w) view a"
  shows "pool_inv (\<lambda>w. wf w \<and> reliable w) view b"
  using assms
proof (induction rule: race_step.induct)
  case (Task i ts s pc s')
  obtain odb w odb' w' where s: "s = (odb, w)" "s' = (odb', w')" by (metis surj_pair)
  let ?t = "ts ! i"
  let ?ts = "ts[i := ?t\<lparr>ot_pc := pc\<rparr>]"
  have mem: "?t \<in> set ts" using Task(1) by simp
  have inv: "wf w" "reliable w" "odb_ok odb" "distinct (map task_ref ts)"
    and tasks: "\<And>t. t \<in> set ts \<Longrightarrow> good_task t"
      "\<And>t. t \<in> set ts \<Longrightarrow> pc_ok (ot_pc t) odb (view w) (task_ref t) (ot_payload t)"
    and others: "\<And>r. r \<notin> task_ref ` set ts \<Longrightarrow> settled odb (view w) r"
    using Task(4) by (auto simp: pool_inv_def s)
  note step = task_step_ok [OF inv(1-3) tasks(1) [OF mem] tasks(2) [OF mem] Task(3) [unfolded s]]
  have refs: "map task_ref ?ts = map task_ref ts"
    by (simp add: map_update task_ref_def list_update_same_conv Task(1))
  have upd: "task_ref (t\<lparr>ot_pc := pc\<rparr>) = task_ref t" "good_task (t\<lparr>ot_pc := pc\<rparr>) = good_task t" for t
    by (simp_all add: task_ref_def good_task_def)
  have "good_task t \<and> pc_ok (ot_pc t) odb' (view w') (task_ref t) (ot_payload t)" if new: "t \<in> set ?ts" for t
  proof -
    from new obtain k where k: "k < length ts" "t = ?ts ! k" by (auto simp: in_set_conv_nth)
    show ?thesis
    proof (cases "k = i")
      case True
      then show ?thesis using k step tasks(1) [OF mem] by (simp add: upd)
    next
      case False
      then have t: "t = ts ! k" "t \<in> set ts" using k by simp_all
      have "task_ref t \<noteq> task_ref ?t"
        using nth_eq_iff_index_eq [OF inv(4), of k i] False k(1) Task(1) by (simp add: t(1))
      then show ?thesis using tasks [OF t(2)] same_elsewhere_pc_ok step by metis
    qed
  qed
  moreover have "settled odb' (view w') r" if "r \<notin> task_ref ` set ?ts" for r
  proof -
    have "r \<notin> task_ref ` set ts" using that refs by (metis list.set_map)
    moreover from this mem have "r \<noteq> task_ref ?t" by blast
    ultimately show ?thesis using others same_elsewhere_settled step by metis
  qed
  ultimately show ?case using step inv refs by (simp add: pool_inv_def s)
qed

lemma pool_run_inv:
  "(race_step client)\<^sup>*\<^sup>* a b \<Longrightarrow> pool_inv (\<lambda>w. wf w \<and> reliable w) view a \<Longrightarrow>
     pool_inv (\<lambda>w. wf w \<and> reliable w) view b"
  by (induction rule: rtranclp_induct) (auto intro: race_step_inv)

end

section \<open>The lost race\<close>

text \<open>A reservation under a key that is already held is answered with success.\<close>

lemma reserve_phase_replayed:
  assumes "rm_fates w = []" "trusted d" "payload \<noteq> []" "ref \<noteq> ''''" "keyed ref (db_of w)" "storable payload"
  shows "\<exists>w'. reserve_phase (inventory_of d) ref (line_items payload) w = (Inr (), w') \<and> db_of w' = db_of w
    \<and> rm_fates w' = []"
proof -
  let ?items = "reserve_items (line_items payload)"
  obtain r w' where call: "client_reserve_stock d ref (line_items payload) ref w = (r, w')" by fastforce
  have items: "?items \<noteq> []" "line_items payload \<noteq> []" using assms(3) by simp_all
  have "replayed ref (db_of w) \<noteq> []" using assms(5) by (simp add: keyed_def)
  note replay = reserve_stock_replay [OF items(1) this, of "dp_clk d" ref]
  have "\<exists>out. r = Inr out \<and> rsp_success out" "db_of w' = db_of w" "rm_fates w' = []"
    using reserve_delivered [OF assms(1) storable_in_range [OF assms(6)] call] assms(2) replay
    by (simp_all add: reserve_handled_eq [OF assms(4) items(2)])
  moreover have "reserve_rpc (inventory_of d) ref (line_items payload) ref w = (r, w')"
    using call by (simp add: inventory_of_def)
  ultimately show ?thesis by (auto simp: reserve_phase_def)
qed

lemma same_pc: "(t :: order_task)\<lparr>ot_pc := ot_pc t\<rparr> = t"
  by simp

text \<open>A second insert of the same reference violates the primary key.\<close>

lemma persist_phase_duplicate:
  "session_get ref odb \<noteq> None \<Longrightarrow> persist_phase f now (build_order ref payload) odb = (None, odb)"
  by (auto simp: persist_phase_def session_commit_def order_insert_def session_get_None
      split: commit_fate.split)

definition new_task :: "order_call \<Rightarrow> order_task" where
  "new_task = (\<lambda>(rq, payload, key).
     \<lparr>ot_faults = rq_faults rq, ot_now = rq_now rq, ot_uuid = uuid_str (rq_uuid rq 0),
      ot_payload = payload, ot_key = key, ot_pc = AtLookup\<rparr>)"

lemma new_task_sel [simp]:
  "ot_faults (new_task (rq, payload, key)) = rq_faults rq" "ot_now (new_task (rq, payload, key)) = rq_now rq"
  "ot_payload (new_task (rq, payload, key)) = payload" "ot_pc (new_task x) = AtLookup"
  "task_ref (new_task (rq, payload, key)) = request_ref rq key"
  "task_ref (t\<lparr>ot_pc := pc\<rparr>) = task_ref t"
  by (simp_all add: new_task_def task_ref_def request_ref_def split: prod.split)

section \<open>One request alone\<close>

lemma run_task_stable:
  "run_task client n t s = (Answered r, s') \<Longrightarrow> run_task client (n + k) t s = (Answered r, s')"
proof (induction n arbitrary: t s)
  case 0
  then show ?case by (simp add: run_task_answered)
next
  case (Suc n)
  then show ?case by (auto split: prod.splits)
qed

lemma race_alone:
  assumes "(race_step client)\<^sup>*\<^sup>* a b" "a = ([t], s)"
  shows "\<exists>n pc s'. b = ([t\<lparr>ot_pc := pc\<rparr>], s') \<and> run_task client n t s = (pc, s')"
  using assms
proof (induction arbitrary: t s rule: converse_rtranclp_induct)
  case base
  then show ?case by (intro exI [of _ 0] exI [of _ "ot_pc t"] exI [of _ s]) (simp add: same_pc)
next
  case (step a c)
  from step(1) [unfolded step(4)] obtain pc1 s1 where
    c: "c = ([t\<lparr>ot_pc := pc1\<rparr>], s1)" "task_step client t s = (pc1, s1)"
    by (cases rule: race_step.cases) simp
  from step.IH [OF c(1)] obtain n pc s' where "b = ([t\<lparr>ot_pc := pc\<rparr>], s')"
      "run_task client n (t\<lparr>ot_pc := pc1\<rparr>) s1 = (pc, s')"
    by auto
  with c(2) show ?case by (intro exI [of _ "Suc n"] exI [of _ pc] exI [of _ s']) simp
qed

lemma run_task_answers:
  assumes "ot_pc t = AtLookup"
  obtains r odb w where "run_task client 4 t s = (Answered r, odb, w)"
  using that unfolding run_task_create_order [OF assms]
  by (cases "create_order client (ot_faults t) (ot_now t) (ot_uuid t) (ot_payload t) (ot_key t) s") simp

lemma run_task_in_pool:
  "i < length ts \<Longrightarrow> run_task client n (ts ! i) s = (pc, s')
     \<Longrightarrow> (race_step client)\<^sup>*\<^sup>* (ts, s) (ts[i := (ts ! i)\<lparr>ot_pc := pc\<rparr>], s')"
proof (induction n arbitrary: ts s)
  case 0
  then have "pc = ot_pc (ts ! i)" "s' = s" by simp_all
  then show ?case by (simp add: same_pc)
next
  case (Suc n)
  show ?case
  proof (cases "\<exists>r. ot_pc (ts ! i) = Answered r")
    case True
    then have "pc = ot_pc (ts ! i)" "s' = s"
      using Suc.prems(2) run_task_answered [of "ts ! i" _ client "Suc n" s] by auto
    then show ?thesis by (simp add: same_pc)
  next
    case False
    obtain pc1 s1 where step: "task_step client (ts ! i) s = (pc1, s1)" by (metis surj_pair)
    let ?ts1 = "ts[i := (ts ! i)\<lparr>ot_pc := pc1\<rparr>]"
    have "race_step client (ts, s) (?ts1, s1)" by (rule Task [OF Suc.prems(1) False step])
    moreover have "(race_step client)\<^sup>*\<^sup>* (?ts1, s1) (?ts1[i := (?ts1 ! i)\<lparr>ot_pc := pc\<rparr>], s')"
      using Suc.prems step by (intro Suc.IH) simp_all
    ultimately show ?thesis
      using Suc.prems(1) by (simp add: converse_rtranclp_into_rtranclp)
  qed
qed

section \<open>Properties\<close>

text \<open>
  C5: concurrent orders stay consistent. Let any number of accepted \<^verbatim>\<open>POST /orders\<close> requests for
  different references run at the same time, their steps interleaved in any way, with database
  lookups and commits that fail, on a network that delivers. When all are answered, the
  inventory holds under every reference exactly the lines of the persisted order, and every
  request answered with an order has that order persisted and held.
\<close>

theorem concurrent_orders_consistent:
  assumes "inventory_ok (db_of w)" "rm_fates w = []" "trusted d" "odb_ok odb"
    and "consistent odb (view_of (db_of w))" "list_all clean_call calls"
    and "list_all (\<lambda>(rq, payload, key). accepted payload key) calls"
    and "distinct (map (\<lambda>(rq, payload, key). request_ref rq key) calls)"
    and "(race_step (inventory_of d))\<^sup>*\<^sup>* (map new_task calls, odb, w) (ts, odb', w')"
    and "\<forall>t \<in> set ts. \<exists>r. ot_pc t = Answered r"
  shows "lines_of (db_of w') ref =
      (case session_get ref odb' of None \<Rightarrow> {#} | Some ord \<Rightarrow> order_lines ord)
    \<and> (\<forall>t \<in> set ts. \<forall>ord. ot_pc t = Answered (Inr ord) \<longrightarrow>
         session_get (task_ref t) odb' = Some ord \<and> lines_of (db_of w') (task_ref t) = order_lines ord)"
proof -
  let ?ok = "\<lambda>w. inventory_ok (db_of w) \<and> (rm_fates w = [] \<and> trusted d)"
  let ?view = "\<lambda>w. view_of (db_of w)"
  have good: "good_task (new_task x)" if "x \<in> set calls" for x
  proof -
    obtain rq payload key where x: "x = (rq, payload, key)" by (cases x)
    then have "accepted payload key" "clean_faults (rq_faults rq)"
      using assms(6,7) that by (auto simp: list_all_iff clean_call_def)
    then show ?thesis
      using request_ref_proper [of payload key rq]
      by (auto simp: x good_task_def accepted_def valid_order_def proper_ref_def)
  qed
  have "map task_ref (map new_task calls) = map (\<lambda>(rq, payload, key). request_ref rq key) calls"
    by (auto split: prod.split)
  with assms(8) have "distinct (map task_ref (map new_task calls))" by (simp only:)
  then have "pool_inv ?ok ?view (map new_task calls, odb, w)"
    using assms(1-5) good by (auto simp: pool_inv_def consistent_settled simp del: map_map)
  from reliable_inventory.pool_run_inv [OF reliably.reliable_inventory_axioms assms(9) this]
  have inv: "\<And>t. t \<in> set ts \<Longrightarrow> pc_ok (ot_pc t) odb' (?view w') (task_ref t) (ot_payload t)"
      "\<And>r. r \<notin> task_ref ` set ts \<Longrightarrow> settled odb' (?view w') r"
    by (auto simp: pool_inv_def)
  have "settled odb' (?view w') r" for r
    using inv(2) [of r] inv(1) assms(10) by (cases "r \<in> task_ref ` set ts") force+
  then have lines: "lines_of (db_of w') r =
      (case session_get r odb' of None \<Rightarrow> {#} | Some ord \<Rightarrow> order_lines ord)" for r
    by (simp add: settled_def)
  moreover have "session_get (task_ref t) odb' = Some ord" if "t \<in> set ts" "ot_pc t = Answered (Inr ord)" for t ord
    using inv(1) [OF that(1)] that(2) by simp
  ultimately show ?thesis by simp
qed

text \<open>Every pool can be run to its end: no task waits for another one.\<close>

lemma pool_completes:
  assumes "\<forall>t \<in> set ts. ot_pc t = AtLookup"
  shows "\<exists>ts' s'. (race_step client)\<^sup>*\<^sup>* (ts, s) (ts', s') \<and> (\<forall>t \<in> set ts'. \<exists>r. ot_pc t = Answered r)"
proof -
  have "\<exists>ts' s'. (race_step client)\<^sup>*\<^sup>* (ts, s) (ts', s') \<and> length ts' = length ts
      \<and> (\<forall>i < length ts. if i < n then \<exists>r. ot_pc (ts' ! i) = Answered r else ts' ! i = ts ! i)" for n
  proof (induction n)
    case 0
    show ?case by (intro exI [of _ ts] exI [of _ s]) simp
  next
    case (Suc n)
    then obtain ts1 s1 where run: "(race_step client)\<^sup>*\<^sup>* (ts, s) (ts1, s1)" "length ts1 = length ts"
        "\<forall>i < length ts. if i < n then \<exists>r. ot_pc (ts1 ! i) = Answered r else ts1 ! i = ts ! i"
      by blast
    show ?case
    proof (cases "n < length ts")
      case False
      then show ?thesis using run by (intro exI [of _ ts1] exI [of _ s1]) auto
    next
      case True
      then have "ot_pc (ts1 ! n) = AtLookup" using run(3) assms by auto
      then obtain r odb w where "run_task client 4 (ts1 ! n) s1 = (Answered r, odb, w)"
        by (rule run_task_answers)
      with True run(2) have "(race_step client)\<^sup>*\<^sup>* (ts1, s1) (ts1[n := (ts1 ! n)\<lparr>ot_pc := Answered r\<rparr>], odb, w)"
        by (intro run_task_in_pool) simp_all
      with run True show ?thesis
        by (intro exI [of _ "ts1[n := (ts1 ! n)\<lparr>ot_pc := Answered r\<rparr>]"] exI [of _ "(odb, w)"])
          (auto simp: nth_list_update less_Suc_eq intro: rtranclp_trans)
    qed
  qed
  from this [of "length ts"] show ?thesis by (metis in_set_conv_nth)
qed

theorem concurrent_orders_consistent_witness:
  "\<exists>ts odb' w'. (race_step (inventory_of demo_deployment))\<^sup>*\<^sup>*
      (map new_task [(quiet_request 7, [item_in 3 4], Some ''k1''), (quiet_request 8, [item_in 3 9], Some ''k2'')],
       no_orders, demo_remote []) (ts, odb', w')
    \<and> lines_of (db_of w') ''k1'' =
        (case session_get ''k1'' odb' of None \<Rightarrow> {#} | Some ord \<Rightarrow> order_lines ord)"
proof -
  let ?calls = "[(quiet_request 7, [item_in 3 4], Some ''k1''), (quiet_request 8, [item_in 3 9], Some ''k2'')]"
  obtain ts odb' w' where run: "(race_step (inventory_of demo_deployment))\<^sup>*\<^sup>*
      (map new_task ?calls, no_orders, demo_remote []) (ts, odb', w')"
      "\<forall>t \<in> set ts. \<exists>r. ot_pc t = Answered r"
    using pool_completes [of "map new_task ?calls" "inventory_of demo_deployment" "(no_orders, demo_remote [])"]
    by auto
  have "list_all clean_call ?calls" "list_all (\<lambda>(rq, payload, key). accepted payload key) ?calls"
      "distinct (map (\<lambda>(rq, payload, key). request_ref rq key) ?calls)"
    by (simp_all add: clean_call_def clean_faults_def accepted_def valid_order_def valid_item_def
        request_ref_def order_ref_of_def)
  from concurrent_orders_consistent [OF demo_inventory_ok _ _ no_orders_ok(1) _ this run, of "''k1''"]
  have "lines_of (db_of w') ''k1'' =
      (case session_get ''k1'' odb' of None \<Rightarrow> {#} | Some ord \<Rightarrow> order_lines ord)"
    by (simp add: trusted_def demo_consistent)
  with run(1) show ?thesis by blast
qed

lemma race_two:
  assumes "\<nexists>r. p = Answered r" "task_step client (a\<lparr>ot_pc := p\<rparr>) s = (p', s')"
  shows "race_step client ([a\<lparr>ot_pc := p\<rparr>, b], s) ([a\<lparr>ot_pc := p'\<rparr>, b], s')"
    and "race_step client ([b, a\<lparr>ot_pc := p\<rparr>], s) ([b, a\<lparr>ot_pc := p'\<rparr>], s')"
  using Task [of 0 "[a\<lparr>ot_pc := p\<rparr>, b]" client s p' s'] Task [of 1 "[b, a\<lparr>ot_pc := p\<rparr>]" client s p' s'] assms
  by simp_all

lemma same_key_race:
  assumes "task_ref a = ref" "task_ref b = ref" "ot_pc a = AtLookup" "ot_pc b = AtLookup"
    and "ot_faults a = no_faults" "ot_faults b = no_faults" "session_get ref odb = None"
    and "reserve_phase client ref (line_items (ot_payload a)) w = (Inr (), w1)"
    and "reserve_phase client ref (line_items (ot_payload b)) w1 = (Inr (), w2)"
    and "persist_phase no_faults (ot_now a) (build_order ref (ot_payload a)) odb = (Some ord, odb')"
    and "session_get ref odb' \<noteq> None" "compensate_phase client no_faults ref w2 = (e, w3)"
  shows "(race_step client)\<^sup>*\<^sup>* ([a, b], odb, w)
    ([a\<lparr>ot_pc := Answered (Inr ord)\<rparr>, b\<lparr>ot_pc := Answered (Inl e)\<rparr>], odb', w3)"
proof -
  let ?pool = "\<lambda>p q. [a\<lparr>ot_pc := p\<rparr>, b\<lparr>ot_pc := q\<rparr>]"
  let ?run = "(race_step client)\<^sup>*\<^sup>*"
  have ref: "task_ref (a\<lparr>ot_pc := p\<rparr>) = ref" "task_ref (b\<lparr>ot_pc := p\<rparr>) = ref" for p
    using assms(1,2) by simp_all
  have persist_b: "persist_phase no_faults now (build_order ref payload) odb' = (None, odb')" for now payload
    using assms(11) by (rule persist_phase_duplicate)
  note defs = task_step_def ref assms persist_b
  have "[a, b] = ?pool AtLookup AtLookup" using assms(3,4) same_pc by metis
  moreover have "race_step client (?pool AtLookup AtLookup, odb, w) (?pool AtReserve AtLookup, odb, w)"
    by (rule race_two) (simp_all add: defs)
  moreover have "race_step client (?pool AtReserve AtLookup, odb, w) (?pool AtReserve AtReserve, odb, w)"
    by (rule race_two) (simp_all add: defs)
  moreover have "race_step client (?pool AtReserve AtReserve, odb, w) (?pool AtPersist AtReserve, odb, w1)"
    by (rule race_two) (simp_all add: defs)
  moreover have "race_step client (?pool AtPersist AtReserve, odb, w1) (?pool AtPersist AtPersist, odb, w2)"
    by (rule race_two) (simp_all add: defs)
  moreover have "race_step client (?pool AtPersist AtPersist, odb, w2)
      (?pool (Answered (Inr ord)) AtPersist, odb', w2)"
    by (rule race_two) (simp_all add: defs)
  moreover have "race_step client (?pool (Answered (Inr ord)) AtPersist, odb', w2)
      (?pool (Answered (Inr ord)) AtCompensate, odb', w2)"
    by (rule race_two) (simp_all add: defs)
  moreover have "race_step client (?pool (Answered (Inr ord)) AtCompensate, odb', w2)
      (?pool (Answered (Inr ord)) (Answered (Inl e)), odb', w3)"
    by (rule race_two) (simp_all add: defs)
  ultimately show ?thesis
    by (metis (no_types, lifting) converse_rtranclp_into_rtranclp rtranclp.rtrancl_refl)
qed

lemma reserve_phase_held:
  assumes "inventory_ok (db_of w)" "rm_fates w = []" "trusted d"
    and "payload \<noteq> []" "proper_ref ref" "\<not> keyed ref (db_of w)" "storable payload"
    and "stocked payload (db_of w)" "distinct (map in_product_id payload)"
  shows "\<exists>w1. reserve_phase (inventory_of d) ref (line_items payload) w = (Inr (), w1)
    \<and> inventory_ok (db_of w1) \<and> rm_fates w1 = []
    \<and> view_of (db_of w1) = hold True ref (mset (line_items payload)) (view_of (db_of w))"
proof -
  have req: "ref \<noteq> ''''" "line_items payload \<noteq> []" using assms(4,5) by (simp_all add: proper_ref_def)
  from reserve_phase_delivered [OF assms(1-8)] assms(9)
  obtain w1 where reserved: "reserve_phase (inventory_of d) ref (line_items payload) w = (Inr (), w1)"
    by auto
  have "inventory_ok (db_of w1) \<and> (\<exists>rsp. reserve_rpc (inventory_of d) ref (line_items payload) ref w = (Inr rsp, w1))
      \<and> view_of (db_of w1) = hold True ref (mset (line_items payload)) (view_of (db_of w))"
    by (rule inventory_contract.reserve_phase_cases [OF deployed.inventory_contract_axioms assms(1) req reserved])
      (use assms(6) in simp_all)
  then show ?thesis
    using reserved assms(2,3) reliably.reserve_reliable [OF assms(1) _ req] by blast
qed

lemma compensate_phase_released:
  assumes "inventory_ok (db_of w)" "rm_fates w = []" "trusted d" "ref \<noteq> ''''" "\<not> sf_rollback f"
  shows "\<exists>w'. compensate_phase (inventory_of d) f ref w =
      (HTTPException 500 (Text ''failed to persist order''), w')
    \<and> view_of (db_of w') = unhold ref (view_of (db_of w))"
proof -
  obtain s w' where release: "release_rpc (inventory_of d) ref w = (Inr s, w')"
    using reliably.release_reliable [OF assms(1) _ assms(4)] assms(2,3) by (metis surj_pair)
  then show ?thesis
    using deployed.release_delivered [OF assms(1,4) release] assms(5)
    by (simp add: compensate_phase_def release_quietly_def)
qed

text \<open>
  C26: two concurrent requests with one key. A client (or a proxy) that sends a request twice with
  the same key, so that both run at the same time, can lose its stock: both pass the lookup, the
  second reservation replays the first, one commit wins and its request is answered 201; the
  other commit hits the primary key, and its compensation releases the reservation of the
  winner. The order stays persisted and confirmed while the inventory holds nothing for it.
\<close>

theorem same_key_race_releases_order:
  assumes "inventory_ok (db_of w)" "rm_fates w = []" "trusted d" "odb_ok odb"
    and "accepted payload (Some key)" "rq_faults rq1 = no_faults" "rq_faults rq2 = no_faults"
    and "session_get key odb = None" "\<not> keyed key (db_of w)" "lines_of (db_of w) key = {#}"
    and "storable payload" "stocked payload (db_of w)" "distinct (map in_product_id payload)"
  shows "\<exists>ord a b odb' w'. (race_step (inventory_of d))\<^sup>*\<^sup>*
      ([new_task (rq1, payload, Some key), new_task (rq2, payload, Some key)], odb, w) ([a, b], odb', w')
    \<and> ot_pc a = Answered (Inr ord)
    \<and> ot_pc b = Answered (Inl (HTTPException 500 (Text ''failed to persist order'')))
    \<and> session_get key odb' = Some ord \<and> o_status ord = ''CONFIRMED''
    \<and> order_lines ord = mset (line_items payload)
    \<and> lines_of (db_of w') key = {#} \<and> (\<forall>pid. available (db_of w') pid = available (db_of w) pid)"
proof -
  have key: "key \<noteq> ''''" "proper_ref key" "payload \<noteq> []"
    using assms(5) by (auto simp: accepted_def proper_ref_def fits_def valid_order_def)
  have ref: "task_ref (new_task (rq, payload, Some key)) = key" for rq
    using key(1) by (simp add: request_ref_def order_ref_of_def)
  obtain w1 where w1: "reserve_phase (inventory_of d) key (line_items payload) w = (Inr (), w1)"
      "inventory_ok (db_of w1)" "rm_fates w1 = []"
      "view_of (db_of w1) = hold True key (mset (line_items payload)) (view_of (db_of w))"
    using reserve_phase_held [OF assms(1-3) key(3,2) assms(9,11-13)] by blast
  have "keyed key (db_of w1)" using arg_cong [OF w1(4), of "\<lambda>V. h_keyed V key"] by simp
  from reserve_phase_replayed [OF w1(3) assms(3) key(3,1) this assms(11)]
  obtain w2 where w2: "reserve_phase (inventory_of d) key (line_items payload) w1 = (Inr (), w2)"
      "db_of w2 = db_of w1" "rm_fates w2 = []"
    by blast
  obtain w3 where w3: "compensate_phase (inventory_of d) no_faults key w2 =
      (HTTPException 500 (Text ''failed to persist order''), w3)"
      "view_of (db_of w3) = unhold key (view_of (db_of w2))"
    using compensate_phase_released [OF _ w2(3) assms(3) key(1), of no_faults] w1(2) w2(2) by auto
  have view: "view_of (db_of w3) = view_of (db_of w)"
    using w3(2) w2(2) w1(4) assms(9,10) by (simp add: unhold_hold)
  obtain ord odb' where persist:
      "persist_phase no_faults (rq_now rq1) (build_order key payload) odb = (Some ord, odb')"
    using persist_phase_succeeds [OF assms(4,8,11)] by blast
  from persist assms(4) have ord: "ord = order_of (rq_now rq1) (build_order key payload)"
      "session_get key odb' = Some ord"
    by (cases rule: persist_phase_cases; simp)+
  have "(race_step (inventory_of d))\<^sup>*\<^sup>*
      ([new_task (rq1, payload, Some key), new_task (rq2, payload, Some key)], odb, w)
      ([(new_task (rq1, payload, Some key))\<lparr>ot_pc := Answered (Inr ord)\<rparr>,
        (new_task (rq2, payload, Some key))\<lparr>ot_pc := Answered (Inl (HTTPException 500
           (Text ''failed to persist order'')))\<rparr>], odb', w3)"
    by (rule same_key_race [where ?w1.0 = w1 and ?w2.0 = w2 and ref = key])
      (use ref assms(6-8) w1(1) w2(1) w3(1) persist ord(2) in simp_all)
  moreover have "o_status ord = ''CONFIRMED''" using ord(1) by (simp add: order_of_def)
  moreover have "order_lines ord = mset (line_items payload)" using ord(1) by simp
  moreover have "lines_of (db_of w3) key = {#}" "available (db_of w3) pid = available (db_of w) pid" for pid
    using arg_cong [OF view, of "\<lambda>V. h_lines V key"] arg_cong [OF view, of "\<lambda>V. h_left V pid"] assms(10)
    by simp_all
  ultimately show ?thesis using ord(2) by fastforce
qed

theorem same_key_race_releases_order_witness:
  "\<exists>a b ord odb' w'. (race_step (inventory_of demo_deployment))\<^sup>*\<^sup>*
      ([new_task (quiet_request 7, [item_in 3 4, item_in 1 2], Some ''k1''),
        new_task (quiet_request 8, [item_in 3 4, item_in 1 2], Some ''k1'')], no_orders, demo_remote [])
      ([a, b], odb', w')
    \<and> ot_pc a = Answered (Inr ord) \<and> session_get ''k1'' odb' = Some ord
    \<and> lines_of (db_of w') ''k1'' = {#}"
  using same_key_race_releases_order [OF demo_inventory_ok _ _ no_orders_ok(1), of "[]" demo_deployment
      "[item_in 3 4, item_in 1 2]" "''k1''" "quiet_request 7" "quiet_request 8"]
  by (simp add: trusted_def no_orders_ok keyed_def demo_fresh accepted_def valid_order_def valid_item_def
      storable_def in_int4_def max_int4_def demo_stocked demo_lines) blast


text \<open>
  The steps are the function. When one request runs alone, the interleaving semantics of its
  steps and the function \<open>create_order\<close> agree: the pool can be run to an answer, and every run to
  an answer ends with the answer and the two databases that \<open>create_order\<close> computes.
\<close>

theorem create_order_steps:
  assumes "ot_pc t = AtLookup"
  shows "(race_step client)\<^sup>*\<^sup>* ([t], s) ([t\<lparr>ot_pc := Answered r\<rparr>], s') \<longleftrightarrow>
    create_order client (ot_faults t) (ot_now t) (ot_uuid t) (ot_payload t) (ot_key t) s = (r, s')"
    (is "?runs \<longleftrightarrow> ?computes")
proof
  have four: "run_task client 4 t s = apfst Answered (create_order client (ot_faults t) (ot_now t)
      (ot_uuid t) (ot_payload t) (ot_key t) s)"
    by (rule run_task_create_order [OF assms])
  assume ?runs
  from race_alone [OF this refl] obtain n where "run_task client n t s = (Answered r, s')"
    by (auto dest: arg_cong [of _ _ ot_pc])
  from run_task_stable [OF this, of 4] have "run_task client (4 + n) t s = (Answered r, s')"
    by (simp add: add.commute)
  moreover obtain r4 s4 where "run_task client 4 t s = (Answered r4, s4)" by (rule run_task_answers [OF assms]) auto
  ultimately show ?computes using four run_task_stable [of client 4 t s r4 s4 n]
    by (cases "create_order client (ot_faults t) (ot_now t) (ot_uuid t) (ot_payload t) (ot_key t) s") simp
next
  assume ?computes
  then have "run_task client 4 ([t] ! 0) s = (Answered r, s')"
    by (simp only: nth_Cons_0 run_task_create_order [OF assms] apfst_conv)
  from run_task_in_pool [OF _ this] show ?runs by simp
qed

theorem create_order_steps_witness:
  "\<exists>t r s. (race_step (inventory_of demo_deployment))\<^sup>*\<^sup>* ([t], no_orders, demo_remote [])
      ([t\<lparr>ot_pc := Answered r\<rparr>], s) \<and> ot_pc t = AtLookup"
  using create_order_steps [of "new_task (quiet_request 7, [item_in 3 4], None)"
      "inventory_of demo_deployment" "(no_orders, demo_remote [])"]
  by (metis new_task_sel(4) surj_pair)

end
