(* ===== verification/OrderBulk.thy ===== *)
theory OrderBulk
  imports OrderSaga
begin

text \<open>
  \<^verbatim>\<open>POST /orders/bulk\<close>: what the best-effort stream, the regrouping of its outcomes, the single
  commit and the release of partial orders add up to.
\<close>

section \<open>Regrouping and classification\<close>

lemma regroup_eq:
  "regroup rs d = (if \<forall>r \<in> set rs. d (bio_order_ref r) \<noteq> None
     then Some (\<lambda>ref. map_option (\<lambda>xs. xs @ map item_result_of (filter (\<lambda>r. bio_order_ref r = ref) rs)) (d ref))
     else None)"
proof (induction rs arbitrary: d)
  case Nil
  then show ?case by (simp add: option.map_ident)
next
  case (Cons r rs)
  show ?case
  proof (cases "d (bio_order_ref r)")
    case None
    then show ?thesis by simp
  next
    case (Some xs)
    then have "(\<forall>s \<in> set rs. (d(bio_order_ref r \<mapsto> xs @ [item_result_of r])) (bio_order_ref s) \<noteq> None) \<longleftrightarrow>
        (\<forall>s \<in> set rs. d (bio_order_ref s) \<noteq> None)"
      by auto
    moreover have "(\<lambda>ref. map_option (\<lambda>ys. ys @ map item_result_of (filter (\<lambda>s. bio_order_ref s = ref) rs))
          ((d(bio_order_ref r \<mapsto> xs @ [item_result_of r])) ref)) =
        (\<lambda>ref. map_option (\<lambda>ys. ys @ map item_result_of (filter (\<lambda>s. bio_order_ref s = ref) (r # rs))) (d ref))"
      using Some by auto
    ultimately show ?thesis using Some by (simp add: Cons.IH del: filter.simps)
  qed
qed

definition items_of :: "(string \<Rightarrow> item_result_out list option) \<Rightarrow> string \<Rightarrow> item_result_out list" where
  "items_of d ref = (case d ref of None \<Rightarrow> [] | Some xs \<Rightarrow> xs)"

definition outcome_of :: "(string \<Rightarrow> item_result_out list option) \<Rightarrow> new_order \<Rightarrow> order_status" where
  "outcome_of d ord = order_outcome (items_of d (no_id ord))"

lemma classify_eq:
  "classify d ords =
     (filter (\<lambda>ord. outcome_of d ord = Persisted) ords,
      map no_id (filter (\<lambda>ord. outcome_of d ord = Partial) ords),
      map (\<lambda>ord. \<lparr>bor_order_ref = no_id ord, bor_status = outcome_of d ord,
                 bor_items = items_of d (no_id ord)\<rparr>) ords)"
  by (induction ords) (simp_all add: outcome_of_def items_of_def Let_def)

section \<open>Lines of an order in the stream\<close>

definition lines_for :: "(string \<times> int \<times> int) list \<Rightarrow> string \<Rightarrow> (int \<times> int) multiset" where
  "lines_for ls ref = mset (map snd (filter (\<lambda>l. fst l = ref) ls))"

lemma lines_for_flatten:
  assumes "distinct (map no_id ords)" "ord \<in> set ords"
  shows "lines_for (flatten_lines ords) (no_id ord) =
    mset (map (\<lambda>i. (oi_product_id i, oi_quantity i)) (no_items ord))"
proof -
  have one: "filter (\<lambda>l. fst l = ref) (map (\<lambda>i. (no_id x, oi_product_id i, oi_quantity i)) (no_items x)) =
      (if no_id x = ref then map (\<lambda>i. (no_id x, oi_product_id i, oi_quantity i)) (no_items x) else [])"
    for x ref
    by (induction "no_items x") (auto simp: filter_map comp_def)
  have none: "lines_for (flatten_lines xs) ref = {#}" if "ref \<notin> no_id ` set xs" for xs ref
    using that by (induction xs) (auto simp: lines_for_def flatten_lines_def one)
  show ?thesis
    using assms
  proof (induction ords)
    case (Cons x xs)
    have split: "lines_for (flatten_lines (x # xs)) ref = (if no_id x = ref
        then mset (map (\<lambda>i. (oi_product_id i, oi_quantity i)) (no_items x)) else {#})
        + lines_for (flatten_lines xs) ref" for ref
      by (simp add: lines_for_def flatten_lines_def one comp_def multiset.map_comp)
    from Cons show ?case by (auto simp: split none image_iff)
  qed simp
qed

lemma flatten_refs: "l \<in> set (flatten_lines ords) \<Longrightarrow> fst l \<in> no_id ` set ords"
  by (auto simp: flatten_lines_def)

lemma flagged_all:
  assumes "length flags = length ls" "\<forall>(l, b) \<in> set (zip ls flags). fst l = ref \<longrightarrow> b"
  shows "flagged_lines ls flags ref = lines_for ls ref"
  using assms
  by (induction ls flags rule: list_induct2') (auto simp: lines_for_def)

lemma flagged_none:
  assumes "\<forall>(l, b) \<in> set (zip ls flags). fst l = ref \<longrightarrow> \<not> b"
  shows "flagged_lines ls flags ref = {#}"
  using assms by (auto simp: flagged_lines_def filter_empty_conv)

text \<open>The outcome of an order, from the flags of its lines.\<close>

lemma outcome_flags:
  assumes results: "map (\<lambda>x. (bio_order_ref x, bio_product_id x, bio_reserved x)) rs =
      map (\<lambda>((ref, pid, qty), b). (ref, pid, b)) (zip ls flags)"
    and "length flags = length ls"
    and d: "items_of d ref = map item_result_of (filter (\<lambda>r. bio_order_ref r = ref) rs)"
  shows "order_outcome (items_of d ref) = Persisted \<longleftrightarrow>
      (\<exists>l \<in> set ls. fst l = ref) \<and> (\<forall>(l, b) \<in> set (zip ls flags). fst l = ref \<longrightarrow> b)"
    and "order_outcome (items_of d ref) = Failed \<longleftrightarrow> (\<forall>(l, b) \<in> set (zip ls flags). fst l = ref \<longrightarrow> \<not> b)"
proof -
  have pairs: "(\<lambda>x. (bio_order_ref x, bio_reserved x)) ` set rs = (\<lambda>(l, b). (fst l, b)) ` set (zip ls flags)"
  proof -
    have "map (\<lambda>(r, p, b). (r, b)) (map (\<lambda>x. (bio_order_ref x, bio_product_id x, bio_reserved x)) rs) =
        map (\<lambda>(r, p, b). (r, b)) (map (\<lambda>((ref, pid, qty), b). (ref, pid, b)) (zip ls flags))"
      using results by simp
    then have "map (\<lambda>x. (bio_order_ref x, bio_reserved x)) rs = map (\<lambda>(l, b). (fst l, b)) (zip ls flags)"
      by (simp add: comp_def split_def)
    then show ?thesis by (metis list.set_map)
  qed
  have ls: "set ls = fst ` set (zip ls flags)"
    using assms(2) by (metis list.set_map map_fst_zip)
  have all: "list_all res_reserved (items_of d ref) \<longleftrightarrow> (\<forall>(l, b) \<in> set (zip ls flags). fst l = ref \<longrightarrow> b)"
  proof -
    have "list_all res_reserved (items_of d ref) \<longleftrightarrow>
        (\<forall>(r, b) \<in> (\<lambda>x. (bio_order_ref x, bio_reserved x)) ` set rs. r = ref \<longrightarrow> b)"
      by (auto simp: d list_all_iff item_result_of_def)
    then show ?thesis unfolding pairs by auto
  qed
  have ex: "list_ex res_reserved (items_of d ref) \<longleftrightarrow> (\<exists>(l, b) \<in> set (zip ls flags). fst l = ref \<and> b)"
  proof -
    have "list_ex res_reserved (items_of d ref) \<longleftrightarrow>
        (\<exists>(r, b) \<in> (\<lambda>x. (bio_order_ref x, bio_reserved x)) ` set rs. r = ref \<and> b)"
      by (auto simp: d list_ex_iff item_result_of_def)
    then show ?thesis unfolding pairs by (simp add: split_def)
  qed
  have ne: "items_of d ref \<noteq> [] \<longleftrightarrow> (\<exists>l \<in> set ls. fst l = ref)"
  proof -
    have "items_of d ref \<noteq> [] \<longleftrightarrow> ref \<in> fst ` (\<lambda>x. (bio_order_ref x, bio_reserved x)) ` set rs"
      by (force simp: d filter_empty_conv)
    then show ?thesis unfolding pairs ls by force
  qed
  show "order_outcome (items_of d ref) = Persisted \<longleftrightarrow>
      (\<exists>l \<in> set ls. fst l = ref) \<and> (\<forall>(l, b) \<in> set (zip ls flags). fst l = ref \<longrightarrow> b)"
    unfolding order_outcome_def all [symmetric] ne [symmetric] by simp
  show "order_outcome (items_of d ref) = Failed \<longleftrightarrow> (\<forall>(l, b) \<in> set (zip ls flags). fst l = ref \<longrightarrow> \<not> b)"
  proof -
    have "order_outcome xs = Failed \<longleftrightarrow> \<not> list_ex res_reserved xs" for xs
      by (cases xs) (auto simp: order_outcome_def)
    from this [of "items_of d ref", unfolded ex] show ?thesis by (auto simp: split_def)
  qed
qed

section \<open>The whole request\<close>

lemma build_orders_eq:
  "build_orders uuid payload = map (\<lambda>k. build_order (uuid k) (payload ! k)) [0..<length payload]"
  by (rule nth_equalityI) (simp_all add: build_orders_def nth_enumerate_eq)

context reliable_inventory
begin

lemma release_quietly_reliable:
  assumes "wf w" "reliable w" "ref \<noteq> ''''" "release_quietly client ref w = (ok, w')"
  shows "ok" "wf w'" "reliable w'" "view w' = unhold ref (view w)"
proof -
  obtain s w1 where call: "release_rpc client ref w = (s, w1)" by fastforce
  from release_reliable [OF assms(1,2,3) call] obtain x where "s = Inr x" "reliable w1" by auto
  moreover from this assms(4) call have "ok" "w' = w1" by (simp_all add: release_quietly_def)
  ultimately show "ok" "wf w'" "reliable w'" "view w' = unhold ref (view w)"
    using release [OF assms(1,3) call] by (simp_all add: release_law_def)
qed

lemma release_all_reliable:
  assumes "wf w" "reliable w" "\<forall>ref \<in> set refs. ref \<noteq> ''''" "release_all client refs w = (ok, w')"
  shows "ok \<and> wf w' \<and> reliable w' \<and> view w' = fold unhold refs (view w)"
  using assms
proof (induction refs arbitrary: w)
  case Nil
  then show ?case by simp
next
  case (Cons ref refs)
  obtain b w1 where first: "release_quietly client ref w = (b, w1)" by fastforce
  have "ref \<noteq> ''''" using Cons.prems(3) by simp
  note step = release_quietly_reliable [OF Cons.prems(1,2) this first]
  have "release_all client refs w1 = (ok, w')" using Cons.prems(4) first step(1) by simp
  from Cons.IH [OF step(2,3) _ this] Cons.prems(3) step(4) show ?case by simp
qed

end

lemma fold_unhold:
  "h_lines (fold unhold refs V) r = (if r \<in> set refs then {#} else h_lines V r)"
  "h_keyed (fold unhold refs V) r \<longleftrightarrow> h_keyed V r \<and> r \<notin> set refs"
  by (induction refs arbitrary: V) auto

text \<open>
  A batch that is answered: its orders are fresh, the outcome of each is read off the lines
  the inventory holds for it, and the two databases stay consistent.
\<close>

text \<open>What a batch reported about one order, against what the two databases have of it.\<close>

definition bulk_result_true :: "order_db \<Rightarrow> holdings \<Rightarrow> new_order \<Rightarrow> bulk_order_result \<Rightarrow> bool" where
  "bulk_result_true odb V ord result \<longleftrightarrow>
     bor_order_ref result = no_id ord \<and>
     (if bor_status result = Persisted
      then (\<exists>o'. session_get (no_id ord) odb = Some o' \<and> o_items o' = no_items ord
              \<and> h_lines V (no_id ord) = order_lines o')
      else session_get (no_id ord) odb = None \<and> h_lines V (no_id ord) = {#})"

lemma find_filter_distinct:
  assumes "distinct (map f xs)" "x \<in> set xs"
  shows "find (\<lambda>y. f y = f x) (filter P xs) = (if P x then Some x else None)"
  using assms by (induction xs) (auto simp: find_None_iff image_iff)

context reliable_inventory
begin

lemma create_orders_bulk_answered:
  assumes inv: "saga_inv wf view reliable (odb, w)"
    and refs: "distinct (map no_id (build_orders uuid payload))"
      "\<forall>ord \<in> set (build_orders uuid payload). proper_ref (no_id ord) \<and> session_get (no_id ord) odb = None"
    and call: "create_orders_bulk client f now uuid payload (odb, w) = (Inr out, odb', w')"
  shows "saga_inv wf view reliable (odb', w')"
    and "boo_total_orders out = int (length payload)"
    and "boo_persisted_count out =
      int (length (filter (\<lambda>r. bor_status r = Persisted) (boo_results out)))"
    and "list_all2 (bulk_result_true odb' (view w')) (build_orders uuid payload) (boo_results out)"
proof -
  let ?ords = "build_orders uuid payload"
  let ?ls = "flatten_lines ?ords"
  from inv have ok: "wf w" "reliable w" "odb_ok odb" "consistent odb (view w)"
    by (simp_all add: saga_inv_def)
  obtain t w1 where rpc: "bulk_rpc client ?ls w = (t, w1)" by fastforce
  with call obtain summary where t: "t = Inr summary"
    by (cases t) (auto simp: create_orders_bulk_def)
  have "list_all (\<lambda>l. proper_ref (fst l)) ?ls"
    using refs(2) flatten_refs by (fastforce simp: list_all_iff)
  from bulk [OF ok(1) this rpc] bulk_reliable [OF ok(1,2) rpc]
  obtain flags where w1: "wf w1" "reliable w1" and flags: "length flags = length ?ls"
    and view1: "view w1 = hold_flagged ?ls flags (view w)"
    and results: "map (\<lambda>x. (bio_order_ref x, bio_product_id x, bio_reserved x)) (brs_results summary) =
      map (\<lambda>((ref, pid, qty), b). (ref, pid, b)) (zip ?ls flags)"
    by (auto simp: bulk_law_def t)
  let ?init = "\<lambda>r. if r \<in> no_id ` set ?ords then Some [] else None"
  from call rpc obtain d where d: "regroup (brs_results summary) ?init = Some d"
    by (auto simp: create_orders_bulk_def t Let_def split: option.splits)
  let ?added = "filter (\<lambda>ord. outcome_of d ord = Persisted) ?ords"
  let ?stranded = "map no_id (filter (\<lambda>ord. outcome_of d ord = Partial) ?ords)"
  let ?results = "map (\<lambda>ord. \<lparr>bor_order_ref = no_id ord, bor_status = outcome_of d ord,
                 bor_items = items_of d (no_id ord)\<rparr>) ?ords"
  obtain ok1 odb1 where commit: "session_commit (sf_commit f) now ?added odb = (ok1, odb1)" by fastforce
  obtain ok2 w2 where released: "release_all client ?stranded w1 = (ok2, w2)" by fastforce
  from call rpc d commit released have fin: ok1 "odb' = odb1" "w' = w2"
    "out = \<lparr>boo_total_orders = int (length ?ords), boo_persisted_count = int (length ?added),
       boo_results = ?results\<rparr>"
    by (cases ok1; cases ok2; auto simp: create_orders_bulk_def t classify_eq Let_def)+
  have stored: "odb_ok odb'" "session_get i odb' = (case find (\<lambda>ord. no_id ord = i) ?added of
      Some ord \<Rightarrow> Some (order_of now ord) | None \<Rightarrow> session_get i odb)" for i
    using session_commit_True [OF _ ok(3)] commit fin(1,2) by auto
  have "\<forall>ref \<in> set ?stranded. ref \<noteq> ''''" using refs(2) by (auto simp: proper_ref_def)
  from release_all_reliable [OF w1 this released] fin(3)
  have w': "wf w'" "reliable w'" "view w' = fold unhold ?stranded (view w1)" by auto
  have lines': "h_lines (view w') ref = (if ref \<in> set ?stranded then {#}
      else h_lines (view w) ref + flagged_lines ?ls flags ref)" for ref
    by (simp only: w'(3) fold_unhold view1 hold_flagged_lines)
  have per_order: "session_get (no_id ord) odb' =
      (if outcome_of d ord = Persisted then Some (order_of now ord) else None)
    \<and> h_lines (view w') (no_id ord) = (if outcome_of d ord = Persisted
        then order_lines (order_of now ord) else {#})" if ord: "ord \<in> set ?ords" for ord
  proof -
    have items: "items_of d (no_id ord) =
        map item_result_of (filter (\<lambda>r. bio_order_ref r = no_id ord) (brs_results summary))"
      using d ord by (auto simp: regroup_eq items_of_def split: if_splits)
    note outcome = outcome_flags [OF results flags items, folded outcome_of_def]
    have found: "find (\<lambda>o'. no_id o' = no_id ord) ?added =
        (if outcome_of d ord = Persisted then Some ord else None)"
      by (rule find_filter_distinct [OF refs(1) ord])
    have fresh: "session_get (no_id ord) odb = None" "h_lines (view w) (no_id ord) = {#}"
      using refs(2) ord consistent_new(1) [OF ok(4)] by auto
    have "no_id ord \<in> set ?stranded \<longleftrightarrow> outcome_of d ord = Partial"
      using refs(1) ord by (auto simp: distinct_map inj_on_def)
    moreover have "outcome_of d ord = Persisted \<Longrightarrow>
        flagged_lines ?ls flags (no_id ord) = order_lines (order_of now ord)"
      using outcome(1) flagged_all [OF flags] lines_for_flatten [OF refs(1) ord]
      by (simp add: order_lines_def order_of_def)
    moreover have "outcome_of d ord = Failed \<Longrightarrow> flagged_lines ?ls flags (no_id ord) = {#}"
      using outcome(2) flagged_none by blast
    ultimately show ?thesis
      using found fresh by (cases "outcome_of d ord") (simp_all add: stored(2) lines')
  qed
  have other: "session_get ref odb' = session_get ref odb \<and> h_lines (view w') ref = h_lines (view w) ref"
    if "ref \<notin> no_id ` set ?ords" for ref
  proof -
    have "find (\<lambda>ord. no_id ord = ref) ?added = None" using that by (auto simp: find_None_iff)
    moreover have "flagged_lines ?ls flags ref = {#}"
      using that flatten_refs by (intro flagged_none) (fastforce dest: set_zip_leftD)
    moreover have "ref \<notin> set ?stranded" using that by auto
    ultimately show ?thesis by (simp add: stored(2) lines')
  qed
  have keyed: "\<not> h_keyed (view w') ref" if "session_get ref odb' = None" for ref
  proof -
    have "session_get ref odb = None" using that by (auto simp: stored(2) split: option.splits)
    then show ?thesis using consistent_new(2) [OF ok(4)] by (simp add: w'(3) fold_unhold view1)
  qed
  have "h_lines (view w') ref = (case session_get ref odb' of None \<Rightarrow> {#} | Some ord \<Rightarrow> order_lines ord)" for ref
  proof (cases "ref \<in> no_id ` set ?ords")
    case True
    then show ?thesis using per_order by auto
  next
    case False
    with other [OF False] ok(4) show ?thesis by (simp add: consistent_def)
  qed
  with keyed w' stored(1) show "saga_inv wf view reliable (odb', w')"
    by (simp add: saga_inv_def consistent_def)
  show "boo_total_orders out = int (length payload)"
    by (simp add: fin(4) build_orders_eq)
  show "boo_persisted_count out =
      int (length (filter (\<lambda>r. bor_status r = Persisted) (boo_results out)))"
    by (simp add: fin(4) filter_map comp_def)
  show "list_all2 (bulk_result_true odb' (view w')) (build_orders uuid payload) (boo_results out)"
    using per_order
    by (auto simp: fin(4) list_all2_conv_all_nth bulk_result_true_def order_of_def)
qed

end

section \<open>The answer\<close>

definition batch_refs :: "order_request \<Rightarrow> order_item_in list list \<Rightarrow> string list" where
  "batch_refs rq payload = map (\<lambda>k. uuid_str (rq_uuid rq k)) [0..<length payload]"

lemma batch_refs_distinct:
  assumes "distinct (map (rq_uuid rq) [0..<length payload])"
    and "list_all (\<lambda>k. rq_uuid rq k < 2 ^ 128) [0..<length payload]"
  shows "distinct (batch_refs rq payload)"
proof -
  have "inj_on (\<lambda>k. uuid_str (rq_uuid rq k)) (set [0..<length payload])"
  proof (rule inj_onI)
    fix i j
    assume ij: "i \<in> set [0..<length payload]" "j \<in> set [0..<length payload]"
      and eq: "uuid_str (rq_uuid rq i) = uuid_str (rq_uuid rq j)"
    then have "rq_uuid rq i = rq_uuid rq j"
      using assms(2) by (intro uuid_str_inj) (simp_all only: list_all_iff)
    moreover have "inj_on (rq_uuid rq) (set [0..<length payload])"
      using assms(1) by (simp only: distinct_map)
    ultimately show "i = j" using ij by (simp only: inj_on_def)
  qed
  then show ?thesis by (simp only: batch_refs_def distinct_map distinct_upt simp_thms)
qed

lemma build_orders_refs:
  "map no_id (build_orders (\<lambda>k. uuid_str (rq_uuid rq k)) payload) = batch_refs rq payload"
  by (simp add: build_orders_eq batch_refs_def comp_def)

lemma bulk_orders_reply:
  assumes "inventory_ok (db_of w)" "rm_fates w = []" "trusted d" "odb_ok odb"
    and "consistent odb (view_of (db_of w))"
    and "distinct (map (rq_uuid rq) [0..<length payload])"
    and "list_all (\<lambda>k. rq_uuid rq k < 2 ^ 128) [0..<length payload]"
    and "list_all (\<lambda>ref. session_get ref odb = None) (batch_refs rq payload)"
    and "post_orders_bulk (inventory_of d) rq payload (odb, w) = (Reply code out, odb', w')"
  shows "code = 200 \<and> boo_total_orders out = int (length payload)
    \<and> boo_persisted_count out =
        int (length (filter (\<lambda>r. bor_status r = Persisted) (boo_results out)))
    \<and> map bor_order_ref (boo_results out) = batch_refs rq payload
    \<and> list_all2 (\<lambda>items r.
         if bor_status r = Persisted
         then (\<exists>ord. session_get (bor_order_ref r) odb' = Some ord
                \<and> order_lines ord = mset (line_items items)
                \<and> lines_of (db_of w') (bor_order_ref r) = mset (line_items items))
         else session_get (bor_order_ref r) odb' = None
                \<and> lines_of (db_of w') (bor_order_ref r) = {#}) payload (boo_results out)
    \<and> consistent odb' (view_of (db_of w'))"
proof -
  let ?uuid = "\<lambda>k. uuid_str (rq_uuid rq k)"
  obtain r s where call: "create_orders_bulk (inventory_of d) (rq_faults rq) (rq_now rq) ?uuid payload
      (odb, w) = (r, s)"
    by (metis surj_pair)
  have ok: "code = 200" "r = Inr out" "s = (odb', w')"
    using assms(9) call
    by (auto simp: post_orders_bulk_def http_reply_of_def split: if_splits sum.splits api_error.splits)
  have inv: "saga_inv (\<lambda>w. inventory_ok (db_of w)) (\<lambda>w. view_of (db_of w))
      (\<lambda>w. rm_fates w = [] \<and> trusted d) (odb, w)"
    using assms(1-5) by (simp add: saga_inv_def)
  have refs: "distinct (map no_id (build_orders ?uuid payload))"
    using batch_refs_distinct [OF assms(6,7)] by (simp only: build_orders_refs)
  have "\<forall>ref \<in> set (map no_id (build_orders ?uuid payload)). proper_ref ref \<and> session_get ref odb = None"
    using assms(8) uuid_proper unfolding build_orders_refs by (auto simp: batch_refs_def list_all_iff)
  then have fresh: "\<forall>ord \<in> set (build_orders ?uuid payload).
      proper_ref (no_id ord) \<and> session_get (no_id ord) odb = None"
    by simp
  note batch = reliably.create_orders_bulk_answered [OF inv refs fresh call [unfolded ok(2,3)]]
  have each: "list_all2 (bulk_result_true odb' (view_of (db_of w')))
      (map (\<lambda>k. build_order (?uuid k) (payload ! k)) [0..<length payload]) (boo_results out)"
    using batch(4) by (simp only: build_orders_eq)
  then have len: "length (boo_results out) = length payload" by (auto dest: list_all2_lengthD)
  have one: "bulk_result_true odb' (view_of (db_of w')) (build_order (?uuid k) (payload ! k))
      (boo_results out ! k)" if "k < length payload" for k
    using list_all2_nthD [OF each, of k] that by simp
  have "map bor_order_ref (boo_results out) = batch_refs rq payload"
    using one len by (auto simp: batch_refs_def bulk_result_true_def intro: nth_equalityI)
  moreover have lines: "order_lines ord = mset (line_items payload')"
    if "o_items ord = no_items (build_order ref payload')" for ord ref payload'
    using that by (simp add: order_lines_def build_order_def line_items_def comp_def)
  have true: "if bor_status (boo_results out ! k) = Persisted
      then (\<exists>ord. session_get (bor_order_ref (boo_results out ! k)) odb' = Some ord
             \<and> order_lines ord = mset (line_items (payload ! k))
             \<and> lines_of (db_of w') (bor_order_ref (boo_results out ! k)) = mset (line_items (payload ! k)))
      else session_get (bor_order_ref (boo_results out ! k)) odb' = None
             \<and> lines_of (db_of w') (bor_order_ref (boo_results out ! k)) = {#}" if "k < length payload" for k
  proof (cases "bor_status (boo_results out ! k) = Persisted")
    case True
    with one [OF that] obtain ord where "session_get (?uuid k) odb' = Some ord"
      "o_items ord = no_items (build_order (?uuid k) (payload ! k))"
      "lines_of (db_of w') (?uuid k) = order_lines ord" "bor_order_ref (boo_results out ! k) = ?uuid k"
      by (auto simp: bulk_result_true_def)
    with True lines [of ord "?uuid k" "payload ! k"] show ?thesis by simp
  next
    case False
    with one [OF that] show ?thesis by (simp add: bulk_result_true_def)
  qed
  then have "list_all2 (\<lambda>items r.
         if bor_status r = Persisted
         then (\<exists>ord. session_get (bor_order_ref r) odb' = Some ord
                \<and> order_lines ord = mset (line_items items)
                \<and> lines_of (db_of w') (bor_order_ref r) = mset (line_items items))
         else session_get (bor_order_ref r) odb' = None
                \<and> lines_of (db_of w') (bor_order_ref r) = {#}) payload (boo_results out)"
    using len by (simp only: list_all2_conv_all_nth) simp
  ultimately show ?thesis
    using batch(1-3) ok(1) by (simp add: saga_inv_def)
qed

subsection \<open>A batch is answered\<close>

lemma client_bulk_delivered:
  assumes "inventory_ok (db_of w)" "rm_fates w = []" "trusted d"
    and "list_all (\<lambda>l. proper_ref (fst l)) ls" "list_all (in_range \<circ> snd) ls"
  shows "\<exists>summary w'. client_reserve_stock_bulk d ls w = (Inr summary, w')
    \<and> brs_results summary = fst (run_ops (bulk_step (dp_clk d)) (map bulk_message ls) (db_of w))
    \<and> db_of w' = snd (run_ops (bulk_step (dp_clk d)) (map bulk_message ls) (db_of w))"
proof -
  have "\<forall>item \<in> set (map bulk_message ls). fits (bri_order_ref item)"
    using assms(4) by (auto simp: list_all_iff proper_ref_def)
  moreover have "db_ok (db_of w)" using assms(1) by (simp add: inventory_ok_def)
  ultimately obtain summary where
    handled: "ReserveStockBulk_handler (dp_clk d) (map bulk_message ls) (db_of w) =
      (Inr summary, snd (run_ops (bulk_step (dp_clk d)) (map bulk_message ls) (db_of w)))"
    and results: "brs_results summary = fst (run_ops (bulk_step (dp_clk d)) (map bulk_message ls) (db_of w))"
    by (simp add: ReserveStockBulk_handler_eq split_def Let_def)
  let ?s = "server_call d StreamUnary ''ReserveStockBulk'' (BulkRq (map bulk_message ls)) (rm_server w)"
  have reply: "fst ?s = Inr [BulkRp summary]"
      "app (snd ?s) = snd (run_ops (bulk_step (dp_clk d)) (map bulk_message ls) (db_of w))"
    using assms(3) handled by (simp_all add: server_call_ReserveStockBulk call_result_def flip: db_of_def)
  have "stub_call d StreamUnary ''ReserveStockBulk'' (BulkRq (map bulk_message ls)) w =
      (fst ?s, \<lparr>rm_server = snd ?s, rm_fates = []\<rparr>)"
    by (rule stub_delivered) (use assms(2) reply(1) in simp_all)
  moreover have "takeWhile (in_range \<circ> snd) ls = ls"
    using assms(5) by (simp add: list_all_iff takeWhile_eq_all_conv)
  ultimately have "client_reserve_stock_bulk d ls w = (Inr summary, \<lparr>rm_server = snd ?s, rm_fates = []\<rparr>)"
    using reply(1) by (simp add: client_reserve_stock_bulk_def)
  with reply(2) results show ?thesis by simp
qed

text \<open>
  Which lines of a batch get their stock, on an inventory with the quantities \<open>left\<close>: each takes
  what the ones before it left, whatever order they belong to.
\<close>

fun granted :: "(int \<Rightarrow> int option) \<Rightarrow> (int \<times> int) list \<Rightarrow> bool list" where
  "granted left [] = []"
| "granted left ((pid, qty) # ls) =
     (case left pid of
        None \<Rightarrow> False # granted left ls
      | Some n \<Rightarrow> if 0 < qty \<and> qty \<le> n then True # granted (left(pid \<mapsto> n - qty)) ls
                 else False # granted left ls)"

lemma in_stock_known:
  "map_option p_available (product_get pid db) = (if known db pid then Some (available db pid) else None)"
  by (auto simp: known_def available_def)

lemma bulk_granted:
  assumes "db_ok db" "list_all (\<lambda>l. proper_ref (fst l)) ls"
  shows "map bio_reserved (fst (run_ops (bulk_step clk) (map bulk_message ls) db)) =
    granted (\<lambda>pid. map_option p_available (product_get pid db)) (map snd ls)"
  using assms
proof (induction ls arbitrary: db)
  case Nil
  then show ?case by simp
next
  case (Cons l ls)
  obtain ref pid qty where l: "l = (ref, pid, qty)" by (cases l) auto
  have ref: "ref \<noteq> ''''" "fits ref" using Cons.prems(2) by (auto simp: l proper_ref_def)
  let ?item = "\<lparr>ri_product = pid, ri_quantity = qty\<rparr>"
  let ?db = "take_line clk ref '''' ?item db"
  have step: "bulk_step clk (bulk_message l) db =
      (if line_fits ?item db then (bulk_outcome (bulk_message l) pid True '''', ?db)
       else (bulk_outcome (bulk_message l) pid False (line_reason ?item db), db))"
    using ref by (simp add: l bulk_step_def bulk_message_def bulk_line_def)
  have rest: "list_all (\<lambda>l. proper_ref (fst l)) ls" using Cons.prems(2) by simp
  show ?case
  proof (cases "line_fits ?item db")
    case True
    then have fit: "known db pid" "0 < qty" "qty \<le> available db pid" by (simp_all add: line_fits_def)
    have "db_ok ?db" using bulk_step_db_ok [OF Cons.prems(1), of clk "bulk_message l"] True step by simp
    note tail = Cons.IH [OF this rest]
    have "(\<lambda>p. map_option p_available (product_get p ?db)) =
        (\<lambda>p. map_option p_available (product_get p db))(pid \<mapsto> available db pid - qty)"
      using fit(1) by (auto simp: in_stock_known take_line_available)
    then show ?thesis
      using tail True step fit by (simp add: l split_def Let_def in_stock_known)
  next
    case False
    then have "\<not> (known db pid \<and> 0 < qty \<and> qty \<le> available db pid)" by (auto simp: line_fits_def)
    then show ?thesis
      using Cons.IH [OF Cons.prems(1) rest] False step
      by (auto simp: l split_def Let_def in_stock_known)
  qed
qed

text \<open>The outcomes of the stream, put back to their orders.\<close>

lemma filter_refs: "map bio_order_ref rs = map (\<lambda>_. ref) xs \<Longrightarrow> filter (\<lambda>r. bio_order_ref r = ref') rs = (if ref' = ref then rs else [])"
  by (induction xs arbitrary: rs) (auto simp: map_eq_Cons_conv)

lemma regrouped:
  assumes "distinct (map no_id ords)"
    and "map (\<lambda>r. (bio_order_ref r, bio_product_id r)) rs = map (\<lambda>(ref, pid, _). (ref, pid)) (flatten_lines ords)"
  shows "concat (map (\<lambda>ord. filter (\<lambda>r. bio_order_ref r = no_id ord) rs) ords) = rs"
    and "ord \<in> set ords \<Longrightarrow> map bio_product_id (filter (\<lambda>r. bio_order_ref r = no_id ord) rs) =
      map oi_product_id (no_items ord)"
proof -
  have "concat (map (\<lambda>ord. filter (\<lambda>r. bio_order_ref r = no_id ord) rs) ords) = rs
    \<and> (\<forall>ord \<in> set ords. map bio_product_id (filter (\<lambda>r. bio_order_ref r = no_id ord) rs) =
        map oi_product_id (no_items ord))"
    using assms
  proof (induction ords arbitrary: rs)
    case Nil
    then show ?case by (simp add: flatten_lines_def)
  next
    case (Cons x xs)
    let ?n = "length (no_items x)"
    let ?a = "take ?n rs" and ?b = "drop ?n rs"
    have split: "map (\<lambda>r. (bio_order_ref r, bio_product_id r)) rs =
        map (\<lambda>i. (no_id x, oi_product_id i)) (no_items x) @ map (\<lambda>(ref, pid, _). (ref, pid)) (flatten_lines xs)"
      using Cons.prems(2) by (simp add: flatten_lines_def comp_def)
    have a: "map (\<lambda>r. (bio_order_ref r, bio_product_id r)) ?a = map (\<lambda>i. (no_id x, oi_product_id i)) (no_items x)"
      and b: "map (\<lambda>r. (bio_order_ref r, bio_product_id r)) ?b = map (\<lambda>(ref, pid, _). (ref, pid)) (flatten_lines xs)"
      using arg_cong [OF split, of "take ?n"] arg_cong [OF split, of "drop ?n"]
      by (simp_all add: take_map drop_map)
    have refs_a: "map bio_order_ref ?a = map (\<lambda>_. no_id x) (no_items x)"
      and pids_a: "map bio_product_id ?a = map oi_product_id (no_items x)"
      using arg_cong [OF a, of "map fst"] arg_cong [OF a, of "map snd"] by (simp_all add: comp_def)
    have refs_b: "map bio_order_ref ?b = map fst (flatten_lines xs)"
      using arg_cong [OF b, of "map fst"] by (simp add: comp_def split_def)
    have "bio_order_ref r \<noteq> no_id x" if "r \<in> set ?b" for r
    proof -
      have "bio_order_ref r \<in> set (map fst (flatten_lines xs))" using that refs_b by (metis image_eqI list.set_map)
      then have "bio_order_ref r \<in> no_id ` set xs" using flatten_refs by fastforce
      then show ?thesis using Cons.prems(1) by auto
    qed
    then have none: "filter (\<lambda>r. bio_order_ref r = no_id x) ?b = []" by (simp add: filter_empty_conv)
    have parts: "filter (\<lambda>r. bio_order_ref r = ref) rs =
        (if ref = no_id x then ?a else filter (\<lambda>r. bio_order_ref r = ref) ?b)" for ref
      using filter_refs [OF refs_a, of ref] none
      by (subst append_take_drop_id [of ?n rs, symmetric], subst filter_append) auto
    have other: "no_id y \<noteq> no_id x" if "y \<in> set xs" for y
      using Cons.prems(1) imageI [OF that, of no_id] by auto
    then have same: "map (\<lambda>ord. filter (\<lambda>r. bio_order_ref r = no_id ord) rs) xs =
        map (\<lambda>ord. filter (\<lambda>r. bio_order_ref r = no_id ord) ?b) xs"
      by (simp add: parts)
    have IH: "concat (map (\<lambda>ord. filter (\<lambda>r. bio_order_ref r = no_id ord) ?b) xs) = ?b"
      "\<forall>ord \<in> set xs. map bio_product_id (filter (\<lambda>r. bio_order_ref r = no_id ord) ?b) =
        map oi_product_id (no_items ord)"
      using Cons.IH [OF _ b] Cons.prems(1) by simp_all
    have "concat (map (\<lambda>ord. filter (\<lambda>r. bio_order_ref r = no_id ord) rs) (x # xs)) = ?a @ ?b"
      by (simp only: list.map concat.simps same IH(1)) (simp only: parts if_True refl)
    moreover have "map bio_product_id (filter (\<lambda>r. bio_order_ref r = no_id ord) rs) = map oi_product_id (no_items ord)"
      if "ord \<in> set (x # xs)" for ord
      using that IH(2) other pids_a by (auto simp only: parts list.set insert_iff if_True if_False split: if_splits)
    ultimately show ?case by (simp only: append_take_drop_id) blast
  qed
  then show "concat (map (\<lambda>ord. filter (\<lambda>r. bio_order_ref r = no_id ord) rs) ords) = rs"
    and "ord \<in> set ords \<Longrightarrow> map bio_product_id (filter (\<lambda>r. bio_order_ref r = no_id ord) rs) =
      map oi_product_id (no_items ord)"
    by blast+
qed

lemma create_orders_bulk_delivered:
  assumes inv: "inventory_ok (db_of w)" "rm_fates w = []" "trusted d" "odb_ok odb"
    and refs: "distinct (map no_id (build_orders uuid payload))"
      "\<forall>ord \<in> set (build_orders uuid payload). proper_ref (no_id ord) \<and> session_get (no_id ord) odb = None"
    and "list_all storable payload"
  shows "\<exists>out s. create_orders_bulk (inventory_of d) no_faults now uuid payload (odb, w) = (Inr out, s)
    \<and> (\<forall>r \<in> set (boo_results out). bor_status r = order_outcome (bor_items r))
    \<and> map (map res_product_id \<circ> bor_items) (boo_results out) = map (map fst \<circ> line_items) payload
    \<and> map res_reserved (concat (map bor_items (boo_results out))) =
        granted (\<lambda>pid. map_option p_available (product_get pid (db_of w))) (concat (map line_items payload))"
proof -
  let ?ords = "build_orders uuid payload"
  let ?ls = "flatten_lines ?ords"
  have proper: "list_all (\<lambda>l. proper_ref (fst l)) ?ls"
    using refs(2) flatten_refs by (fastforce simp: list_all_iff)
  have items: "list_all (\<lambda>x. in_int4 (oi_product_id x) \<and> in_int4 (oi_quantity x)) (no_items ord)"
    if "ord \<in> set ?ords" for ord
  proof -
    from that obtain k where k: "k < length payload" "ord = build_order (uuid k) (payload ! k)"
      by (auto simp: build_orders_eq)
    then have "storable (payload ! k)" using assms(7) by (simp add: list_all_length)
    with k(2) show ?thesis by (simp add: build_order_def storable_def list_all_iff)
  qed
  then have range: "list_all (in_range \<circ> snd) ?ls"
    by (fastforce simp: flatten_lines_def list_all_iff in_range_def in_int64_def in_int32_def in_int4_def
        max_int4_def)
  let ?rs = "fst (run_ops (bulk_step (dp_clk d)) (map bulk_message ?ls) (db_of w))"
  from client_bulk_delivered [OF inv(1-3) proper range] obtain summary w1 where
    call: "client_reserve_stock_bulk d ?ls w = (Inr summary, w1)"
    and summary: "brs_results summary = ?rs" by blast
  then have rpc: "bulk_rpc (inventory_of d) ?ls w = (Inr summary, w1)" by (simp add: inventory_of_def)
  from client_bulk_law [OF inv(1) proper call] obtain flags where
    w1: "inventory_ok (db_of w1)" and
    results: "map (\<lambda>x. (bio_order_ref x, bio_product_id x, bio_reserved x)) (brs_results summary) =
      map (\<lambda>((ref, pid, qty), b). (ref, pid, b)) (zip ?ls flags)"
    by (auto simp: bulk_law_def)
  have "bio_order_ref ` set (brs_results summary) =
      fst ` set (map (\<lambda>x. (bio_order_ref x, bio_product_id x, bio_reserved x)) (brs_results summary))"
    by (force simp: image_iff)
  also have "\<dots> \<subseteq> no_id ` set ?ords"
    unfolding results using flatten_refs by (fastforce dest: set_zip_leftD)
  finally have "\<forall>r \<in> set (brs_results summary). bio_order_ref r \<in> no_id ` set ?ords" by blast
  then have "\<exists>d'. regroup (brs_results summary)
      (\<lambda>r. if r \<in> no_id ` set ?ords then Some [] else None) = Some d'"
    unfolding regroup_eq by (intro exI) (rule if_P, simp)
  then obtain d' where d': "regroup (brs_results summary)
      (\<lambda>r. if r \<in> no_id ` set ?ords then Some [] else None) = Some d'"
    by blast
  let ?added = "filter (\<lambda>ord. outcome_of d' ord = Persisted) ?ords"
  have "\<exists>odb1. flush_orders now ?added odb = Inr odb1"
    by (rule flush_orders_succeeds) (use inv(4) refs items in \<open>auto simp: distinct_map_filter\<close>)
  then obtain odb1 where commit: "session_commit CommitRuns now ?added odb = (True, odb1)"
    by (cases "?added = []") (auto simp: session_commit_def)
  have rel: "rm_fates w1 = [] \<and> trusted d"
    using client_bulk_reliable [OF _ call] inv(2,3) by simp
  let ?stranded = "map no_id (filter (\<lambda>ord. outcome_of d' ord = Partial) ?ords)"
  obtain ok2 w2 where released: "release_all (inventory_of d) ?stranded w1 = (ok2, w2)" by fastforce
  have "\<forall>ref \<in> set ?stranded. ref \<noteq> ''''" using refs(2) by (auto simp: proper_ref_def)
  from reliably.release_all_reliable [OF w1 rel this released] have "ok2" by simp
  let ?results = "map (\<lambda>ord. \<lparr>bor_order_ref = no_id ord, bor_status = outcome_of d' ord,
                 bor_items = items_of d' (no_id ord)\<rparr>) ?ords"
  obtain out s where out: "create_orders_bulk (inventory_of d) no_faults now uuid payload (odb, w) = (Inr out, s)"
    "boo_results out = ?results"
    using \<open>ok2\<close> rpc d' commit released
    by (auto simp: create_orders_bulk_def classify_eq Let_def)
  have items_of: "items_of d' (no_id ord) = map item_result_of (filter (\<lambda>r. bio_order_ref r = no_id ord) ?rs)"
    if "ord \<in> set ?ords" for ord
    using d' that by (auto simp: regroup_eq items_of_def summary split: if_splits)
  have pairs: "map (\<lambda>r. (bio_order_ref r, bio_product_id r)) ?rs = map (\<lambda>(ref, pid, _). (ref, pid)) ?ls"
    using arg_cong [OF results, of "map (\<lambda>(r, p, b). (r, p))"] arg_cong [OF results, of length]
      bulk_replies [of "dp_clk d" "map bulk_message ?ls" "db_of w"]
    by (intro nth_equalityI) (auto simp: list_eq_iff_nth_eq bulk_message_def split_def)
  note home = regrouped [OF refs(1) pairs]
  have ords: "?ords = map (\<lambda>k. build_order (uuid k) (payload ! k)) [0..<length payload]" by (rule build_orders_eq)
  have "map (map res_product_id \<circ> bor_items) ?results = map (map oi_product_id \<circ> no_items) ?ords"
    using home(2) items_of by (simp add: item_result_of_def comp_def)
  also have "\<dots> = map (map fst \<circ> line_items) payload"
    by (rule nth_equalityI) (simp_all add: ords build_order_def line_items_def comp_def)
  finally have products: "map (map res_product_id \<circ> bor_items) ?results = map (map fst \<circ> line_items) payload" .
  have "concat (map bor_items ?results) = map item_result_of ?rs"
    using arg_cong [OF home(1), of "map item_result_of"] items_of by (simp add: comp_def map_concat cong: map_cong)
  then have "map res_reserved (concat (map bor_items ?results)) = map bio_reserved ?rs"
    by (simp add: item_result_of_def comp_def)
  also have "\<dots> = granted (\<lambda>pid. map_option p_available (product_get pid (db_of w))) (map snd ?ls)"
    by (rule bulk_granted [OF _ proper]) (use inv(1) in \<open>simp add: inventory_ok_def\<close>)
  also have "map snd ?ls = concat (map line_items payload)"
  proof -
    have "map snd ?ls = concat (map (\<lambda>ord. map (\<lambda>i. (oi_product_id i, oi_quantity i)) (no_items ord)) ?ords)"
      by (simp add: flatten_lines_def map_concat comp_def)
    also have "map (\<lambda>ord. map (\<lambda>i. (oi_product_id i, oi_quantity i)) (no_items ord)) ?ords = map line_items payload"
      by (rule nth_equalityI) (simp_all add: ords build_order_def line_items_def comp_def)
    finally show ?thesis .
  qed
  finally show ?thesis
    using out products by (auto simp: outcome_of_def)
qed

lemma bulk_results_status:
  assumes products: "map (map res_product_id \<circ> bor_items) rs = map (map fst \<circ> line_items) payload"
    and status: "\<forall>r \<in> set rs. bor_status r = order_outcome (bor_items r)" and "valid_bulk payload"
  shows "list_all2 (\<lambda>items r. map res_product_id (bor_items r) = map in_product_id items
         \<and> bor_status r = (if \<forall>x \<in> set (bor_items r). res_reserved x then Persisted
             else if \<exists>x \<in> set (bor_items r). res_reserved x then Partial else Failed)) payload rs"
proof (rule list_all2_all_nthI)
  show len: "length payload = length rs" using arg_cong [OF products, of length] by simp
  fix k assume k: "k < length payload"
  then have "map res_product_id (bor_items (rs ! k)) = map in_product_id (payload ! k)"
    using arg_cong [OF products, of "\<lambda>xs. xs ! k"] len by (simp add: line_items_def comp_def)
  moreover have "payload ! k \<noteq> []"
    using assms(3) k by (auto simp: valid_bulk_def valid_order_def list_all_length)
  ultimately show "map res_product_id (bor_items (rs ! k)) = map in_product_id (payload ! k)
         \<and> bor_status (rs ! k) = (if \<forall>x \<in> set (bor_items (rs ! k)). res_reserved x then Persisted
             else if \<exists>x \<in> set (bor_items (rs ! k)). res_reserved x then Partial else Failed)"
    using status k len by (auto simp: order_outcome_def list_all_iff list_ex_iff)
qed

section \<open>Properties\<close>

text \<open>
  C28: batches. Let the network deliver and no database call fail, the two databases be consistent
  and the identifiers drawn for the batch be distinct and fresh. A valid batch whose values fit
  the columns is answered with 200, whatever the stock. The answer lists every order in turn
  under its identifier, with a result for each of its lines in order. A line is reported as
  reserved exactly when the lines of the batch before it, of whatever order, left its quantity of
  its product. An order is reported as persisted when all its lines were reserved, as partial when
  only some were, and as failed when none was. A persisted order can be read back with its lines
  and the inventory holds exactly those; any other order is not persisted and the inventory holds
  nothing for it; the counts are right, and the databases are consistent again.
\<close>

theorem bulk_orders_answered:
  assumes "inventory_ok (db_of w)" "rm_fates w = []" "trusted d" "odb_ok odb"
    and "consistent odb (view_of (db_of w))" "rq_faults rq = no_faults"
    and "valid_bulk payload" "list_all storable payload"
    and "distinct (map (rq_uuid rq) [0..<length payload])"
    and "list_all (\<lambda>k. rq_uuid rq k < 2 ^ 128) [0..<length payload]"
    and "list_all (\<lambda>ref. session_get ref odb = None) (batch_refs rq payload)"
  shows "\<exists>out odb' w'. post_orders_bulk (inventory_of d) rq payload (odb, w) = (Reply 200 out, odb', w')
    \<and> boo_total_orders out = int (length payload)
    \<and> boo_persisted_count out =
        int (length (filter (\<lambda>r. bor_status r = Persisted) (boo_results out)))
    \<and> map bor_order_ref (boo_results out) = batch_refs rq payload
    \<and> list_all2 (\<lambda>items r. map res_product_id (bor_items r) = map in_product_id items
         \<and> bor_status r = (if \<forall>x \<in> set (bor_items r). res_reserved x then Persisted
             else if \<exists>x \<in> set (bor_items r). res_reserved x then Partial else Failed)) payload (boo_results out)
    \<and> map res_reserved (concat (map bor_items (boo_results out))) =
        granted (\<lambda>pid. map_option p_available (product_get pid (db_of w)))
          (map (\<lambda>i. (in_product_id i, in_quantity i)) (concat payload))
    \<and> list_all2 (\<lambda>items r.
         if bor_status r = Persisted
         then (\<exists>ord. session_get (bor_order_ref r) odb' = Some ord
                \<and> order_lines ord = mset (line_items items)
                \<and> lines_of (db_of w') (bor_order_ref r) = mset (line_items items))
         else session_get (bor_order_ref r) odb' = None
                \<and> lines_of (db_of w') (bor_order_ref r) = {#}) payload (boo_results out)
    \<and> consistent odb' (view_of (db_of w'))"
proof -
  let ?uuid = "\<lambda>k. uuid_str (rq_uuid rq k)"
  have refs: "distinct (map no_id (build_orders ?uuid payload))"
    using batch_refs_distinct [OF assms(9,10)] by (simp only: build_orders_refs)
  have "\<forall>ref \<in> set (map no_id (build_orders ?uuid payload)). proper_ref ref \<and> session_get ref odb = None"
    using assms(11) uuid_proper unfolding build_orders_refs by (auto simp: batch_refs_def list_all_iff)
  then have "\<forall>ord \<in> set (build_orders ?uuid payload). proper_ref (no_id ord) \<and> session_get (no_id ord) odb = None"
    by simp
  from create_orders_bulk_delivered [OF assms(1-4) refs this assms(8), of "rq_now rq"]
  obtain out odb' w' where
    call: "create_orders_bulk (inventory_of d) no_faults (rq_now rq) ?uuid payload (odb, w) = (Inr out, odb', w')"
    and status: "\<forall>r \<in> set (boo_results out). bor_status r = order_outcome (bor_items r)"
    and products: "map (map res_product_id \<circ> bor_items) (boo_results out) = map (map fst \<circ> line_items) payload"
    and reserved: "map res_reserved (concat (map bor_items (boo_results out))) =
        granted (\<lambda>pid. map_option p_available (product_get pid (db_of w))) (concat (map line_items payload))"
    by auto
  then have reply: "post_orders_bulk (inventory_of d) rq payload (odb, w) = (Reply 200 out, odb', w')"
    using assms(6,7) by (simp add: post_orders_bulk_def http_reply_of_def)
  have "concat (map line_items payload) = map (\<lambda>i. (in_product_id i, in_quantity i)) (concat payload)"
    by (simp add: map_concat line_items_def [abs_def])
  note reserved = reserved [unfolded this]
  have results: "list_all2 (\<lambda>items r. map res_product_id (bor_items r) = map in_product_id items
         \<and> bor_status r = (if \<forall>x \<in> set (bor_items r). res_reserved x then Persisted
             else if \<exists>x \<in> set (bor_items r). res_reserved x then Partial else Failed)) payload (boo_results out)"
    by (rule bulk_results_status [OF products status assms(7)])
  from bulk_orders_reply [OF assms(1-5,9-11) reply] reply results reserved show ?thesis by blast
qed

theorem bulk_orders_answered_witness:
  "\<exists>out odb' w'. post_orders_bulk (inventory_of demo_deployment) (quiet_request 7)
      [[item_in 3 4], [item_in 1 2, item_in 9 1]] (no_orders, demo_remote []) = (Reply 200 out, odb', w')
    \<and> boo_total_orders out = 2 \<and> map bor_status (boo_results out) = [Persisted, Partial]
    \<and> consistent odb' (view_of (db_of w'))"
proof -
  have "consistent no_orders (view_of (db_of (demo_remote [])))" by (simp add: demo_consistent)
  let ?batch = "[[item_in 3 4], [item_in 1 2, item_in 9 1]]"
  have "rm_fates (demo_remote []) = []" "trusted demo_deployment" "rq_faults (quiet_request 7) = no_faults"
    "valid_bulk ?batch" "list_all storable ?batch"
    "distinct (map (rq_uuid (quiet_request 7)) [0..<length ?batch])"
    "list_all (\<lambda>k. rq_uuid (quiet_request 7) k < 2 ^ 128) [0..<length ?batch]"
    "list_all (\<lambda>ref. session_get ref no_orders = None) (batch_refs (quiet_request 7) ?batch)"
    by (simp_all add: trusted_def valid_bulk_def valid_order_def valid_item_def storable_def in_int4_def
        max_int4_def no_orders_ok(2) batch_refs_def upt_rec list_all_iff del: upt_Suc)
  from bulk_orders_answered [OF demo_inventory_ok this(1,2) no_orders_ok(1) \<open>consistent _ _\<close> this(3-8)]
  obtain out odb' w' where
    reply: "post_orders_bulk (inventory_of demo_deployment) (quiet_request 7) ?batch (no_orders, demo_remote []) =
        (Reply 200 out, odb', w')"
      "boo_total_orders out = int (length ?batch)" "consistent odb' (view_of (db_of w'))"
    and results: "list_all2 (\<lambda>items r. map res_product_id (bor_items r) = map in_product_id items
         \<and> bor_status r = (if \<forall>x \<in> set (bor_items r). res_reserved x then Persisted
             else if \<exists>x \<in> set (bor_items r). res_reserved x then Partial else Failed)) ?batch (boo_results out)"
    and reserved: "map res_reserved (concat (map bor_items (boo_results out))) =
        granted (\<lambda>pid. map_option p_available (product_get pid (db_of (demo_remote []))))
          (map (\<lambda>i. (in_product_id i, in_quantity i)) (concat ?batch))"
    by blast
  have "granted (\<lambda>pid. map_option p_available (product_get pid (db_of (demo_remote []))))
      (map (\<lambda>i. (in_product_id i, in_quantity i)) (concat ?batch)) = [True, True, False]"
    by (simp add: demo_db_def product_get_def)
  with results reserved have "map bor_status (boo_results out) = [Persisted, Partial]"
    by (auto simp: list_all2_Cons1 map_eq_Cons_conv)
  with reply show ?thesis by (intro exI [of _ out] exI [of _ odb'] exI [of _ w']) simp
qed

subsection \<open>A commit that fails\<close>

lemma bulk_all_reserved:
  assumes "db_ok db" "\<forall>item \<in> set items. bri_order_ref item \<noteq> '''' \<and> fits (bri_order_ref item)"
    and "feasible (map bulk_line items) db"
  shows "list_all bio_reserved (fst (run_ops (bulk_step clk) items db))"
  using assms
proof (induction items arbitrary: db)
  case Nil
  then show ?case by simp
next
  case (Cons item items)
  let ?db = "take_line clk (bri_order_ref item) '''' (bulk_line item) db"
  have fit: "line_fits (bulk_line item) db" "feasible (map bulk_line items) ?db"
    using Cons.prems(3) feasible_Cons [OF Cons.prems(1)] by (metis list.simps(9))+
  then have step: "bulk_step clk item db = (bulk_outcome item (bri_product_id item) True '''', ?db)"
    using Cons.prems(2) by (simp add: bulk_step_def)
  moreover have "db_ok ?db" using bulk_step_db_ok [OF Cons.prems(1), of clk item] step by simp
  ultimately show ?case using Cons fit(2) by (simp add: split_def Let_def)
qed

lemma flagged_lines_all:
  "length flags = length ls \<Longrightarrow> list_all id flags \<Longrightarrow> flagged_lines ls flags ref = lines_for ls ref"
  by (induction ls flags rule: list_induct2') (auto simp: lines_for_def)

text \<open>
  A batch whose commit fails. The lines of the batch are committed in the inventory by then,
  and nothing compensates the failed commit: the caller gets a 500, no order is persisted, and
  the stock of the batch stays held under a reference that no one will use again.
\<close>

theorem bulk_commit_failure_strands_stock:
  assumes "inventory_ok (db_of w)" "rm_fates w = []" "trusted d"
    and "valid_order items" "storable items" "stocked items (db_of w)"
    and "sf_commit (rq_faults rq) = CommitFails"
  shows "\<exists>w'. post_orders_bulk (inventory_of d) rq [items] (odb, w) = (Error 500 None, odb, w')
    \<and> lines_of (db_of w') (uuid_str (rq_uuid rq 0)) =
        lines_of (db_of w) (uuid_str (rq_uuid rq 0)) + mset (line_items items)"
proof -
  let ?ref = "uuid_str (rq_uuid rq 0)"
  let ?ord = "build_order ?ref items"
  let ?ls = "flatten_lines [?ord]"
  have ords: "build_orders (\<lambda>k. uuid_str (rq_uuid rq k)) [items] = [?ord]"
    by (simp add: build_orders_def)
  have ls: "?ls = map (\<lambda>(pid, qty). (?ref, pid, qty)) (line_items items)"
    by (simp add: flatten_lines_def build_order_def line_items_def comp_def)
  have proper: "list_all (\<lambda>l. proper_ref (fst l)) ?ls"
    using uuid_proper by (auto simp: ls list_all_iff)
  have range: "list_all (in_range \<circ> snd) ?ls"
    using storable_in_range [OF assms(5)] by (auto simp: ls list_all_iff)
  let ?run = "run_ops (bulk_step (dp_clk d)) (map bulk_message ?ls) (db_of w)"
  from client_bulk_delivered [OF assms(1-3) proper range] obtain summary w1 where
    call: "client_reserve_stock_bulk d ?ls w = (Inr summary, w1)" and
    run: "brs_results summary = fst ?run" "db_of w1 = snd ?run" by blast
  have lines: "map bulk_line (map bulk_message ?ls) = reserve_items (line_items items)"
    by (auto simp: ls bulk_line_def bulk_message_def)
  have reserved: "list_all bio_reserved (fst ?run)"
  proof (rule bulk_all_reserved)
    show "db_ok (db_of w)" using assms(1) by (simp add: inventory_ok_def)
    show "\<forall>item \<in> set (map bulk_message ?ls). bri_order_ref item \<noteq> '''' \<and> fits (bri_order_ref item)"
      using proper by (auto simp: list_all_iff proper_ref_def)
    show "feasible (map bulk_line (map bulk_message ?ls)) (db_of w)"
      using assms(6) unfolding lines by (simp add: stocked_def)
  qed
  have "view_of (db_of w1) = hold_flagged ?ls (map bio_reserved (fst ?run)) (view_of (db_of w))"
    using bulk_run_view(2) [OF assms(1) proper] run(2) by simp
  from arg_cong [OF this, of "\<lambda>V. h_lines V ?ref"] have "lines_of (db_of w1) ?ref =
      lines_of (db_of w) ?ref + flagged_lines ?ls (map bio_reserved (fst ?run)) ?ref"
    by (simp add: hold_flagged_lines)
  also have "flagged_lines ?ls (map bio_reserved (fst ?run)) ?ref = lines_for ?ls ?ref"
    by (rule flagged_lines_all) (use reserved in \<open>simp_all add: list_all_iff\<close>)
  also have "lines_for ?ls ?ref = mset (line_items items)"
    using lines_for_flatten [of "[?ord]" ?ord]
    by (simp add: build_order_def line_items_def comp_def)
  finally have held: "lines_of (db_of w1) ?ref = lines_of (db_of w) ?ref + mset (line_items items)" .
  have refs: "\<forall>r \<in> set (brs_results summary). bio_order_ref r = ?ref"
  proof -
    have "bio_order_ref ` set (brs_results summary) = fst ` set ?ls"
      using arg_cong [OF bulk_replies(1) [of "dp_clk d" "map bulk_message ?ls" "db_of w"], of set] run(1)
      by (simp add: image_image)
    then show ?thesis by (fastforce simp: ls)
  qed
  obtain dict where dict: "regroup (brs_results summary)
      (\<lambda>r. if r \<in> no_id ` set [?ord] then Some [] else None) = Some dict"
      "items_of dict ?ref = map item_result_of (brs_results summary)"
    using refs by (simp add: regroup_eq items_of_def)
  have "length (brs_results summary) = length items"
    using length_run_ops [of "bulk_step (dp_clk d)" "map bulk_message ?ls" "db_of w"] run(1)
    by (metis length_map line_items_def ls)
  then have "brs_results summary \<noteq> []"
    using assms(4) by (auto simp: valid_order_def)
  then have "outcome_of dict ?ord = Persisted"
    using reserved run(1) dict(2)
    by (auto simp: outcome_of_def order_outcome_def list_all_iff item_result_of_def)
  then have "create_orders_bulk (inventory_of d) (rq_faults rq) (rq_now rq)
      (\<lambda>k. uuid_str (rq_uuid rq k)) [items] (odb, w) = (Inl Unhandled, odb, w1)"
    using call dict(1) assms(7)
    by (simp add: create_orders_bulk_def ords inventory_of_def classify_eq session_commit_def Let_def)
  then have "post_orders_bulk (inventory_of d) rq [items] (odb, w) = (Error 500 None, odb, w1)"
    using assms(4) by (simp add: post_orders_bulk_def valid_bulk_def http_reply_of_def)
  with held show ?thesis by blast
qed

theorem bulk_commit_failure_strands_stock_witness:
  "\<exists>w'. post_orders_bulk (inventory_of demo_deployment)
      ((quiet_request 7)\<lparr>rq_faults := no_faults\<lparr>sf_commit := CommitFails\<rparr>\<rparr>) [[item_in 3 4, item_in 1 2]]
      (no_orders, demo_remote []) = (Error 500 None, no_orders, w')
    \<and> lines_of (db_of w') (uuid_str 7) = {#(3, 4), (1, 2)#}"
  using bulk_commit_failure_strands_stock [OF demo_inventory_ok, of "[]" demo_deployment
      "[item_in 3 4, item_in 1 2]" "(quiet_request 7)\<lparr>rq_faults := no_faults\<lparr>sf_commit := CommitFails\<rparr>\<rparr>" no_orders]
  by (simp add: trusted_def valid_order_def valid_item_def storable_def in_int4_def max_int4_def
      demo_stocked demo_lines line_items_def)

end
