(* ===== verification/Json.thy ===== *)
theory Json
  imports Prelude
begin

text \<open>
  The part of Python's \<^verbatim>\<open>json\<close> module that the program relies on: \<^verbatim>\<open>json.loads\<close> on the
  payload of a notification and on the text frames of a WebSocket. A text is here the list
  of its code points, because a JSON escape can name any of them; \<open>cps\<close> gives the code
  points of a string of the other theories.

  A float keeps its literal: the value of a decimal literal is a matter of the interpreter's
  floating point arithmetic, which the model takes as a parameter where it is needed.
\<close>

section \<open>Values\<close>

type_synonym code_points = "nat list"

definition cps :: "string \<Rightarrow> code_points" where
  "cps s = map of_char s"

datatype json =
    JNull
  | JBool bool
  | JInt int
  | JFloat code_points
  | JStr code_points
  | JArr "json list"
  | JObj "(code_points \<times> json) list"

text \<open>A JSON object becomes a \<^verbatim>\<open>dict\<close>: of two members with one name the later one counts.\<close>

definition member_of :: "code_points \<Rightarrow> (code_points \<times> json) list \<Rightarrow> json option" where
  "member_of k ms = map_of (rev ms) k"

section \<open>Scanning\<close>

definition skip_ws :: "code_points \<Rightarrow> code_points" where
  "skip_ws = dropWhile (\<lambda>c. c \<in> {32, 9, 10, 13})"

definition is_digit :: "nat \<Rightarrow> bool" where
  "is_digit c \<longleftrightarrow> 48 \<le> c \<and> c \<le> 57"

definition digits_value :: "code_points \<Rightarrow> int" where
  "digits_value ds = foldl (\<lambda>n d. 10 * n + (int d - 48)) 0 ds"

text \<open>
  The number: an optional sign, an integer part without a leading zero, an optional fraction
  and an optional exponent. The conversion of an integer of more than 4300 digits raises a
  \<^verbatim>\<open>ValueError\<close>.
\<close>

definition scan_frac :: "code_points \<Rightarrow> code_points \<times> code_points" where
  "scan_frac s =
     (case s of
        c # r \<Rightarrow> if c = 46 \<and> takeWhile is_digit r \<noteq> []
          then (c # takeWhile is_digit r, dropWhile is_digit r) else ([], s)
      | [] \<Rightarrow> ([], s))"

definition scan_exp :: "code_points \<Rightarrow> code_points \<times> code_points" where
  "scan_exp s =
     (case s of
        c # r \<Rightarrow>
          let (sign, r1) = (case r of g # r1 \<Rightarrow> if g \<in> {43, 45} then ([g], r1) else ([], r) | [] \<Rightarrow> ([], r)) in
          if c \<in> {69, 101} \<and> takeWhile is_digit r1 \<noteq> []
          then (c # sign @ takeWhile is_digit r1, dropWhile is_digit r1) else ([], s)
      | [] \<Rightarrow> ([], s))"

definition split_sign :: "code_points \<Rightarrow> bool \<times> code_points" where
  "split_sign s = (case s of c # r \<Rightarrow> if c = 45 then (True, r) else (False, s) | [] \<Rightarrow> (False, []))"

definition int_part :: "code_points \<Rightarrow> code_points" where
  "int_part s = (case s of c # _ \<Rightarrow> if c = 48 then [48] else takeWhile is_digit s | [] \<Rightarrow> [])"

definition scan_number :: "code_points \<Rightarrow> (json \<times> code_points) option" where
  "scan_number s =
     (let (neg, s1) = split_sign s;
          ds = int_part s1;
          (fs, s2) = scan_frac (drop (length ds) s1);
          (es, s3) = scan_exp s2 in
      if ds = [] then None
      else if fs @ es \<noteq> [] then Some (JFloat ((if neg then [45] else []) @ ds @ fs @ es), s3)
      else if 4300 < length ds then None
      else Some (JInt (if neg then - digits_value ds else digits_value ds), s3))"

text \<open>The string, after its opening quote. Control characters are refused.\<close>

definition hex_digit :: "nat \<Rightarrow> nat option" where
  "hex_digit c =
     (if is_digit c then Some (c - 48)
      else if 97 \<le> c \<and> c \<le> 102 then Some (c - 87)
      else if 65 \<le> c \<and> c \<le> 70 then Some (c - 55)
      else None)"

definition hex4 :: "code_points \<Rightarrow> nat option" where
  "hex4 s =
     (case map hex_digit (take 4 s) of
        [Some a, Some b, Some c, Some d] \<Rightarrow> Some (4096 * a + 256 * b + 16 * c + d)
      | _ \<Rightarrow> None)"

text \<open>The character of a \<^verbatim>\<open>\u\<close> escape, and how many code points it used: two surrogate
  escapes in a row make one character.\<close>

definition unicode_escape :: "code_points \<Rightarrow> (nat \<times> nat) option" where
  "unicode_escape s =
     (case hex4 s of
        None \<Rightarrow> None
      | Some a \<Rightarrow>
          (case hex4 (drop 6 s) of
             Some b \<Rightarrow>
               if 55296 \<le> a \<and> a \<le> 56319 \<and> take 2 (drop 4 s) = [92, 117] \<and> 56320 \<le> b \<and> b \<le> 57343
               then Some (65536 + 1024 * (a - 55296) + (b - 56320), 10) else Some (a, 4)
           | None \<Rightarrow> Some (a, 4)))"

definition simple_escape :: "nat \<Rightarrow> nat option" where
  "simple_escape = map_of [(34, 34), (92, 92), (47, 47), (98, 8), (102, 12), (110, 10), (114, 13), (116, 9)]"

definition consing :: "'a \<Rightarrow> ('a list \<times> 'b) option \<Rightarrow> ('a list \<times> 'b) option" where
  "consing x r = map_option (apfst ((#) x)) r"

function scan_string :: "code_points \<Rightarrow> (code_points \<times> code_points) option" where
  "scan_string [] = None"
| "scan_string (c # s) =
     (if c = 34 then Some ([], s)
      else if c = 92 then
        (case s of
           [] \<Rightarrow> None
         | e # s1 \<Rightarrow>
             if e = 117 then
               (case unicode_escape s1 of
                  None \<Rightarrow> None
                | Some (ch, n) \<Rightarrow> consing ch (scan_string (drop n s1)))
             else
               (case simple_escape e of
                  None \<Rightarrow> None
                | Some ch \<Rightarrow> consing ch (scan_string s1)))
      else if c < 32 then None
      else consing c (scan_string s))"
  by pat_completeness auto
termination by (relation "measure length") auto

definition starts :: "string \<Rightarrow> code_points \<Rightarrow> bool" where
  "starts w s \<longleftrightarrow> take (length w) s = cps w"

text \<open>
  The value. Of two nested calls at least one consumes a code point, so a fuel above twice
  the length of the text is enough: \<open>scan_fuel\<close> below.
\<close>

fun scan :: "nat \<Rightarrow> code_points \<Rightarrow> (json \<times> code_points) option"
and scan_members :: "nat \<Rightarrow> code_points \<Rightarrow> ((code_points \<times> json) list \<times> code_points) option"
and scan_elements :: "nat \<Rightarrow> code_points \<Rightarrow> (json list \<times> code_points) option" where
  "scan 0 s = None"
| "scan (Suc n) s =
     (case s of
        [] \<Rightarrow> None
      | c # r \<Rightarrow>
          if c = 34 then map_option (apfst JStr) (scan_string r)
          else if c = 123 then
            (case skip_ws r of
               [] \<Rightarrow> None
             | d # r1 \<Rightarrow> if d = 125 then Some (JObj [], r1)
                         else map_option (apfst JObj) (scan_members n (d # r1)))
          else if c = 91 then
            (case skip_ws r of
               [] \<Rightarrow> None
             | d # r1 \<Rightarrow> if d = 93 then Some (JArr [], r1)
                         else map_option (apfst JArr) (scan_elements n (d # r1)))
          else if starts ''null'' s then Some (JNull, drop 4 s)
          else if starts ''true'' s then Some (JBool True, drop 4 s)
          else if starts ''false'' s then Some (JBool False, drop 5 s)
          else if starts ''NaN'' s then Some (JFloat (cps ''NaN''), drop 3 s)
          else if starts ''Infinity'' s then Some (JFloat (cps ''Infinity''), drop 8 s)
          else if starts ''-Infinity'' s then Some (JFloat (cps ''-Infinity''), drop 9 s)
          else scan_number s)"
| "scan_members 0 s = None"
| "scan_members (Suc n) s =
     (case s of
        [] \<Rightarrow> None
      | c # r \<Rightarrow>
          if c \<noteq> 34 then None
          else
            (case scan_string r of
               None \<Rightarrow> None
             | Some (k, r1) \<Rightarrow>
                 (case skip_ws r1 of
                    [] \<Rightarrow> None
                  | c2 # r2 \<Rightarrow>
                      if c2 \<noteq> 58 then None
                      else
                        (case scan n (skip_ws r2) of
                           None \<Rightarrow> None
                         | Some (v, r3) \<Rightarrow>
                             (case skip_ws r3 of
                                [] \<Rightarrow> None
                              | c4 # r4 \<Rightarrow>
                                  if c4 = 125 then Some ([(k, v)], r4)
                                  else if c4 = 44 then consing (k, v) (scan_members n (skip_ws r4))
                                  else None)))))"
| "scan_elements 0 s = None"
| "scan_elements (Suc n) s =
     (case scan n s of
        None \<Rightarrow> None
      | Some (v, r) \<Rightarrow>
          (case skip_ws r of
             [] \<Rightarrow> None
           | c # r1 \<Rightarrow>
               if c = 93 then Some ([v], r1)
               else if c = 44 then consing v (scan_elements n (skip_ws r1))
               else None))"

lemmas scan_unfold = scan.simps(2) scan_members.simps(2) scan_elements.simps(2)

declare scan_unfold [simp del]

text \<open>\<^verbatim>\<open>json.loads\<close>; \<open>None\<close> is its \<^verbatim>\<open>ValueError\<close>.\<close>

definition loads :: "code_points \<Rightarrow> json option" where
  "loads s =
     (case scan (2 * length s + 1) (skip_ws s) of
        Some (v, r) \<Rightarrow> if skip_ws r = [] then Some v else None
      | None \<Rightarrow> None)"

section \<open>Enough fuel\<close>

lemma skip_ws_le: "length (skip_ws s) \<le> length s"
  by (simp add: skip_ws_def length_dropWhile_le)

lemma skip_ws_Cons_le: "skip_ws s = c # r \<Longrightarrow> length r < length s"
  using skip_ws_le [of s] by simp

lemma scan_frac_le: "length (snd (scan_frac s)) \<le> length s"
  by (auto simp: scan_frac_def length_dropWhile_le le_SucI split: list.splits)

lemma scan_exp_le: "length (snd (scan_exp s)) \<le> length s"
  by (auto simp: scan_exp_def length_dropWhile_le le_SucI split: list.splits)

lemma scan_number_less: "scan_number s = Some (v, r) \<Longrightarrow> length r < length s"
proof -
  assume ok: "scan_number s = Some (v, r)"
  let ?s1 = "snd (split_sign s)"
  let ?ds = "int_part ?s1"
  have r: "?ds \<noteq> []" "r = snd (scan_exp (snd (scan_frac (drop (length ?ds) ?s1))))"
    using ok by (auto simp: scan_number_def Let_def split_def split: if_splits)
  have "length r \<le> length (drop (length ?ds) ?s1)"
    unfolding r(2) using scan_exp_le scan_frac_le by (meson le_trans)
  moreover have "length ?s1 \<le> length s" by (simp add: split_sign_def split: list.splits)
  moreover have "0 < length ?s1" using r(1) by (auto simp: int_part_def)
  moreover have "0 < length ?ds" using r(1) by simp
  ultimately show ?thesis unfolding length_drop by linarith
qed

lemma consing_Some: "consing x r = Some (ys, z) \<longleftrightarrow> (\<exists>xs. r = Some (xs, z) \<and> ys = x # xs)"
  by (cases r) (auto simp: consing_def)

lemma scan_string_less: "scan_string s = Some (k, r) \<Longrightarrow> length r < length s"
proof (induction s arbitrary: k r rule: scan_string.induct)
  case (2 c s)
  then show ?case
    by (fastforce simp: consing_Some split: if_splits list.splits option.splits)
qed simp


lemma scan_less_all:
  "(\<forall>s v r. scan n s = Some (v, r) \<longrightarrow> length r < length s)
   \<and> (\<forall>s ms r. scan_members n s = Some (ms, r) \<longrightarrow> length r < length s)
   \<and> (\<forall>s vs r. scan_elements n s = Some (vs, r) \<longrightarrow> length r < length s)"
proof (induction n)
  case 0
  then show ?case by simp
next
  case (Suc n)
  then have val: "\<And>s v r. scan n s = Some (v, r) \<Longrightarrow> length r < length s"
    and mem: "\<And>s ms r. scan_members n s = Some (ms, r) \<Longrightarrow> length r < length s"
    and elem: "\<And>s vs r. scan_elements n s = Some (vs, r) \<Longrightarrow> length r < length s"
    by blast+
  have "length r < length s" if "scan (Suc n) s = Some (v, r)" for s v r
    using that
    by (auto simp: scan_unfold split: list.splits if_splits
        dest!: scan_number_less scan_string_less skip_ws_Cons_le mem elem)
  moreover have "length r < length s" if "scan_members (Suc n) s = Some (ms, r)" for s ms r
  proof -
    from that obtain c s1 k r1 c2 r2 v r3 c4 r4 where steps: "s = c # s1" "scan_string s1 = Some (k, r1)"
        "skip_ws r1 = c2 # r2" "scan n (skip_ws r2) = Some (v, r3)" "skip_ws r3 = c4 # r4"
        "r = r4 \<or> (\<exists>ms'. scan_members n (skip_ws r4) = Some (ms', r))"
      by (auto simp: scan_unfold consing_Some split: list.splits if_splits option.splits)
    have "length r \<le> length r4"
      using steps(6) mem skip_ws_le [of r4] by (meson le_trans less_imp_le order_refl)
    then show ?thesis
      using scan_string_less [OF steps(2)] skip_ws_Cons_le [OF steps(3)] val [OF steps(4)]
        skip_ws_Cons_le [OF steps(5)] skip_ws_le [of r2] steps(1) by simp
  qed
  moreover have "length r < length s" if "scan_elements (Suc n) s = Some (vs, r)" for s vs r
  proof -
    from that obtain v r1 c r2 where steps: "scan n s = Some (v, r1)" "skip_ws r1 = c # r2"
        "r = r2 \<or> (\<exists>vs'. scan_elements n (skip_ws r2) = Some (vs', r))"
      by (auto simp: scan_unfold consing_Some split: list.splits if_splits option.splits)
    have "length r \<le> length r2"
      using steps(3) elem skip_ws_le [of r2] by (meson le_trans less_imp_le order_refl)
    then show ?thesis using val [OF steps(1)] skip_ws_Cons_le [OF steps(2)] by simp
  qed
  ultimately show ?case by blast
qed

lemma scan_less: "scan n s = Some (v, r) \<Longrightarrow> length r < length s"
  using scan_less_all by blast

lemma scan_fuel_all:
  "(\<forall>s. 2 * length s < n \<longrightarrow> scan (Suc n) s = scan n s)
   \<and> (\<forall>s. 2 * length s < n \<longrightarrow> scan_members (Suc n) s = scan_members n s)
   \<and> (\<forall>s. 2 * length s + 1 < n \<longrightarrow> scan_elements (Suc n) s = scan_elements n s)"
proof (induction n)
  case 0
  then show ?case by simp
next
  case (Suc n)
  then have val: "\<And>s. 2 * length s < n \<Longrightarrow> scan (Suc n) s = scan n s"
    and mem: "\<And>s. 2 * length s < n \<Longrightarrow> scan_members (Suc n) s = scan_members n s"
    and elem: "\<And>s. 2 * length s + 1 < n \<Longrightarrow> scan_elements (Suc n) s = scan_elements n s"
    by blast+
  have "scan (Suc (Suc n)) s = scan (Suc n) s" if len: "2 * length s < Suc n" for s
  proof (cases s)
    case (Cons c r)
    have "scan_members (Suc n) (d # r1) = scan_members n (d # r1)"
      "scan_elements (Suc n) (d # r1) = scan_elements n (d # r1)" if "skip_ws r = d # r1" for d r1
      using mem [of "d # r1"] elem [of "d # r1"] len Cons skip_ws_Cons_le [OF that] by simp_all
    then show ?thesis
      unfolding Cons scan.simps(2) [of "Suc n" "c # r"] scan.simps(2) [of n "c # r"]
      by (simp split: list.split)
  qed (simp add: scan.simps(2))
  moreover have "scan_members (Suc (Suc n)) s = scan_members (Suc n) s" if len: "2 * length s < Suc n" for s
  proof -
    have "scan (Suc n) (skip_ws r2) = scan n (skip_ws r2)"
      "\<And>v r3 c4 r4. scan n (skip_ws r2) = Some (v, r3) \<Longrightarrow> skip_ws r3 = c4 # r4 \<Longrightarrow>
         scan_members (Suc n) (skip_ws r4) = scan_members n (skip_ws r4)"
      if "s = c # r" "scan_string r = Some (k, r1)" "skip_ws r1 = c2 # r2" for c r k r1 c2 r2
    proof -
      have less: "2 * length (skip_ws r2) + 2 < n"
        using len that(1) scan_string_less [OF that(2)] skip_ws_Cons_le [OF that(3)] skip_ws_le [of r2]
        by simp
      then show "scan (Suc n) (skip_ws r2) = scan n (skip_ws r2)" by (intro val) simp
      fix v r3 c4 r4 assume "scan n (skip_ws r2) = Some (v, r3)" "skip_ws r3 = c4 # r4"
      then show "scan_members (Suc n) (skip_ws r4) = scan_members n (skip_ws r4)"
        using less scan_less [of n "skip_ws r2" v r3] skip_ws_Cons_le [of r3 c4 r4] skip_ws_le [of r4]
        by (intro mem) simp
    qed
    then show ?thesis
      unfolding scan_members.simps(2) [of "Suc n" s] scan_members.simps(2) [of n s]
      by (simp split: list.split option.split)
  qed
  moreover have "scan_elements (Suc (Suc n)) s = scan_elements (Suc n) s" if len: "2 * length s + 1 < Suc n" for s
  proof -
    have "scan (Suc n) s = scan n s" using len by (intro val) simp
    moreover have "scan_elements (Suc n) (skip_ws r1) = scan_elements n (skip_ws r1)"
      if "scan n s = Some (v, r)" "skip_ws r = c # r1" for v r c r1
      using len scan_less [OF that(1)] skip_ws_Cons_le [OF that(2)] skip_ws_le [of r1] by (intro elem) simp
    ultimately show ?thesis
      unfolding scan_elements.simps(2) [of "Suc n" s] scan_elements.simps(2) [of n s]
      by (simp split: option.split list.split)
  qed
  ultimately show ?case by blast
qed

lemma scan_fuel: "2 * length s < n \<Longrightarrow> scan (n + k) s = scan n s"
  by (induction k) (simp_all add: scan_fuel_all)

section \<open>Printed integers\<close>

lemma cps_simps [simp]:
  "cps [] = []" "cps (c # s) = of_char c # cps s" "cps (s @ t) = cps s @ cps t"
  "length (cps s) = length s" "cps s = [] \<longleftrightarrow> s = []"
  by (simp_all add: cps_def)

lemma cps_inj [simp]: "cps s = cps t \<longleftrightarrow> s = t"
  by (simp add: cps_def inj_map_eq_map [OF inj_of_char])

lemma digit_code: "d < 10 \<Longrightarrow> (of_char (''0123456789'' ! d) :: nat) = 48 + d"
proof -
  assume "d < 10"
  then have "d \<in> {0, 1, 2, 3, 4, 5, 6, 7, 8, 9}" by auto
  then show ?thesis by (elim insertE) simp_all
qed

lemma digits_value_snoc: "digits_value (ds @ [d]) = 10 * digits_value ds + (int d - 48)"
  by (simp add: digits_value_def)

lemma str_nat_rec: "str_nat n =
    (if n < 10 then [''0123456789'' ! n] else str_nat (n div 10) @ [''0123456789'' ! (n mod 10)])"
  by (rule str_nat.simps)

lemma str_nat_value: "digits_value (cps (str_nat n)) = int n"
proof (induction n rule: less_induct)
  case (less n)
  show ?case
  proof (cases "n < 10")
    case True
    then show ?thesis by (simp add: str_nat_rec [of n] digit_code digits_value_def)
  next
    case False
    then have "digits_value (cps (str_nat (n div 10))) = int (n div 10)" by (intro less) simp
    then show ?thesis
      using False by (simp add: str_nat_rec [of n] digits_value_snoc digit_code) presburger
  qed
qed

lemma str_nat_digits: "list_all is_digit (cps (str_nat n))"
proof (induction n rule: less_induct)
  case (less n)
  show ?case
  proof (cases "n < 10")
    case True
    then show ?thesis by (simp add: str_nat_rec [of n] digit_code is_digit_def)
  next
    case False
    then have "list_all is_digit (cps (str_nat (n div 10)))" by (intro less) simp
    moreover have "is_digit (48 + n mod 10)" by (simp add: is_digit_def)
    ultimately show ?thesis using False by (simp add: str_nat_rec [of n] digit_code)
  qed
qed

lemma str_nat_not_Nil [simp]: "str_nat n \<noteq> ''''"
  by (simp add: str_nat_rec [of n])

lemma str_nat_first: "0 < n \<Longrightarrow> hd (cps (str_nat n)) \<noteq> 48"
proof (induction n rule: less_induct)
  case (less n)
  show ?case
  proof (cases "n < 10")
    case True
    then show ?thesis using less.prems digit_code [of n] by (simp add: str_nat_rec [of n] del: nth_Cons_pos)
  next
    case False
    then have "hd (cps (str_nat (n div 10))) \<noteq> 48" by (intro less) simp_all
    then show ?thesis using False by (simp add: str_nat_rec [of n] hd_append)
  qed
qed

lemma str_nat_length: "n < 10 ^ k \<Longrightarrow> 0 < k \<Longrightarrow> length (str_nat n) \<le> k"
proof (induction k arbitrary: n)
  case (Suc k)
  show ?case
  proof (cases "n < 10")
    case False
    with Suc.prems have "0 < k" by (cases k) simp_all
    moreover have "n div 10 < 10 ^ k" using Suc.prems by (simp add: less_mult_imp_div_less mult.commute)
    ultimately show ?thesis using Suc.IH [of "n div 10"] False by (simp add: str_nat_rec [of n])
  qed (simp add: str_nat_rec [of n])
qed simp

text \<open>What may follow a number without becoming part of it.\<close>

definition ends_number :: "code_points \<Rightarrow> bool" where
  "ends_number r \<longleftrightarrow> (case r of [] \<Rightarrow> True | c # _ \<Rightarrow> \<not> is_digit c \<and> c \<notin> {46, 69, 101})"

lemma takeWhile_digits:
  assumes "list_all is_digit ds" "ends_number r"
  shows "takeWhile is_digit (ds @ r) = ds"
proof -
  have "takeWhile is_digit r = []" using assms(2) by (simp add: ends_number_def split: list.splits)
  then show ?thesis using assms(1) by (simp add: takeWhile_append2 list_all_iff)
qed

lemma scan_number_nat:
  assumes "ends_number r" "length (str_nat n) \<le> 4300"
  shows "int_part (cps (str_nat n) @ r) = cps (str_nat n)"
    "scan_exp r = ([], r)" "scan_frac r = ([], r)"
proof -
  show "scan_exp r = ([], r)" "scan_frac r = ([], r)"
    using assms(1) by (cases r; auto simp: ends_number_def scan_exp_def scan_frac_def Let_def split_def)+
  have take: "takeWhile is_digit (cps (str_nat n) @ r) = cps (str_nat n)"
    by (rule takeWhile_digits [OF str_nat_digits assms(1)])
  show "int_part (cps (str_nat n) @ r) = cps (str_nat n)"
  proof (cases "n = 0")
    case True
    then show ?thesis by (simp add: str_nat_rec [of 0] int_part_def)
  next
    case False
    then obtain c s where cs: "str_nat n = c # s" "of_char c \<noteq> (48::nat)"
      using str_nat_first [of n] by (cases "str_nat n") auto
    then show ?thesis using take by (simp add: int_part_def)
  qed
qed

lemma str_nat_no_sign: "str_nat n = c # s \<Longrightarrow> of_char c \<in> {48..57::nat}"
  using str_nat_digits [of n] by (simp add: is_digit_def)

lemma scan_number_str_int:
  assumes "ends_number r" "length (str_int i) \<le> 4300"
  shows "scan_number (cps (str_int i) @ r) = Some (JInt i, r)"
proof (cases "i < 0")
  case True
  then have len: "length (str_nat (nat (- i))) \<le> 4300" using assms(2) by (simp add: str_int_def)
  show ?thesis
    using True len
    by (simp add: str_int_def scan_number_def split_sign_def scan_number_nat [OF assms(1) len]
        str_nat_value)
next
  case False
  then have len: "length (str_nat (nat i)) \<le> 4300" using assms(2) by (simp add: str_int_def)
  obtain c s where cs: "str_nat (nat i) = c # s" by (cases "str_nat (nat i)") simp_all
  have "split_sign (cps (str_nat (nat i)) @ r) = (False, cps (str_nat (nat i)) @ r)"
    using str_nat_no_sign [OF cs] by (simp add: cs split_sign_def)
  then show ?thesis
    using False len
    by (simp add: str_int_def scan_number_def scan_number_nat [OF assms(1) len] str_nat_value)
qed

lemma scan_str_int:
  assumes "ends_number r" "length (str_int i) \<le> 4300"
  shows "scan (Suc n) (cps (str_int i) @ r) = Some (JInt i, r)"
proof -
  obtain c s where cs: "str_nat (nat \<bar>i\<bar>) = c # s" by (cases "str_nat (nat \<bar>i\<bar>)") simp_all
  have digit: "of_char c \<in> {48..57::nat}" by (rule str_nat_no_sign [OF cs])
  have s: "cps (str_int i) @ r = (if i < 0 then 45 # of_char c # cps s @ r else of_char c # cps s @ r)"
    using cs by (auto simp: str_int_def)
  have "scan (Suc n) (cps (str_int i) @ r) = scan_number (cps (str_int i) @ r)"
    unfolding s using digit by (auto simp: scan.simps(2) starts_def)
  then show ?thesis using scan_number_str_int [OF assms] by simp
qed

lemma str_int_length: "- (10 ^ k) < i \<Longrightarrow> i < 10 ^ k \<Longrightarrow> 0 < k \<Longrightarrow> length (str_int i) \<le> Suc k"
proof -
  assume bounds: "- (10 ^ k) < i" "i < 10 ^ k" "0 < k"
  then have "nat \<bar>i\<bar> < 10 ^ k" by (simp add: nat_less_iff)
  from str_nat_length [OF this bounds(3)] show ?thesis by (auto simp: str_int_def)
qed

lemma str_int_fits: "- (2 ^ 63) \<le> i \<Longrightarrow> i < 2 ^ 63 \<Longrightarrow> length (str_int i) \<le> 4300"
  using str_int_length [of 19 i] by simp

end
