(* ===== verification/JsonPrint.thy ===== *)
theory JsonPrint
  imports Json
begin

text \<open>
  The other half of Python's \<^verbatim>\<open>json\<close> module: \<^verbatim>\<open>json.dumps\<close> with the separators
  \<^verbatim>\<open>(",", ":")\<close> and \<^verbatim>\<open>ensure_ascii=False\<close>, the compact form in which a WebSocket frame is
  sent, and the proof that \<open>loads\<close> reads back what it prints. A float is printed as its literal
  and excluded from the round trip.
\<close>

section \<open>Printing\<close>

definition hex_char :: "nat \<Rightarrow> nat" where
  "hex_char d = (if d < 10 then 48 + d else 87 + d)"

definition escape :: "nat \<Rightarrow> code_points" where
  "escape c =
     (if c = 34 then [92, 34] else if c = 92 then [92, 92]
      else if c = 10 then [92, 110] else if c = 13 then [92, 114] else if c = 9 then [92, 116]
      else if c = 12 then [92, 102] else if c = 8 then [92, 98]
      else if c < 32 then [92, 117, 48, 48, hex_char (c div 16), hex_char (c mod 16)]
      else [c])"

definition quote :: "code_points \<Rightarrow> code_points" where
  "quote s = 34 # concat (map escape s) @ [34]"

fun commas :: "code_points list \<Rightarrow> code_points" where
  "commas [] = []"
| "commas [x] = x"
| "commas (x # xs) = x @ 44 # commas xs"

fun dumps :: "json \<Rightarrow> code_points" where
  "dumps JNull = cps ''null''"
| "dumps (JBool b) = (if b then cps ''true'' else cps ''false'')"
| "dumps (JInt i) = cps (str_int i)"
| "dumps (JFloat l) = l"
| "dumps (JStr s) = quote s"
| "dumps (JArr vs) = 91 # commas (map dumps vs) @ [93]"
| "dumps (JObj ms) = 123 # commas (map (\<lambda>(k, v). quote k @ 58 # dumps v) ms) @ [125]"

fun printable :: "json \<Rightarrow> bool" where
  "printable (JInt i) = (length (str_int i) \<le> 4300)"
| "printable (JFloat _) = False"
| "printable (JArr vs) = (\<forall>v \<in> set vs. printable v)"
| "printable (JObj ms) = (\<forall>(k, v) \<in> set ms. printable v)"
| "printable _ = True"

section \<open>Strings\<close>

lemma hex_digit_char: "d < 16 \<Longrightarrow> hex_digit (hex_char d) = Some d"
  by (auto simp: hex_digit_def hex_char_def is_digit_def)

lemma unicode_escape_low:
  assumes "c < 32"
  shows "unicode_escape ([48, 48, hex_char (c div 16), hex_char (c mod 16)] @ s) = Some (c, 4)"
proof -
  have "hex_digit 48 = Some 0" by (simp add: hex_digit_def is_digit_def)
  then have "hex4 ([48, 48, hex_char (c div 16), hex_char (c mod 16)] @ s) = Some c"
    using assms hex_digit_char [of "c div 16"] hex_digit_char [of "c mod 16"] by (simp add: hex4_def)
  then show ?thesis using assms by (auto simp: unicode_escape_def split: option.split)
qed

lemma scan_string_escape: "scan_string (escape c @ s) = consing c (scan_string s)"
proof -
  consider "c \<in> {34, 92, 10, 13, 9, 12, 8}" | "c < 32" "c \<notin> {34, 92, 10, 13, 9, 12, 8}"
    | "32 \<le> c" "c \<noteq> 34" "c \<noteq> 92"
    by fastforce
  then show ?thesis
  proof cases
    case 1
    then show ?thesis by (auto simp: escape_def simple_escape_def)
  next
    case 2
    then show ?thesis using unicode_escape_low [of c s] by (simp add: escape_def)
  qed (simp add: escape_def)
qed

lemma scan_string_quote: "scan_string (concat (map escape s) @ 34 # r) = Some (s, r)"
  by (induction s) (simp_all add: scan_string_escape consing_def del: scan_string.simps(2), simp)

lemma escape_no_newline: "10 \<notin> set (escape c)"
  by (auto simp: escape_def hex_char_def)

section \<open>Values\<close>

lemma length_quote: "2 \<le> length (quote s)"
  by (simp add: quote_def)

lemma dumps_first:
  "printable v \<Longrightarrow> \<exists>c s. dumps v = c # s \<and> c \<notin> {32, 9, 10, 13, 93, 125}"
proof (cases v)
  case (JInt i)
  obtain c s where cs: "str_nat (nat \<bar>i\<bar>) = c # s" by (cases "str_nat (nat \<bar>i\<bar>)") simp_all
  then show ?thesis using str_nat_no_sign [OF cs] JInt by (auto simp: str_int_def)
qed (auto simp: quote_def)

lemma skip_ws_dumps: "printable v \<Longrightarrow> skip_ws (dumps v @ r) = dumps v @ r"
  using dumps_first [of v] by (auto simp: skip_ws_def)

lemma dumps_length: "printable v \<Longrightarrow> 0 < length (dumps v)"
  using dumps_first [of v] by auto

lemma commas_Cons: "commas (x # xs) = (if xs = [] then x else x @ 44 # commas xs)"
  by (cases xs) simp_all

lemma commas_length: "x \<in> set xs \<Longrightarrow> length x \<le> length (commas xs)"
  by (induction xs) (auto simp: commas_Cons)

lemma commas_first:
  assumes "vs \<noteq> []" "\<forall>v \<in> set vs. printable v"
  shows "\<exists>c s. commas (map dumps vs) @ 93 # r = c # s \<and> c \<noteq> 93 \<and> skip_ws (c # s) = c # s"
proof -
  obtain v vs' where vs: "vs = v # vs'" "printable v" using assms by (cases vs) auto
  obtain c s where "dumps v = c # s" "c \<notin> {32, 9, 10, 13, 93, 125}"
    using dumps_first [OF vs(2)] by blast
  then show ?thesis by (cases "vs' = []") (simp_all add: vs(1) commas_Cons skip_ws_def)
qed

text \<open>The scanner reads \<open>v\<close> off the front of any text, given enough fuel.\<close>

definition reads :: "json \<Rightarrow> bool" where
  "reads v \<longleftrightarrow> (\<forall>n r. 2 * length (dumps v) < n \<longrightarrow> ends_number r \<longrightarrow> scan n (dumps v @ r) = Some (v, r))"

lemma readsD:
  "reads v \<Longrightarrow> 2 * length (dumps v) < n \<Longrightarrow> ends_number r \<Longrightarrow> scan n (dumps v @ r) = Some (v, r)"
  by (simp add: reads_def)

lemma ends_number_separators [simp]:
  "ends_number (44 # r)" "ends_number (93 # r)" "ends_number (125 # r)" "ends_number []"
  by (simp_all add: ends_number_def is_digit_def)

lemma skip_ws_separators [simp]:
  "skip_ws (44 # r) = 44 # r" "skip_ws (93 # r) = 93 # r" "skip_ws (125 # r) = 125 # r"
  "skip_ws (58 # r) = 58 # r" "skip_ws (34 # r) = 34 # r" "skip_ws [] = []"
  by (simp_all add: skip_ws_def)

lemma scan_elements_commas:
  assumes "vs \<noteq> []" "\<forall>v \<in> set vs. printable v \<and> reads v" "2 * length (commas (map dumps vs)) + 1 < n"
  shows "scan_elements n (commas (map dumps vs) @ 93 # r) = Some (vs, r)"
  using assms
proof (induction vs arbitrary: n)
  case (Cons v vs)
  then obtain m where n: "n = Suc m" by (cases n) simp_all
  have v: "printable v" "reads v" using Cons.prems(2) by simp_all
  show ?case
  proof (cases "vs = []")
    case True
    then show ?thesis
      using readsD [OF v(2), of m "93 # r"] Cons.prems(3)
      by (simp add: n commas_Cons scan_elements.simps(2))
  next
    case False
    let ?rest = "commas (map dumps vs) @ 93 # r"
    have len: "2 * length (dumps v) + 2 * length (commas (map dumps vs)) + 2 < m"
      using Cons.prems(3) False by (simp add: n commas_Cons)
    have "scan m (dumps v @ 44 # ?rest) = Some (v, 44 # ?rest)"
      using readsD [OF v(2)] len by simp
    moreover have "scan_elements m ?rest = Some (vs, r)"
      using Cons.prems(2) False len by (intro Cons.IH) simp_all
    moreover have "skip_ws ?rest = ?rest"
      using False Cons.prems(2) skip_ws_dumps
      by (cases vs) (auto simp: commas_Cons)
    ultimately show ?thesis
      using False by (simp add: n commas_Cons scan_elements.simps(2) consing_def)
  qed
qed simp

definition dump_member :: "code_points \<times> json \<Rightarrow> code_points" where
  "dump_member = (\<lambda>(k, v). quote k @ 58 # dumps v)"

lemma members_first: "ms \<noteq> [] \<Longrightarrow> \<exists>s. commas (map dump_member ms) @ 125 # r = 34 # s"
proof (cases ms)
  case (Cons m ms')
  then show ?thesis
    by (cases m; cases "ms' = []") (simp_all add: commas_Cons dump_member_def quote_def)
qed simp

lemma scan_members_commas:
  assumes "ms \<noteq> []" "\<forall>(k, v) \<in> set ms. printable v \<and> reads v"
    "2 * length (commas (map dump_member ms)) + 1 < n"
  shows "scan_members n (commas (map dump_member ms) @ 125 # r) = Some (ms, r)"
  using assms
proof (induction ms arbitrary: n)
  case (Cons m ms)
  obtain k v where kv: "m = (k, v)" by fastforce
  from Cons.prems(3) obtain i where n: "n = Suc i" by (cases n) simp_all
  have v: "printable v" "reads v" using Cons.prems(2) kv by simp_all
  have key: "quote k @ s = 34 # concat (map escape k) @ 34 # s" for s by (simp add: quote_def)
  note step = scan_members.simps(2) kv key scan_string_quote skip_ws_dumps [OF v(1)] dump_member_def
  show ?case
  proof (cases "ms = []")
    case True
    then show ?thesis
      using readsD [OF v(2), of i "125 # r"] Cons.prems(3)
      by (simp add: n commas_Cons step del: scan_string.simps)
  next
    case False
    let ?rest = "commas (map dump_member ms) @ 125 # r"
    have len: "2 * length (dumps v) + 2 * length (commas (map dump_member ms)) + 2 < i"
      using Cons.prems(3) False by (simp add: n commas_Cons kv dump_member_def)
    have "scan i (dumps v @ 44 # ?rest) = Some (v, 44 # ?rest)"
      using readsD [OF v(2)] len by simp
    moreover have "scan_members i ?rest = Some (ms, r)"
      using Cons.prems(2) False len by (intro Cons.IH) simp_all
    moreover have "skip_ws ?rest = ?rest"
      using False by (cases ms) (auto simp: commas_Cons dump_member_def quote_def)
    ultimately show ?thesis
      using False by (simp add: n commas_Cons step consing_def del: scan_string.simps)
  qed
qed simp

lemma scan_literals:
  assumes "0 < n"
  shows "scan n (cps ''null'' @ r) = Some (JNull, r)" "scan n (cps ''true'' @ r) = Some (JBool True, r)"
    "scan n (cps ''false'' @ r) = Some (JBool False, r)"
  using assms by (cases n; simp add: scan.simps(2) starts_def)+

lemma printable_reads: "printable v \<Longrightarrow> reads v"
proof (induction v)
  case (JInt i)
  then show ?case using scan_str_int by (auto simp: reads_def gr0_conv_Suc dest!: less_imp_Suc_add)
next
  case (JStr s)
  then show ?case
    using scan_string_quote [of s]
    by (auto simp: reads_def quote_def scan.simps(2) simp del: scan_string.simps dest!: less_imp_Suc_add)
next
  case (JArr vs)
  have "scan n (dumps (JArr vs) @ r) = Some (JArr vs, r)" if "2 * length (dumps (JArr vs)) < n" for n r
  proof -
    obtain m where n: "n = Suc m" using \<open>_ < n\<close> by (cases n) simp_all
    show ?thesis
    proof (cases "vs = []")
      case True
      then show ?thesis by (simp add: n scan.simps(2))
    next
      case False
      obtain c s where cs: "commas (map dumps vs) @ 93 # r = c # s" "c \<noteq> 93" "skip_ws (c # s) = c # s"
        using commas_first [OF False, of r] JArr.prems by auto
      have "scan_elements m (c # s) = Some (vs, r)"
        unfolding cs(1) [symmetric] using False JArr \<open>_ < n\<close>
        by (intro scan_elements_commas) (simp_all add: n)
      then show ?thesis using cs by (simp add: n scan.simps(2))
    qed
  qed
  then show ?case by (simp add: reads_def)
next
  case (JObj ms)
  have dump: "dumps (JObj ms) = 123 # commas (map dump_member ms) @ [125]"
    by (simp add: dump_member_def)
  have "scan n (dumps (JObj ms) @ r) = Some (JObj ms, r)" if "2 * length (dumps (JObj ms)) < n" for n r
  proof -
    obtain m where n: "n = Suc m" using \<open>_ < n\<close> by (cases n) simp_all
    show ?thesis
    proof (cases "ms = []")
      case True
      then show ?thesis by (simp add: n scan.simps(2))
    next
      case False
      obtain s where cs: "commas (map dump_member ms) @ 125 # r = 34 # s"
        using members_first [OF False, of r] by blast
      have "scan_members m (34 # s) = Some (ms, r)"
        unfolding cs(1) [symmetric]
      proof (rule scan_members_commas [OF False])
        show "\<forall>(k, v) \<in> set ms. printable v \<and> reads v"
        proof safe
          fix k v assume "(k, v) \<in> set ms"
          moreover from this show "printable v" using JObj.prems by auto
          ultimately show "reads v" by (intro JObj.IH [of "(k, v)" v]) simp_all
        qed
        show "2 * length (commas (map dump_member ms)) + 1 < m" using \<open>_ < n\<close> unfolding dump n by simp
      qed
      then show ?thesis using cs unfolding dump by (simp add: n scan.simps(2))
    qed
  qed
  then show ?case by (simp add: reads_def)
qed (use scan_literals in \<open>auto simp: reads_def simp del: cps_simps(2)\<close>)

text \<open>What is printed reads back, and is one line.\<close>

lemma loads_dumps: "printable v \<Longrightarrow> loads (dumps v) = Some v"
  using readsD [OF printable_reads, of v "2 * length (dumps v) + 1" "[]"] skip_ws_dumps [of v "[]"]
  by (simp add: loads_def)

lemma commas_no_newline: "\<forall>x \<in> set xs. 10 \<notin> set x \<Longrightarrow> 10 \<notin> set (commas xs)"
  by (induction xs) (auto simp: commas_Cons)

lemma quote_no_newline: "10 \<notin> set (quote s)"
  using escape_no_newline by (auto simp: quote_def)

lemma str_int_no_newline: "10 \<notin> set (cps (str_int i))"
proof -
  have "10 \<notin> set (cps (str_nat n))" for n
    using str_nat_digits [of n] by (auto simp: list_all_iff is_digit_def)
  then show ?thesis by (simp add: str_int_def)
qed

lemma dumps_no_newline: "printable v \<Longrightarrow> 10 \<notin> set (dumps v)"
proof (induction v)
  case (JArr vs)
  then show ?case using commas_no_newline [of "map dumps vs"] by simp
next
  case (JObj ms)
  have "10 \<notin> set (commas (map (\<lambda>(k, v). quote k @ 58 # dumps v) ms))"
    using JObj quote_no_newline by (intro commas_no_newline) fastforce
  then show ?case by simp
qed (simp_all add: str_int_no_newline quote_no_newline)

end
