(* ===== verification/LowStockApi.thy ===== *)
theory LowStockApi
  imports JsonPrint OrderRouter RemoteInventory
begin

text \<open>
  \<^verbatim>\<open>GET /low-stock\<close> of the order service, from the query parameters to the bytes of the
  body: \<^verbatim>\<open>InventoryClient.watch_low_stock\<close>, the server-streaming call under it, the NDJSON
  re-streaming of \<^verbatim>\<open>modules/inventory/service.py\<close> and the endpoint. The body is given as the
  text that its UTF-8 bytes encode. \<^verbatim>\<open>model_dump_json\<close> is pydantic's and is a parameter, with
  the contract \<open>json_lines\<close>.
\<close>

section \<open>The call\<close>

text \<open>
  What the generated registration holds for \<^verbatim>\<open>WatchLowStock\<close>: the servicer's method, which
  reads the database. \<open>is_active\<close> is the call's context.
\<close>

definition low_stock_handler ::
  "(string \<Rightarrow> 'k::linorder) \<Rightarrow> (nat \<Rightarrow> bool)
     \<Rightarrow> (low_stock_query, product_stock, inventory_db, unit) rpc_method_handler" where
  "low_stock_handler ck is_active =
     (no_handler None None)\<lparr>unary_stream := Some (\<lambda>request s.
        (WatchLowStock_handler ck is_active request (app s), s))\<rparr>"

text \<open>
  A streaming call through the interceptors of both sides: the messages, and the status it
  fails with, if it does.
\<close>

definition server_stream ::
  "deployment \<Rightarrow> rpc_kind \<Rightarrow> string \<Rightarrow> ('q, 'm, inventory_db, 'd) rpc_method_handler \<Rightarrow> 'q
     \<Rightarrow> inventory_db server \<Rightarrow> ('m list \<times> status_code option) \<times> inventory_db server" where
  "server_stream d kind name h request s =
     (let details = intercept_call (dp_client_token d) kind
                      \<lparr>cd_method = method_path name, cd_metadata = None\<rparr> in
      case server_interceptors (dp_server_token d) (\<lambda>cd s. (Inr (Some h), s)) details s of
        (Inl AttributeError, s1) \<Rightarrow> (([], Some UNKNOWN), s1)
      | (Inr None, s1) \<Rightarrow> (([], Some UNIMPLEMENTED), s1)
      | (Inr (Some h'), s1) \<Rightarrow>
          (case run_handler h' request s1 of
             ((ms, Inl e), s2) \<Rightarrow> ((ms, Some (wire_status e)), s2)
           | ((ms, Inr _), s2) \<Rightarrow> ((ms, None), s2)))"

text \<open>
  What the network does to the stream: the caller gets all of it, or the first \<open>n\<close> messages and
  then the status \<open>code\<close> (\<^verbatim>\<open>UNAVAILABLE\<close> of a lost connection, \<^verbatim>\<open>DEADLINE_EXCEEDED\<close> of the
  per-call timeout). The method has no retry policy.
\<close>

datatype stream_fate = Whole | Cut nat status_code

type_synonym product_stream = "product_stock list \<times> client_error option"

definition client_watch_low_stock ::
  "deployment \<Rightarrow> (low_stock_query, product_stock, inventory_db, unit) rpc_method_handler
     \<Rightarrow> stream_fate \<Rightarrow> int \<Rightarrow> string \<Rightarrow> inventory_db server \<Rightarrow> product_stream \<times> inventory_db server" where
  "client_watch_low_stock d h fate threshold sku_prefix s =
     (if \<not> in_int32 threshold then (([], Some ValueError), s)
      else
        case server_stream d UnaryStream ''WatchLowStock'' h
               \<lparr>lsq_threshold = threshold, lsq_sku_prefix = sku_prefix\<rparr> s of
          ((ms, status), s1) \<Rightarrow>
            (case fate of
               Whole \<Rightarrow> (ms, map_option AioRpcError status)
             | Cut n code \<Rightarrow> (take n ms, Some (AioRpcError code)), s1))"

section \<open>The response\<close>

definition ProductStockOut :: "product_stock \<Rightarrow> json" where
  "ProductStockOut p = JObj [(cps ''product_id'', JInt (ps_product_id p)), (cps ''sku'', JStr (cps (ps_sku p))),
     (cps ''name'', JStr (cps (ps_name p))), (cps ''available_quantity'', JInt (ps_available_quantity p))]"

definition to_line :: "(json \<Rightarrow> code_points) \<Rightarrow> product_stock \<Rightarrow> code_points" where
  "to_line dump product = dump (ProductStockOut product) @ [10]"

text \<open>\<^verbatim>\<open>anext\<close>: the next message, or \<open>None\<close> for \<^verbatim>\<open>StopAsyncIteration\<close>, or an error.\<close>

fun anext :: "product_stream \<Rightarrow> (client_error + product_stock option) \<times> product_stream" where
  "anext (m # ms, e) = (Inr (Some m), (ms, e))"
| "anext ([], None) = (Inr None, ([], None))"
| "anext ([], Some e) = (Inl e, ([], None))"

text \<open>
  The body generator: the text, how it ends, and the count it logs. An \<^verbatim>\<open>AioRpcError\<close> in the
  middle ends it like the end of the stream; another exception breaks the connection.
\<close>

datatype body_end = Finished | Broken client_error

fun ndjson_rest ::
  "(product_stock \<Rightarrow> code_points) \<Rightarrow> nat \<Rightarrow> product_stream \<Rightarrow> code_points \<times> body_end \<times> nat" where
  "ndjson_rest put n ([], None) = ([], Finished, n)"
| "ndjson_rest put n ([], Some (AioRpcError code)) = ([], Finished, n)"
| "ndjson_rest put n ([], Some e) = ([], Broken e, n)"
| "ndjson_rest put n (product # ms, e) =
     apfst (\<lambda>body. put product @ body) (ndjson_rest put (n + 1) (ms, e))"

definition ndjson ::
  "(product_stock \<Rightarrow> code_points) \<Rightarrow> product_stock option \<Rightarrow> product_stream \<Rightarrow> code_points \<times> body_end \<times> nat" where
  "ndjson put first stream =
     (case first of
        None \<Rightarrow> ([], Finished, 0)
      | Some product \<Rightarrow> apfst (\<lambda>body. put product @ body) (ndjson_rest put 1 stream))"

definition service_stream_low_stock ::
  "(json \<Rightarrow> code_points) \<Rightarrow> product_stream \<Rightarrow> api_error + code_points \<times> body_end" where
  "service_stream_low_stock dump stream =
     (case anext stream of
        (Inl e, _) \<Rightarrow> Inl (rpc_error e)
      | (Inr first, rest) \<Rightarrow>
          (case ndjson (to_line dump) first rest of (body, ending, _) \<Rightarrow> Inr (body, ending)))"

text \<open>The endpoint, after the parsing of the query. \<^verbatim>\<open>threshold\<close> is declared with \<^verbatim>\<open>ge=0\<close>.\<close>

definition low_stock_endpoint ::
  "(json \<Rightarrow> code_points) \<Rightarrow> deployment \<Rightarrow> (string \<Rightarrow> 'k::linorder) \<Rightarrow> (nat \<Rightarrow> bool) \<Rightarrow> stream_fate
     \<Rightarrow> int \<Rightarrow> string \<Rightarrow> inventory_db server \<Rightarrow> (code_points \<times> body_end) http_reply \<times> inventory_db server" where
  "low_stock_endpoint dump d ck is_active fate threshold sku_prefix s =
     (if threshold < 0 then (Error 422 None, s)
      else
        case client_watch_low_stock d (low_stock_handler ck is_active) fate threshold sku_prefix s of
          (stream, s1) \<Rightarrow> (http_reply_of 200 (service_stream_low_stock dump stream), s1))"

section \<open>Reading NDJSON\<close>

fun split_lines :: "code_points \<Rightarrow> code_points list \<times> code_points" where
  "split_lines [] = ([], [])"
| "split_lines (c # s) =
     (case split_lines s of
        (ls, r) \<Rightarrow>
          if c = 10 then ([] # ls, r)
          else (case ls of [] \<Rightarrow> ([], c # r) | l # ls' \<Rightarrow> ((c # l) # ls', r)))"

text \<open>The values of the lines, if the text ends with a newline and every line is JSON.\<close>

definition read_ndjson :: "code_points \<Rightarrow> json list option" where
  "read_ndjson s =
     (case split_lines s of
        (ls, r) \<Rightarrow> if r = [] \<and> list_all (\<lambda>l. loads l \<noteq> None) ls then Some (map (the \<circ> loads) ls) else None)"

lemma split_lines_line: "10 \<notin> set l \<Longrightarrow> split_lines (l @ 10 # s) = apfst ((#) l) (split_lines s)"
  by (induction l) (auto simp: apfst_def map_prod_def split: prod.splits)

text \<open>What the framing needs of a printer of JSON values.\<close>

locale json_lines =
  fixes dump :: "json \<Rightarrow> code_points"
  assumes loads_dump: "printable v \<Longrightarrow> loads (dump v) = Some v"
    and one_line: "printable v \<Longrightarrow> 10 \<notin> set (dump v)"
begin

lemma read_lines: "list_all printable vs \<Longrightarrow> read_ndjson (concat (map (\<lambda>v. dump v @ [10]) vs)) = Some vs"
proof -
  assume "list_all printable vs"
  then have "split_lines (concat (map (\<lambda>v. dump v @ [10]) vs)) = (map dump vs, [])"
    by (induction vs) (simp_all add: split_lines_line one_line)
  with \<open>list_all printable vs\<close> show ?thesis
    by (simp add: read_ndjson_def list_all_iff loads_dump comp_def map_idI)
qed

end

interpretation compact: json_lines dumps
  by unfold_locales (simp_all add: loads_dumps dumps_no_newline)

section \<open>The endpoint in closed form\<close>

lemma ndjson_rest_eq:
  "ndjson_rest put n (ms, e) =
     (concat (map put ms),
      (case e of None \<Rightarrow> Finished | Some (AioRpcError _) \<Rightarrow> Finished | Some x \<Rightarrow> Broken x), n + length ms)"
proof (induction ms arbitrary: n)
  case Nil
  then show ?case by (cases "(put, n, ([] :: product_stock list, e))" rule: ndjson_rest.cases) simp_all
qed simp

lemma service_stream_low_stock_eq:
  "service_stream_low_stock dump (ms, e) =
     (case (ms, e) of
        ([], Some x) \<Rightarrow> Inl (rpc_error x)
      | _ \<Rightarrow> Inr (concat (map (to_line dump) ms),
          (case e of None \<Rightarrow> Finished | Some (AioRpcError _) \<Rightarrow> Finished | Some x \<Rightarrow> Broken x)))"
  by (cases ms; cases e) (simp_all add: service_stream_low_stock_def ndjson_def ndjson_rest_eq)

lemma low_stock_stream:
  fixes ck :: "string \<Rightarrow> 'k::linorder" and act :: "nat \<Rightarrow> bool"
  shows "fst (server_stream d UnaryStream ''WatchLowStock'' (low_stock_handler ck act) q s) =
      (if trusted d then apsnd (case_sum (Some \<circ> wire_status) (\<lambda>_. None)) (WatchLowStock_handler ck act q (app s))
       else ([], Some UNAUTHENTICATED))"
    and "app (snd (server_stream d UnaryStream ''WatchLowStock'' (low_stock_handler ck act) q s)) = app s"
proof -
  let ?h = "low_stock_handler ck act"
  let ?d = "with_auth (dp_client_token d) \<lparr>cd_method = method_path ''WatchLowStock'', cd_metadata = None\<rparr>"
  have kinds: "kinds ?h = [UnaryStream]" by (simp add: kinds_def low_stock_handler_def)
  have run: "run_handler ?h q t = (WatchLowStock_handler ck act q (app t), t)" for t
    by (simp add: run_handler_def low_stock_handler_def)
  have "fst (server_stream d UnaryStream ''WatchLowStock'' ?h q s) =
      (if trusted d then apsnd (case_sum (Some \<circ> wire_status) (\<lambda>_. None)) (WatchLowStock_handler ck act q (app s))
       else ([], Some UNAUTHENTICATED))
    \<and> app (snd (server_stream d UnaryStream ''WatchLowStock'' ?h q s)) = app s"
  proof (cases "trusted d")
    case True
    then have "server_interceptors (dp_server_token d) (\<lambda>cd s. (Inr (Some ?h), s)) ?d s =
        (Inr (Some (wrap_handler (method_path ''WatchLowStock'') ?h)), s)"
      by (simp add: server_interceptors_authorised authorised_client)
    with True show ?thesis
      by (simp add: server_stream_def intercept_call_eq Let_def wrap_handler_run [OF kinds] run
          split: prod.split sum.split)
  next
    case False
    then have "server_interceptors (dp_server_token d) (\<lambda>cd s. (Inr (Some ?h), s)) ?d s =
        (Inr (Some (wrap_handler (method_path ''WatchLowStock'')
           (abort_handler ?h UNAUTHENTICATED ''invalid auth token''))),
         log_line (Rejecting (method_path ''WatchLowStock'')) s)"
      by (simp add: server_interceptors_rejected authorised_client)
    with False show ?thesis
      by (simp add: server_stream_def intercept_call_eq Let_def abort_handler_run [OF kinds]
          wrap_handler_run [OF abort_handler_run(1) [OF kinds]])
  qed
  then show "fst (server_stream d UnaryStream ''WatchLowStock'' ?h q s) =
      (if trusted d then apsnd (case_sum (Some \<circ> wire_status) (\<lambda>_. None)) (WatchLowStock_handler ck act q (app s))
       else ([], Some UNAUTHENTICATED))"
    and "app (snd (server_stream d UnaryStream ''WatchLowStock'' ?h q s)) = app s"
    by blast+
qed

section \<open>Properties\<close>

lemma yield_all: "(\<And>k. act k) \<Longrightarrow> yield_rows act k rows = map product_stock_of rows"
  by (induction rows arbitrary: k) simp_all

lemma available_bound: "db_ok db \<Longrightarrow> p \<in> set (products db) \<Longrightarrow> p_available p \<le> max_int4"
proof -
  assume ok: "db_ok db" "p \<in> set (products db)"
  then have "product_get (p_id p) db = Some p" by (intro product_get_member db_okD(1))
  then show ?thesis
    using stock_bound [OF ok(1), of "p_id p"] held_nonneg [OF ok(1), of "p_id p"] by (simp add: stock_def)
qed

definition row_json :: "product_stock_row \<Rightarrow> json" where
  "row_json row = ProductStockOut (product_stock_of row)"

lemma row_printable:
  assumes "db_ok db" "\<forall>p \<in> set (products db). in_int64 (p_id p)"
    and "row \<in> set (stream_low_stock ck threshold sku_prefix db)"
  shows "printable (row_json row)"
proof -
  obtain p where p: "p \<in> set (products db)" "row = to_row p" using assms(3) by (auto simp: low_stock_rows)
  have "0 \<le> p_available p" "p_available p \<le> max_int4"
    using available_bound [OF assms(1) p(1)] assms(1) p(1) by (simp_all add: db_ok_def)
  then have "length (str_int (p_available p)) \<le> 4300" by (intro str_int_fits) (simp_all add: max_int4_def)
  moreover have "length (str_int (p_id p)) \<le> 4300"
    using assms(2) p(1) by (intro str_int_fits) (auto simp: in_int64_def)
  ultimately show ?thesis by (simp add: row_json_def ProductStockOut_def product_stock_of_def p(2))
qed

text \<open>The rows that the client reads off the stream before it ends.\<close>

definition received :: "stream_fate \<Rightarrow> 'a list \<Rightarrow> 'a list" where
  "received fate rows = (case fate of Whole \<Rightarrow> rows | Cut n _ \<Rightarrow> take n rows)"

lemma low_stock_client:
  assumes "trusted d" "0 \<le> threshold" "in_int32 threshold" "\<And>k. act k"
  shows "fst (client_watch_low_stock d (low_stock_handler ck act) fate threshold sku_prefix s) =
    (map product_stock_of (received fate (stream_low_stock ck threshold sku_prefix (app s))),
     case fate of Whole \<Rightarrow> None | Cut _ code \<Rightarrow> Some (AioRpcError code))"
proof -
  let ?q = "\<lparr>lsq_threshold = threshold, lsq_sku_prefix = sku_prefix\<rparr>"
  obtain s1 where call: "server_stream d UnaryStream ''WatchLowStock'' (low_stock_handler ck act) ?q s =
      ((map product_stock_of (stream_low_stock ck threshold sku_prefix (app s)), None), s1)"
    using low_stock_stream(1) [of d ck act ?q s] assms
    by (cases "server_stream d UnaryStream ''WatchLowStock'' (low_stock_handler ck act) ?q s")
      (simp add: WatchLowStock_handler_def yield_all)
  show ?thesis
    using assms(3) by (simp add: client_watch_low_stock_def call received_def take_map split: stream_fate.split)
qed

lemma to_line_lines: "concat (map (to_line dump) (map product_stock_of rows)) =
    concat (map (\<lambda>v. dump v @ [10]) (map row_json rows))"
  by (simp add: to_line_def row_json_def comp_def)

lemma row_json_product:
  "row_json (to_row p) =
     JObj [(cps ''product_id'', JInt (p_id p)), (cps ''sku'', JStr (cps (p_sku p))),
       (cps ''name'', JStr (cps (p_name p))), (cps ''available_quantity'', JInt (p_available p))]"
  by (simp add: row_json_def ProductStockOut_def product_stock_of_def)

lemma received_map: "received fate (map f xs) = map f (received fate xs)"
  by (simp add: received_def take_map split: stream_fate.split)

text \<open>
  C25: the low-stock endpoint, end to end. With the shared secret, a threshold that the request
  message can carry and a context that stays active, the 200 answer is a text with one JSON object
  per line: for each product of the inventory whose available quantity is at most the threshold
  and whose SKU starts with the prefix, in the collation order of the SKUs, its id, SKU, name and
  available quantity under those names. All of these products are there when the call ends
  normally, and the first ones, as received, when it is cut off after the first one. A call that is
  cut off before the first row is answered by the HTTP status of its gRPC status instead.
\<close>

theorem low_stock_streamed:
  assumes "trusted d" "0 \<le> threshold" "in_int32 threshold" "\<And>k. act k"
    and "db_ok (app s)" "\<forall>p \<in> set (products (app s)). in_int64 (p_id p)" "json_lines dump"
  shows "let low = sort_key (\<lambda>p. ck (p_sku p))
        (filter (\<lambda>p. p_available p \<le> threshold \<and> prefix sku_prefix (p_sku p)) (products (app s)));
      got = (case fate of Whole \<Rightarrow> low | Cut n _ \<Rightarrow> take n low) in
    case fst (low_stock_endpoint dump d ck act fate threshold sku_prefix s) of
      Reply status (body, ending) \<Rightarrow> status = 200 \<and> ending = Finished \<and> (got = [] \<longrightarrow> fate = Whole)
        \<and> read_ndjson body = Some (map (\<lambda>p.
            JObj [(cps ''product_id'', JInt (p_id p)), (cps ''sku'', JStr (cps (p_sku p))),
              (cps ''name'', JStr (cps (p_name p))), (cps ''available_quantity'', JInt (p_available p))]) got)
    | Error status detail \<Rightarrow> got = [] \<and> (\<exists>n code. fate = Cut n code \<and> status = grpc_to_http_status code
        \<and> detail = Some (Text (''inventory unavailable: '' @ status_name code)))"
proof -
  let ?low = "sort_key (\<lambda>p. ck (p_sku p))
    (filter (\<lambda>p. p_available p \<le> threshold \<and> prefix sku_prefix (p_sku p)) (products (app s)))"
  let ?rows = "received fate (stream_low_stock ck threshold sku_prefix (app s))"
  have rows: "?rows = map to_row (received fate ?low)" by (simp only: low_stock_rows received_map)
  obtain s1 where client: "client_watch_low_stock d (low_stock_handler ck act) fate threshold sku_prefix s =
      ((map product_stock_of ?rows, case fate of Whole \<Rightarrow> None | Cut _ code \<Rightarrow> Some (AioRpcError code)), s1)"
    using low_stock_client [where act = act, OF assms(1-4), of ck fate sku_prefix s]
    by (cases "client_watch_low_stock d (low_stock_handler ck act) fate threshold sku_prefix s") simp
  have "list_all printable (map row_json ?rows)"
    using row_printable [OF assms(5,6)]
    by (auto simp: list_all_iff received_def dest: in_set_takeD split: stream_fate.splits)
  from json_lines.read_lines [OF assms(7) this]
  have read: "read_ndjson (concat (map (to_line dump) (map product_stock_of ?rows))) = Some (map row_json ?rows)"
    by (simp only: to_line_lines)
  let ?reply = "fst (low_stock_endpoint dump d ck act fate threshold sku_prefix s)"
  have "?reply = http_reply_of 200 (service_stream_low_stock dump
      (map product_stock_of ?rows, case fate of Whole \<Rightarrow> None | Cut _ code \<Rightarrow> Some (AioRpcError code)))"
    using assms(2) by (simp add: low_stock_endpoint_def client)
  then have "?reply = (case fate of
      Cut n code \<Rightarrow> if ?rows = [] then Error (grpc_to_http_status code)
          (Some (Text (''inventory unavailable: '' @ status_name code)))
        else Reply 200 (concat (map (to_line dump) (map product_stock_of ?rows)), Finished)
    | Whole \<Rightarrow> Reply 200 (concat (map (to_line dump) (map product_stock_of ?rows)), Finished))"
    by (auto simp: service_stream_low_stock_eq http_reply_of_def rpc_error_def split: list.split stream_fate.split)
  then have reply: "?reply = (case fate of
      Cut n code \<Rightarrow> if received fate ?low = [] then Error (grpc_to_http_status code)
          (Some (Text (''inventory unavailable: '' @ status_name code)))
        else Reply 200 (concat (map (to_line dump) (map product_stock_of ?rows)), Finished)
    | Whole \<Rightarrow> Reply 200 (concat (map (to_line dump) (map product_stock_of ?rows)), Finished))"
    by (simp only: rows map_is_Nil_conv)
  have "map row_json ?rows = map (\<lambda>p. JObj [(cps ''product_id'', JInt (p_id p)), (cps ''sku'', JStr (cps (p_sku p))),
      (cps ''name'', JStr (cps (p_name p))), (cps ''available_quantity'', JInt (p_available p))]) (received fate ?low)"
    by (simp only: rows map_map comp_def row_json_product)
  with read reply show ?thesis
    by (cases fate) (simp_all only: Let_def received_def stream_fate.case http_reply.case prod.case split: if_splits, auto)
qed

theorem low_stock_streamed_witness:
  "case fst (low_stock_endpoint dumps demo_deployment (length :: string \<Rightarrow> nat) (\<lambda>_. True) Whole 50 '''' (rm_server (demo_remote []))) of
      Reply status (body, ending) \<Rightarrow> status = 200 \<and> ending = Finished
        \<and> read_ndjson body = Some
            [JObj [(cps ''product_id'', JInt 3), (cps ''sku'', JStr (cps ''SKU-GIZMO'')),
               (cps ''name'', JStr (cps ''Limited Gizmo'')), (cps ''available_quantity'', JInt 10)],
             JObj [(cps ''product_id'', JInt 2), (cps ''sku'', JStr (cps ''SKU-GADGET'')),
               (cps ''name'', JStr (cps ''Premium Gadget'')), (cps ''available_quantity'', JInt 50)]]
    | Error _ _ \<Rightarrow> False"
proof -
  have "\<forall>p \<in> set (products (app (rm_server (demo_remote [])))). in_int64 (p_id p)"
    by (simp add: demo_db_def in_int64_def)
  from low_stock_streamed [OF _ _ _ _ _ this compact.json_lines_axioms, where d = demo_deployment
      and threshold = 50 and act = "\<lambda>_. True" and sku_prefix = "''''" and fate = Whole
      and ck = "length :: string \<Rightarrow> nat"]
  show ?thesis
    by (simp add: trusted_def in_int32_def demo_db_ok demo_db_def [symmetric] Let_def
        split: http_reply.splits prod.splits) (simp add: demo_db_def)
qed

text \<open>
  When the endpoint answers an error. It refuses exactly the negative thresholds with 422;
  a threshold above the range of \<^verbatim>\<open>int32\<close>, which the validation lets through, is answered 500;
  every other error is a gRPC failure before the first row, answered 502, 503 or 504. An
  untrusted client gets no row: its call is answered 502 unless the network fails first. No
  answer changes the inventory.
\<close>

theorem low_stock_errors:
  "case low_stock_endpoint dump d ck act fate threshold sku_prefix s of
     (Error status detail, s') \<Rightarrow> app s' = app s \<and>
       (status = 422 \<and> threshold < 0 \<and> detail = None
        \<or> status = 500 \<and> 2147483647 < threshold \<and> detail = None
        \<or> status \<in> {502, 503, 504} \<and> 0 \<le> threshold \<and> threshold \<le> 2147483647
          \<and> (status = 502 \<and> \<not> trusted d \<or> (\<exists>n code. fate = Cut n code \<and> status = grpc_to_http_status code)))
   | (Reply status r, s') \<Rightarrow> app s' = app s \<and> status = 200 \<and> trusted d \<and> 0 \<le> threshold \<and> threshold \<le> 2147483647"
proof -
  let ?q = "\<lparr>lsq_threshold = threshold, lsq_sku_prefix = sku_prefix\<rparr>"
  obtain ms status s1 where call:
      "server_stream d UnaryStream ''WatchLowStock'' (low_stock_handler ck act) ?q s = ((ms, status), s1)"
    by (metis surj_pair)
  note facts = low_stock_stream [of d ck act ?q s, unfolded call fst_conv snd_conv]
  have codes: "grpc_to_http_status code \<in> {502, 503, 504}" for code
    by (simp add: grpc_to_http_status_def)
  have "status = None" "trusted d" if "0 \<le> threshold" "status \<noteq> Some UNAUTHENTICATED"
    using facts(1) that by (auto simp: WatchLowStock_handler_def split: if_splits)
  moreover have "ms = []" "\<not> trusted d" if "0 \<le> threshold" "status = Some UNAUTHENTICATED"
    using facts(1) that by (auto simp: WatchLowStock_handler_def split: if_splits)
  moreover have "app s1 = app s" using facts(2) .
  moreover have "grpc_to_http_status UNAUTHENTICATED = 502" by (simp add: grpc_to_http_status_def)
  ultimately show ?thesis
    using codes
    by (cases "threshold < 0"; cases "status = Some UNAUTHENTICATED"; cases fate)
      (auto simp: low_stock_endpoint_def client_watch_low_stock_def call in_int32_def
        service_stream_low_stock_eq http_reply_of_def rpc_error_def split: list.splits)
qed

end
