(* ===== verification/StockBridge.thy ===== *)
theory StockBridge
  imports JsonPrint GrpcMessages
begin

text \<open>
  The WebSocket bridge \<^verbatim>\<open>stock_watch\<close> of the order service's \<^verbatim>\<open>modules/inventory/service.py\<close>.
  A session is a few tasks on one event loop: the pump that reads the client's frames, the
  consumer of the command queue inside the gRPC call, the pump that forwards the updates, and
  the session itself, which waits for either pump, cancels the other and closes the socket.
  They interleave where they await, so each step below is the code from one await to the next.
  The client and the servicer are the outside: they send frames, updates and the status of the
  call whenever they like.

  Pydantic's coercion of the items of \<^verbatim>\<open>list[int]\<close> and the text of its error report are
  parameters. A frame that is not text is not modelled.
\<close>

section \<open>Frames\<close>

datatype ws_frame = TextFrame code_points | WsDisconnect

datatype ws_message = ErrorFrame json | UpdateFrame stock_update

datatype pump_error = JSONDecodeError | FieldOverflow | AioRpcFailure status_code | SocketGone

text \<open>\<^verbatim>\<open>WatchCommandIn.model_validate\<close>: unknown members are ignored.\<close>

definition validate_command :: "(json \<Rightarrow> int option) \<Rightarrow> json \<Rightarrow> (code_points \<times> int list) option" where
  "validate_command as_int raw =
     (case raw of
        JObj ms \<Rightarrow>
          (case (member_of (cps ''action'') ms, member_of (cps ''product_ids'') ms) of
             (Some (JStr a), Some (JArr xs)) \<Rightarrow>
               if a \<in> {cps ''subscribe'', cps ''unsubscribe''} \<and> list_all (\<lambda>x. as_int x \<noteq> None) xs
               then Some (a, map (the \<circ> as_int) xs) else None
           | _ \<Rightarrow> None)
      | _ \<Rightarrow> None)"

definition COMMAND_ACTIONS :: "code_points \<Rightarrow> watch_action" where
  "COMMAND_ACTIONS a = (if a = cps ''subscribe'' then SUBSCRIBE else UNSUBSCRIBE)"

definition UPDATE_KIND_LABELS :: "update_kind \<Rightarrow> string" where
  "UPDATE_KIND_LABELS k = (case k of SNAPSHOT \<Rightarrow> ''snapshot'' | CHANGED \<Rightarrow> ''changed'')"

text \<open>What one frame amounts to.\<close>

datatype verdict = Command watch_command | Invalid json | Fatal pump_error | Gone

definition judge :: "(json \<Rightarrow> int option) \<Rightarrow> ws_frame \<Rightarrow> verdict" where
  "judge as_int frame =
     (case frame of
        WsDisconnect \<Rightarrow> Gone
      | TextFrame t \<Rightarrow>
          (case loads t of
             None \<Rightarrow> Fatal JSONDecodeError
           | Some raw \<Rightarrow>
               (case validate_command as_int raw of
                  None \<Rightarrow> Invalid raw
                | Some (action, ids) \<Rightarrow>
                    if list_all in_int64 ids
                    then Command \<lparr>wc_action = COMMAND_ACTIONS action, wc_product_ids = ids\<rparr>
                    else Fatal FieldOverflow)))"

text \<open>The JSON of the messages to the client.\<close>

definition StockUpdateOut :: "stock_update \<Rightarrow> json" where
  "StockUpdateOut u =
     JObj [(cps ''product_id'', JInt (su_product_id u)), (cps ''sku'', JStr (cps (su_sku u))),
       (cps ''name'', JStr (cps (su_name u))), (cps ''available_quantity'', JInt (su_available_quantity u)),
       (cps ''kind'', JStr (cps (UPDATE_KIND_LABELS (su_kind u))))]"

definition message_json :: "(json \<Rightarrow> json) \<Rightarrow> ws_message \<Rightarrow> json" where
  "message_json errors m =
     (case m of
        ErrorFrame raw \<Rightarrow>
          JObj [(cps ''error'', JStr (cps ''invalid command'')), (cps ''detail'', errors raw)]
      | UpdateFrame u \<Rightarrow> StockUpdateOut u)"

section \<open>The session\<close>

datatype pump_exit = Returned | Raised pump_error | Cancelled

datatype inbound_pc = Reading | Replying json | InDone pump_exit

datatype outbound_pc = Iterating | Forwarding stock_update | OutDone pump_exit

datatype session_pc = Waiting | Closing | Closed

text \<open>
  The state: what has arrived and is not read yet, the command queue with its sentinel
  \<^verbatim>\<open>None\<close>, what the call and the socket got, and where the tasks are. \<open>br_read\<close> and
  \<open>br_served\<close> record all frames read and all updates that arrived.
\<close>

record bridge =
  br_frames :: "ws_frame list"
  br_queue :: "watch_command option list"
  br_updates :: "stock_update list"
  br_status :: "status_code option option"
  br_requested :: "watch_command list"
  br_request_closed :: bool
  br_socket :: "ws_message list"
  br_inbound :: inbound_pc
  br_outbound :: outbound_pc
  br_session :: session_pc
  br_read :: "ws_frame list"
  br_served :: "stock_update list"

definition bridge_start :: bridge where
  "bridge_start = \<lparr>br_frames = [], br_queue = [], br_updates = [], br_status = None, br_requested = [],
     br_request_closed = False, br_socket = [], br_inbound = Reading, br_outbound = Iterating,
     br_session = Waiting, br_read = [], br_served = []\<rparr>"

text \<open>The \<^verbatim>\<open>finally\<close> of the inbound pump puts the sentinel, however the pump ends.\<close>

definition end_inbound :: "pump_exit \<Rightarrow> bridge \<Rightarrow> bridge" where
  "end_inbound e s = s\<lparr>br_inbound := InDone e, br_queue := br_queue s @ [None]\<rparr>"

definition receive_json :: "(json \<Rightarrow> int option) \<Rightarrow> ws_frame \<Rightarrow> bridge \<Rightarrow> bridge" where
  "receive_json as_int frame s =
     (case judge as_int frame of
        Gone \<Rightarrow> end_inbound Returned s
      | Fatal e \<Rightarrow> end_inbound (Raised e) s
      | Invalid raw \<Rightarrow> s\<lparr>br_inbound := Replying raw\<rparr>
      | Command c \<Rightarrow> s\<lparr>br_queue := br_queue s @ [Some c]\<rparr>)"

text \<open>A send fails when the client is gone; in the inbound pump that is the
  \<^verbatim>\<open>WebSocketDisconnect\<close> that it catches.\<close>

inductive inbound_step :: "(json \<Rightarrow> int option) \<Rightarrow> bridge \<Rightarrow> bridge \<Rightarrow> bool" for as_int where
  read: "br_session s = Waiting \<Longrightarrow> br_inbound s = Reading \<Longrightarrow> br_frames s = f # fs
    \<Longrightarrow> inbound_step as_int s (receive_json as_int f (s\<lparr>br_frames := fs, br_read := br_read s @ [f]\<rparr>))"
| reply: "br_session s = Waiting \<Longrightarrow> br_inbound s = Replying raw
    \<Longrightarrow> inbound_step as_int s (s\<lparr>br_inbound := Reading, br_socket := br_socket s @ [ErrorFrame raw]\<rparr>)"
| reply_lost: "br_session s = Waiting \<Longrightarrow> br_inbound s = Replying raw
    \<Longrightarrow> inbound_step as_int s (end_inbound Returned s)"
| cancelled: "br_session s = Closing \<Longrightarrow> \<nexists>e. br_inbound s = InDone e
    \<Longrightarrow> inbound_step as_int s (end_inbound Cancelled s)"

text \<open>\<^verbatim>\<open>_command_stream\<close>, consumed by the call as long as it is open.\<close>

inductive request_step :: "bridge \<Rightarrow> bridge \<Rightarrow> bool" where
  command: "br_status s = None \<Longrightarrow> \<nexists>e. br_outbound s = OutDone e \<Longrightarrow> \<not> br_request_closed s
    \<Longrightarrow> br_queue s = Some c # q
    \<Longrightarrow> request_step s (s\<lparr>br_queue := q, br_requested := br_requested s @ [c]\<rparr>)"
| sentinel: "br_status s = None \<Longrightarrow> \<nexists>e. br_outbound s = OutDone e \<Longrightarrow> \<not> br_request_closed s
    \<Longrightarrow> br_queue s = None # q
    \<Longrightarrow> request_step s (s\<lparr>br_queue := q, br_request_closed := True\<rparr>)"

inductive outbound_step :: "bridge \<Rightarrow> bridge \<Rightarrow> bool" where
  update: "br_session s = Waiting \<Longrightarrow> br_outbound s = Iterating \<Longrightarrow> br_updates s = u # us
    \<Longrightarrow> outbound_step s (s\<lparr>br_updates := us, br_outbound := Forwarding u\<rparr>)"
| send: "br_session s = Waiting \<Longrightarrow> br_outbound s = Forwarding u
    \<Longrightarrow> outbound_step s (s\<lparr>br_outbound := Iterating, br_socket := br_socket s @ [UpdateFrame u]\<rparr>)"
| send_lost: "br_session s = Waiting \<Longrightarrow> br_outbound s = Forwarding u
    \<Longrightarrow> outbound_step s (s\<lparr>br_outbound := OutDone (Raised SocketGone)\<rparr>)"
| ended: "br_session s = Waiting \<Longrightarrow> br_outbound s = Iterating \<Longrightarrow> br_updates s = []
    \<Longrightarrow> br_status s = Some status
    \<Longrightarrow> outbound_step s (s\<lparr>br_outbound := OutDone
          (case status of None \<Rightarrow> Returned | Some code \<Rightarrow> Raised (AioRpcFailure code))\<rparr>)"
| cancelled: "br_session s = Closing \<Longrightarrow> \<nexists>e. br_outbound s = OutDone e
    \<Longrightarrow> outbound_step s (s\<lparr>br_outbound := OutDone Cancelled\<rparr>)"

text \<open>\<^verbatim>\<open>asyncio.wait\<close> and the cancellation, then \<^verbatim>\<open>gather\<close> and \<^verbatim>\<open>close\<close>.\<close>

inductive session_step :: "bridge \<Rightarrow> bridge \<Rightarrow> bool" where
  wake: "br_session s = Waiting \<Longrightarrow> (\<exists>e. br_inbound s = InDone e) \<or> (\<exists>e. br_outbound s = OutDone e)
    \<Longrightarrow> session_step s (s\<lparr>br_session := Closing\<rparr>)"
| close: "br_session s = Closing \<Longrightarrow> br_inbound s = InDone e1 \<Longrightarrow> br_outbound s = OutDone e2
    \<Longrightarrow> session_step s (s\<lparr>br_session := Closed\<rparr>)"

inductive bridge_step :: "(json \<Rightarrow> int option) \<Rightarrow> bridge \<Rightarrow> bridge \<Rightarrow> bool" for as_int where
  inbound: "inbound_step as_int s s' \<Longrightarrow> bridge_step as_int s s'"
| request: "request_step s s' \<Longrightarrow> bridge_step as_int s s'"
| outbound: "outbound_step s s' \<Longrightarrow> bridge_step as_int s s'"
| session: "session_step s s' \<Longrightarrow> bridge_step as_int s s'"

inductive bridge_outside :: "bridge \<Rightarrow> bridge \<Rightarrow> bool" where
  frame: "bridge_outside s (s\<lparr>br_frames := br_frames s @ [f]\<rparr>)"
| update: "br_status s = None
    \<Longrightarrow> bridge_outside s (s\<lparr>br_updates := br_updates s @ [u], br_served := br_served s @ [u]\<rparr>)"
| status: "br_status s = None \<Longrightarrow> bridge_outside s (s\<lparr>br_status := Some status\<rparr>)"

inductive bridged :: "(json \<Rightarrow> int option) \<Rightarrow> bridge \<Rightarrow> bool" for as_int where
  start: "bridged as_int bridge_start"
| own: "bridged as_int s \<Longrightarrow> bridge_step as_int s s' \<Longrightarrow> bridged as_int s'"
| outside: "bridged as_int s \<Longrightarrow> bridge_outside s s' \<Longrightarrow> bridged as_int s'"

inductive_cases bridge_stepE: "bridge_step as_int s s'"

section \<open>What the session has done so far\<close>

fun commands :: "(json \<Rightarrow> int option) \<Rightarrow> ws_frame list \<Rightarrow> watch_command list" where
  "commands as_int [] = []"
| "commands as_int (f # fs) =
     (case judge as_int f of Command c \<Rightarrow> c # commands as_int fs | _ \<Rightarrow> commands as_int fs)"

fun invalid_frames :: "(json \<Rightarrow> int option) \<Rightarrow> ws_frame list \<Rightarrow> json list" where
  "invalid_frames as_int [] = []"
| "invalid_frames as_int (f # fs) =
     (case judge as_int f of Invalid raw \<Rightarrow> raw # invalid_frames as_int fs | _ \<Rightarrow> invalid_frames as_int fs)"

fun error_frames :: "ws_message list \<Rightarrow> json list" where
  "error_frames [] = []"
| "error_frames (ErrorFrame raw # ms) = raw # error_frames ms"
| "error_frames (UpdateFrame u # ms) = error_frames ms"

fun update_frames :: "ws_message list \<Rightarrow> stock_update list" where
  "update_frames [] = []"
| "update_frames (ErrorFrame raw # ms) = update_frames ms"
| "update_frames (UpdateFrame u # ms) = u # update_frames ms"

definition final_frame :: "(json \<Rightarrow> int option) \<Rightarrow> ws_frame \<Rightarrow> bool" where
  "final_frame as_int f \<longleftrightarrow> (case judge as_int f of Gone \<Rightarrow> True | Fatal _ \<Rightarrow> True | _ \<Rightarrow> False)"

definition in_done :: "bridge \<Rightarrow> bool" where
  "in_done s \<longleftrightarrow> (\<exists>e. br_inbound s = InDone e)"

definition out_done :: "bridge \<Rightarrow> bool" where
  "out_done s \<longleftrightarrow> (\<exists>e. br_outbound s = OutDone e)"

lemma commands_append [simp]: "commands as_int (fs @ gs) = commands as_int fs @ commands as_int gs"
  by (induction fs) (simp_all split: verdict.split)

lemma invalid_frames_append [simp]:
  "invalid_frames as_int (fs @ gs) = invalid_frames as_int fs @ invalid_frames as_int gs"
  by (induction fs) (simp_all split: verdict.split)

lemma error_frames_append [simp]: "error_frames (ms @ ns) = error_frames ms @ error_frames ns"
  by (induction ms rule: error_frames.induct) simp_all

lemma update_frames_append [simp]: "update_frames (ms @ ns) = update_frames ms @ update_frames ns"
  by (induction ms rule: update_frames.induct) simp_all

text \<open>The invariant, one part per direction.\<close>

definition commands_ok :: "(json \<Rightarrow> int option) \<Rightarrow> bridge \<Rightarrow> bool" where
  "commands_ok as_int s \<longleftrightarrow>
     (\<exists>cs. br_queue s = map Some cs @ (if in_done s \<and> \<not> br_request_closed s then [None] else [])
        \<and> commands as_int (br_read s) = br_requested s @ cs
        \<and> (br_request_closed s \<longrightarrow> in_done s \<and> cs = []))"

definition errors_ok :: "(json \<Rightarrow> int option) \<Rightarrow> bridge \<Rightarrow> bool" where
  "errors_ok as_int s \<longleftrightarrow>
     (case br_inbound s of
        Reading \<Rightarrow> invalid_frames as_int (br_read s) = error_frames (br_socket s)
      | Replying raw \<Rightarrow> invalid_frames as_int (br_read s) = error_frames (br_socket s) @ [raw]
      | InDone (Raised e) \<Rightarrow> invalid_frames as_int (br_read s) = error_frames (br_socket s)
      | InDone _ \<Rightarrow> invalid_frames as_int (br_read s) = error_frames (br_socket s)
          \<or> (\<exists>raw. invalid_frames as_int (br_read s) = error_frames (br_socket s) @ [raw]))"

definition frames_ok :: "(json \<Rightarrow> int option) \<Rightarrow> bridge \<Rightarrow> bool" where
  "frames_ok as_int s \<longleftrightarrow>
     (if in_done s then \<forall>f \<in> set (butlast (br_read s)). \<not> final_frame as_int f
      else \<forall>f \<in> set (br_read s). \<not> final_frame as_int f)
     \<and> (\<forall>e. br_inbound s = InDone (Raised e) \<longleftrightarrow> br_read s \<noteq> [] \<and> judge as_int (last (br_read s)) = Fatal e)"

definition updates_ok :: "bridge \<Rightarrow> bool" where
  "updates_ok s \<longleftrightarrow>
     (case br_outbound s of
        Iterating \<Rightarrow> update_frames (br_socket s) @ br_updates s = br_served s
      | Forwarding u \<Rightarrow> update_frames (br_socket s) @ u # br_updates s = br_served s
      | OutDone Returned \<Rightarrow> br_status s = Some None \<and> update_frames (br_socket s) = br_served s
      | OutDone (Raised (AioRpcFailure code)) \<Rightarrow>
          br_status s = Some (Some code) \<and> update_frames (br_socket s) = br_served s
      | OutDone _ \<Rightarrow> prefix (update_frames (br_socket s)) (br_served s))"

lemmas bridge_ok_defs = commands_ok_def errors_ok_def frames_ok_def updates_ok_def in_done_def
  final_frame_def end_inbound_def receive_json_def

lemma in_done_simps:
  "br_inbound s = Reading \<Longrightarrow> \<not> in_done s" "br_inbound s = Replying raw \<Longrightarrow> \<not> in_done s"
  "br_inbound s = InDone e \<Longrightarrow> in_done s"
  by (simp_all add: in_done_def)

lemma receive_json_cases:
  obtains (final) e where "final_frame as_int f" "receive_json as_int f s = end_inbound e s"
      "commands as_int [f] = []" "invalid_frames as_int [f] = []"
      "e = (case judge as_int f of Fatal x \<Rightarrow> Raised x | _ \<Rightarrow> Returned)"
  | (invalid) raw where "\<not> final_frame as_int f" "receive_json as_int f s = s\<lparr>br_inbound := Replying raw\<rparr>"
      "commands as_int [f] = []" "invalid_frames as_int [f] = [raw]" "judge as_int f = Invalid raw"
  | (queued) c where "\<not> final_frame as_int f" "receive_json as_int f s = s\<lparr>br_queue := br_queue s @ [Some c]\<rparr>"
      "commands as_int [f] = [c]" "invalid_frames as_int [f] = []" "judge as_int f = Command c"
proof (cases "judge as_int f")
  case (Command c)
  then show ?thesis by (intro queued) (simp_all add: receive_json_def final_frame_def)
next
  case (Invalid raw)
  then show ?thesis by (intro invalid) (simp_all add: receive_json_def final_frame_def)
qed (rule final; simp add: receive_json_def final_frame_def)+

lemma end_inbound_sel [simp]:
  "br_inbound (end_inbound e s) = InDone e" "br_queue (end_inbound e s) = br_queue s @ [None]"
  "br_read (end_inbound e s) = br_read s" "br_socket (end_inbound e s) = br_socket s"
  "br_requested (end_inbound e s) = br_requested s" "br_request_closed (end_inbound e s) = br_request_closed s"
  "br_frames (end_inbound e s) = br_frames s" "br_session (end_inbound e s) = br_session s"
  "br_outbound (end_inbound e s) = br_outbound s" "br_updates (end_inbound e s) = br_updates s"
  "br_status (end_inbound e s) = br_status s" "br_served (end_inbound e s) = br_served s"
  by (simp_all add: end_inbound_def)

lemma commands_ok_running:
  "\<not> in_done s \<Longrightarrow> commands_ok as_int s \<longleftrightarrow> (\<exists>cs. br_queue s = map Some cs
     \<and> commands as_int (br_read s) = br_requested s @ cs \<and> \<not> br_request_closed s)"
  by (auto simp: commands_ok_def)

lemma commands_ok_ended:
  assumes "commands_ok as_int s" "\<not> in_done s" "commands as_int fs = []"
  shows "commands_ok as_int (end_inbound e (s\<lparr>br_frames := gs, br_read := br_read s @ fs\<rparr>))"
  using assms by (auto simp: commands_ok_running) (auto simp: commands_ok_def in_done_def)

lemma inbound_commands_ok: "inbound_step as_int s s' \<Longrightarrow> commands_ok as_int s \<Longrightarrow> commands_ok as_int s'"
proof (induction rule: inbound_step.induct)
  case (read s f fs)
  then have running: "\<not> in_done s" by (simp add: in_done_simps)
  let ?s = "s\<lparr>br_frames := fs, br_read := br_read s @ [f]\<rparr>"
  show ?case
  proof (cases rule: receive_json_cases [of as_int f ?s])
    case (final e)
    then show ?thesis using commands_ok_ended [OF read(4) running] by simp
  next
    case (invalid raw)
    then show ?thesis using read(4) running by (auto simp: commands_ok_def in_done_def)
  next
    case (queued c)
    obtain cs where "br_queue s = map Some cs" "commands as_int (br_read s) = br_requested s @ cs"
        "\<not> br_request_closed s"
      using read(4) running by (auto simp: commands_ok_running)
    with queued running show ?thesis
      by (simp add: commands_ok_def in_done_def exI [of _ "cs @ [c]"])
  qed
next
  case (reply s raw)
  then show ?case by (simp add: commands_ok_def in_done_def)
next
  case (reply_lost s raw)
  then show ?case using commands_ok_ended [of as_int s "[]" Returned "br_frames s"] by (simp add: in_done_simps)
next
  case (cancelled s)
  then show ?case using commands_ok_ended [of as_int s "[]" Cancelled "br_frames s"] by (simp add: in_done_def)
qed

lemma inbound_errors_ok: "inbound_step as_int s s' \<Longrightarrow> errors_ok as_int s \<Longrightarrow> errors_ok as_int s'"
proof (induction rule: inbound_step.induct)
  case (read s f fs)
  then show ?case
    by (cases rule: receive_json_cases [of as_int f "s\<lparr>br_frames := fs, br_read := br_read s @ [f]\<rparr>"])
      (auto simp: errors_ok_def split: verdict.splits pump_exit.splits)
qed (auto simp: errors_ok_def split: inbound_pc.splits pump_exit.splits)


lemma frames_ok_read:
  assumes "frames_ok as_int s" "\<not> in_done s"
  shows "\<forall>f \<in> set (br_read s). \<not> final_frame as_int f"
    and "\<not> (br_read s \<noteq> [] \<and> judge as_int (last (br_read s)) = Fatal e)"
  using assms by (auto simp: frames_ok_def in_done_def)

lemma inbound_frames_ok: "inbound_step as_int s s' \<Longrightarrow> frames_ok as_int s \<Longrightarrow> frames_ok as_int s'"
proof (induction rule: inbound_step.induct)
  case (read s f fs)
  then have running: "\<not> in_done s" by (simp add: in_done_simps)
  note before = frames_ok_read(1) [OF read(4) running]
  let ?s = "s\<lparr>br_frames := fs, br_read := br_read s @ [f]\<rparr>"
  show ?case
  proof (cases rule: receive_json_cases [of as_int f ?s])
    case (final e)
    then show ?thesis using before by (auto simp: frames_ok_def in_done_def split: verdict.splits)
  next
    case (invalid raw)
    then show ?thesis using before by (auto simp: frames_ok_def in_done_def)
  next
    case (queued c)
    then show ?thesis using before running by (auto simp: frames_ok_def in_done_def)
  qed
next
  case (reply s raw)
  then show ?case by (simp add: frames_ok_def in_done_def)
next
  case (reply_lost s raw)
  then have running: "\<not> in_done s" by (simp add: in_done_simps)
  show ?case using frames_ok_read [OF reply_lost(3) running]
    by (auto simp: frames_ok_def in_done_def dest: in_set_butlastD)
next
  case (cancelled s)
  then have running: "\<not> in_done s" by (simp add: in_done_def)
  show ?case using frames_ok_read [OF cancelled(3) running]
    by (auto simp: frames_ok_def in_done_def dest: in_set_butlastD)
qed

lemma receive_json_outbound [simp]:
  "br_outbound (receive_json as_int f s) = br_outbound s" "br_updates (receive_json as_int f s) = br_updates s"
  "br_socket (receive_json as_int f s) = br_socket s" "br_status (receive_json as_int f s) = br_status s"
  "br_served (receive_json as_int f s) = br_served s" "br_session (receive_json as_int f s) = br_session s"
  "br_frames (receive_json as_int f s) = br_frames s" "br_read (receive_json as_int f s) = br_read s"
  by (simp_all add: receive_json_def split: verdict.split)

text \<open>Each part of the invariant reads only some of the fields.\<close>

lemma updates_ok_cong:
  assumes "br_outbound s' = br_outbound s" "br_updates s' = br_updates s" "br_status s' = br_status s"
    and "br_served s' = br_served s" "update_frames (br_socket s') = update_frames (br_socket s)"
  shows "updates_ok s' = updates_ok s"
  unfolding updates_ok_def assms ..

lemma commands_ok_cong:
  assumes "br_inbound s' = br_inbound s" "br_queue s' = br_queue s" "br_read s' = br_read s"
    and "br_requested s' = br_requested s" "br_request_closed s' = br_request_closed s"
  shows "commands_ok as_int s' = commands_ok as_int s"
  unfolding commands_ok_def in_done_def assms ..

lemma errors_ok_cong:
  assumes "br_inbound s' = br_inbound s" "br_read s' = br_read s"
    and "error_frames (br_socket s') = error_frames (br_socket s)"
  shows "errors_ok as_int s' = errors_ok as_int s"
  unfolding errors_ok_def assms ..

lemma frames_ok_cong:
  assumes "br_inbound s' = br_inbound s" "br_read s' = br_read s"
  shows "frames_ok as_int s' = frames_ok as_int s"
  unfolding frames_ok_def in_done_def assms ..

lemmas parts_cong = commands_ok_cong errors_ok_cong frames_ok_cong updates_ok_cong

lemma inbound_updates_ok: "inbound_step as_int s s' \<Longrightarrow> updates_ok s' = updates_ok s"
  by (induction rule: inbound_step.induct; rule updates_ok_cong) simp_all

lemma request_commands_ok: "request_step s s' \<Longrightarrow> commands_ok as_int s \<Longrightarrow> commands_ok as_int s'"
proof (induction rule: request_step.induct)
  case (command s c q)
  then show ?case
    by (auto simp: commands_ok_def in_done_def Cons_eq_append_conv map_eq_Cons_conv
        Cons_eq_map_conv split: if_splits)
next
  case (sentinel s q)
  then show ?case
    by (auto simp: commands_ok_def in_done_def Cons_eq_append_conv Cons_eq_map_conv split: if_splits)
qed

lemma request_others_ok:
  assumes "request_step s s'"
  shows "errors_ok as_int s' = errors_ok as_int s" "frames_ok as_int s' = frames_ok as_int s"
    "updates_ok s' = updates_ok s"
  using assms by - (erule request_step.cases; rule parts_cong; simp)+

lemma outbound_updates_ok: "outbound_step s s' \<Longrightarrow> updates_ok s \<Longrightarrow> updates_ok s'"
proof (induction rule: outbound_step.induct)
  case (cancelled s)
  then show ?case by (cases "br_outbound s") (auto simp: updates_ok_def intro: prefixI [OF sym])
qed (auto simp: updates_ok_def intro: prefixI [OF sym] split: option.split)

lemma outbound_others_ok:
  assumes "outbound_step s s'"
  shows "commands_ok as_int s' = commands_ok as_int s" "errors_ok as_int s' = errors_ok as_int s"
    "frames_ok as_int s' = frames_ok as_int s"
  using assms by - (erule outbound_step.cases; rule parts_cong; simp)+

lemma session_step_ok:
  assumes "session_step s s'"
  shows "commands_ok as_int s' = commands_ok as_int s" "errors_ok as_int s' = errors_ok as_int s"
    "frames_ok as_int s' = frames_ok as_int s" "updates_ok s' = updates_ok s"
  using assms by - (erule session_step.cases; rule parts_cong; simp)+

lemma outside_ok:
  assumes "bridge_outside s s'"
  shows "commands_ok as_int s' = commands_ok as_int s" "errors_ok as_int s' = errors_ok as_int s"
    "frames_ok as_int s' = frames_ok as_int s"
  using assms by - (erule bridge_outside.cases; rule parts_cong; simp)+

lemma outside_updates_ok: "bridge_outside s s' \<Longrightarrow> updates_ok s \<Longrightarrow> updates_ok s'"
proof (induction rule: bridge_outside.induct)
  case (frame s f)
  then show ?case using updates_ok_cong [of "s\<lparr>br_frames := br_frames s @ [f]\<rparr>" s] by simp
next
  case (update s u)
  then show ?case
    by (cases "br_outbound s")
      (auto simp: updates_ok_def split: pump_exit.splits pump_error.splits)
next
  case (status s st)
  then show ?case
    by (cases "br_outbound s") (auto simp: updates_ok_def split: pump_exit.splits pump_error.splits)
qed

definition bridge_ok :: "(json \<Rightarrow> int option) \<Rightarrow> bridge \<Rightarrow> bool" where
  "bridge_ok as_int s \<longleftrightarrow> commands_ok as_int s \<and> errors_ok as_int s \<and> frames_ok as_int s \<and> updates_ok s"

lemma bridge_step_ok: "bridge_step as_int s s' \<Longrightarrow> bridge_ok as_int s \<Longrightarrow> bridge_ok as_int s'"
proof (induction rule: bridge_step.induct)
  case (inbound s s')
  then show ?case
    using inbound_commands_ok inbound_errors_ok inbound_frames_ok inbound_updates_ok by (simp add: bridge_ok_def)
next
  case (request s s')
  then show ?case using request_commands_ok by (simp add: bridge_ok_def request_others_ok)
next
  case (outbound s s')
  then show ?case using outbound_updates_ok by (simp add: bridge_ok_def outbound_others_ok)
next
  case (session s s')
  then show ?case by (simp add: bridge_ok_def session_step_ok)
qed

lemma bridged_ok: "bridged as_int s \<Longrightarrow> bridge_ok as_int s"
proof (induction rule: bridged.induct)
  case start
  then show ?case
    by (simp add: bridge_ok_def commands_ok_def errors_ok_def frames_ok_def updates_ok_def in_done_def
        bridge_start_def)
next
  case (own s s')
  then show ?case using bridge_step_ok by blast
next
  case (outside s s')
  then show ?case using outside_updates_ok by (simp add: bridge_ok_def outside_ok)
qed

section \<open>Termination\<close>

definition bridge_work :: "bridge \<Rightarrow> nat" where
  "bridge_work s = 4 * length (br_frames s) + length (br_queue s) + 2 * length (br_updates s)
     + (case br_inbound s of Reading \<Rightarrow> 2 | Replying _ \<Rightarrow> 3 | InDone _ \<Rightarrow> 0)
     + (case br_outbound s of Iterating \<Rightarrow> 1 | Forwarding _ \<Rightarrow> 2 | OutDone _ \<Rightarrow> 0)
     + (case br_session s of Waiting \<Rightarrow> 2 | Closing \<Rightarrow> 1 | Closed \<Rightarrow> 0)"

lemma inbound_step_work: "inbound_step as_int s s' \<Longrightarrow> bridge_work s' < bridge_work s"
proof (induction rule: inbound_step.induct)
  case (read s f fs)
  then show ?case
    by (cases rule: receive_json_cases [of as_int f "s\<lparr>br_frames := fs, br_read := br_read s @ [f]\<rparr>"])
      (simp_all add: bridge_work_def)
next
  case (cancelled s)
  then show ?case by (cases "br_inbound s") (simp_all add: bridge_work_def)
qed (simp_all add: bridge_work_def)

lemma outbound_step_work: "outbound_step s s' \<Longrightarrow> bridge_work s' < bridge_work s"
proof (induction rule: outbound_step.induct)
  case (cancelled s)
  then show ?case by (cases "br_outbound s") (simp_all add: bridge_work_def)
qed (simp_all add: bridge_work_def)

lemma bridge_step_work: "bridge_step as_int s s' \<Longrightarrow> bridge_work s' < bridge_work s"
proof (induction rule: bridge_step.induct)
  case (request s s')
  then show ?case by cases (simp_all add: bridge_work_def)
next
  case (session s s')
  then show ?case by cases (simp_all add: bridge_work_def)
qed (simp_all add: inbound_step_work outbound_step_work)

lemma bridge_run_work: "(bridge_step as_int ^^ n) s s' \<Longrightarrow> n + bridge_work s' \<le> bridge_work s"
proof (induction n arbitrary: s')
  case (Suc n)
  then obtain t where t: "(bridge_step as_int ^^ n) s t" "bridge_step as_int t s'" by auto
  then show ?case using Suc.IH [OF t(1)] bridge_step_work [OF t(2)] by linarith
qed simp

text \<open>The session is about to end: a pump has ended, or what ends it has arrived.\<close>

definition ending :: "(json \<Rightarrow> int option) \<Rightarrow> bridge \<Rightarrow> bool" where
  "ending as_int s \<longleftrightarrow> in_done s \<or> out_done s \<or> br_status s \<noteq> None
     \<or> (\<exists>f \<in> set (br_frames s). final_frame as_int f) \<or> br_session s \<noteq> Waiting"

lemma inbound_step_ending: "inbound_step as_int s s' \<Longrightarrow> ending as_int s \<Longrightarrow> ending as_int s'"
proof (induction rule: inbound_step.induct)
  case (read s f fs)
  show ?case
  proof (cases rule: receive_json_cases [of as_int f "s\<lparr>br_frames := fs, br_read := br_read s @ [f]\<rparr>"])
    case (final e)
    then show ?thesis by (simp add: ending_def in_done_def)
  qed (use read in \<open>auto simp: ending_def in_done_def out_done_def\<close>)
qed (auto simp: ending_def in_done_def out_done_def)

lemma bridge_step_ending: "bridge_step as_int s s' \<Longrightarrow> ending as_int s \<Longrightarrow> ending as_int s'"
proof (induction rule: bridge_step.induct)
  case (inbound s s')
  then show ?case by (rule inbound_step_ending)
next
  case (request s s')
  then show ?case by cases (auto simp: ending_def in_done_def out_done_def)
next
  case (outbound s s')
  then show ?case by cases (auto simp: ending_def in_done_def out_done_def)
next
  case (session s s')
  then show ?case by cases (auto simp: ending_def in_done_def out_done_def)
qed

definition blocked :: "(json \<Rightarrow> int option) \<Rightarrow> bridge \<Rightarrow> bool" where
  "blocked as_int s \<longleftrightarrow> (\<nexists>s'. bridge_step as_int s s')"

lemma blockedD:
  assumes "blocked as_int s"
  shows "inbound_step as_int s s' \<Longrightarrow> False" "request_step s s' \<Longrightarrow> False" "outbound_step s s' \<Longrightarrow> False"
    "session_step s s' \<Longrightarrow> False"
  using assms unfolding blocked_def by (blast intro: bridge_step.intros)+

text \<open>When no step of its own is left, the session is over, or everything that arrived is dealt with.\<close>

lemma blocked_cases:
  assumes "blocked as_int s"
  obtains (closed) "br_session s = Closed"
  | (idle) "br_session s = Waiting" "br_inbound s = Reading" "br_outbound s = Iterating"
      "br_frames s = []" "br_updates s = []" "br_status s = None"
      "br_request_closed s \<or> br_queue s = []"
proof (cases "br_session s")
  case Waiting
  have in_running: "\<not> in_done s" and out_running: "\<not> out_done s"
    using blockedD(4) [OF assms session_step.wake [OF Waiting]] by (auto simp: in_done_def out_done_def)
  have reading: "br_inbound s = Reading"
    using in_running blockedD(1) [OF assms inbound_step.reply [OF Waiting]]
    by (cases "br_inbound s") (auto simp: in_done_def)
  have iterating: "br_outbound s = Iterating"
    using out_running blockedD(3) [OF assms outbound_step.send [OF Waiting]]
    by (cases "br_outbound s") (auto simp: out_done_def)
  have frames: "br_frames s = []"
    using blockedD(1) [OF assms inbound_step.read [OF Waiting reading]] by (cases "br_frames s") auto
  have updates: "br_updates s = []"
    using blockedD(3) [OF assms outbound_step.update [OF Waiting iterating]] by (cases "br_updates s") auto
  have open_call: "br_status s = None"
    using blockedD(3) [OF assms outbound_step.ended [OF Waiting iterating updates]] by (cases "br_status s") auto
  have "br_request_closed s \<or> br_queue s = []"
  proof (rule ccontr)
    assume waiting: "\<not> ?thesis"
    then obtain x q where "br_queue s = x # q" by (cases "br_queue s") auto
    with waiting open_call iterating show False
      using blockedD(2) [OF assms request_step.command [of s]] blockedD(2) [OF assms request_step.sentinel [of s]]
      by (cases x) auto
  qed
  with Waiting reading iterating frames updates open_call show ?thesis by (rule idle)
next
  case Closing
  have "in_done s" using blockedD(1) [OF assms inbound_step.cancelled [OF Closing]] by (auto simp: in_done_def)
  moreover have "out_done s" using blockedD(3) [OF assms outbound_step.cancelled [OF Closing]]
    by (auto simp: out_done_def)
  ultimately show ?thesis
    using blockedD(4) [OF assms session_step.close [OF Closing]] by (auto simp: in_done_def out_done_def)
qed (rule closed)

section \<open>Properties\<close>

lemma closed_done:
  assumes "bridged as_int s" "br_session s = Closed"
  shows "in_done s \<and> out_done s"
proof -
  have keep: "bridge_step as_int t t' \<Longrightarrow> br_session t = Closed \<longrightarrow> in_done t \<and> out_done t
      \<Longrightarrow> br_session t' = Closed \<longrightarrow> in_done t' \<and> out_done t'" for t t'
    by (elim bridge_stepE inbound_step.cases request_step.cases outbound_step.cases session_step.cases)
      (auto simp: in_done_def out_done_def)
  have "br_session s = Closed \<longrightarrow> in_done s \<and> out_done s"
    using assms(1)
  proof (induction rule: bridged.induct)
    case (own s s')
    then show ?case using keep by blast
  next
    case (outside s s')
    from outside(2,3) show ?case by cases (simp_all add: in_done_def out_done_def)
  qed (simp add: bridge_start_def)
  with assms(2) show ?thesis by simp
qed

text \<open>
  C22: what the bridge has done at any moment. The commands that went out on the gRPC call are, in
  order, those of the valid frames read so far, and the call's request stream is closed only
  after all of them and after the inbound pump ended. Every invalid frame was answered by an
  error frame, in order, with at most the last one unanswered. The updates sent to the client
  are a prefix of those the servicer sent. Nothing is read after a disconnect or a fatal frame,
  and when the socket is closed neither pump is left running.
\<close>

theorem bridge_state:
  assumes "bridged as_int s"
  shows "(\<exists>queued. commands as_int (br_read s) = br_requested s @ queued
      \<and> (br_request_closed s \<longrightarrow> queued = [] \<and> in_done s))
    \<and> (\<exists>late. invalid_frames as_int (br_read s) = error_frames (br_socket s) @ late \<and> length late \<le> 1)
    \<and> prefix (update_frames (br_socket s)) (br_served s)
    \<and> (\<forall>f \<in> set (butlast (br_read s)). \<not> final_frame as_int f)
    \<and> (br_session s = Closed \<longrightarrow> in_done s \<and> out_done s)"
proof -
  have ok: "commands_ok as_int s" "errors_ok as_int s" "frames_ok as_int s" "updates_ok s"
    using bridged_ok [OF assms] by (simp_all add: bridge_ok_def)
  have "\<exists>late. invalid_frames as_int (br_read s) = error_frames (br_socket s) @ late \<and> length late \<le> 1"
    using ok(2) by (auto simp: errors_ok_def split: inbound_pc.splits pump_exit.splits)
  moreover have "prefix (update_frames (br_socket s)) (br_served s)"
    using ok(4) by (auto simp: updates_ok_def intro: prefixI [OF sym]
        split: outbound_pc.splits pump_exit.splits pump_error.splits)
  moreover have "\<forall>f \<in> set (butlast (br_read s)). \<not> final_frame as_int f"
    using ok(3) by (auto simp: frames_ok_def dest: in_set_butlastD split: if_splits)
  ultimately show ?thesis using ok(1) closed_done [OF assms] by (auto simp: commands_ok_def)
qed

text \<open>
  C23: the bridge comes to rest. From any reachable state its tasks take at most \<open>bridge_work\<close>
  steps. When they can take none, the socket is closed, or nothing that ends the session has
  arrived and everything that did arrive is dealt with: every frame read, every command
  forwarded, every invalid frame answered, every update sent. Once the client disconnects, the
  call ends or a pump fails, rest means closed.
\<close>

theorem bridge_ends:
  assumes "bridged as_int s" "(bridge_step as_int ^^ n) s s'"
  shows "n \<le> bridge_work s \<and> (blocked as_int s' \<longrightarrow> br_session s' = Closed
    \<or> \<not> ending as_int s \<and> br_frames s' = [] \<and> br_requested s' = commands as_int (br_read s')
      \<and> error_frames (br_socket s') = invalid_frames as_int (br_read s')
      \<and> update_frames (br_socket s') = br_served s')"
proof -
  have run: "bridged as_int s' \<and> (ending as_int s \<longrightarrow> ending as_int s')"
    using assms
  proof (induction n arbitrary: s')
    case (Suc n)
    then obtain t where "(bridge_step as_int ^^ n) s t" "bridge_step as_int t s'" by auto
    with Suc show ?case using bridged.own bridge_step_ending by blast
  qed simp
  have ok: "commands_ok as_int s'" "errors_ok as_int s'" "updates_ok s'"
    using bridged_ok run by (auto simp: bridge_ok_def)
  have "br_session s' = Closed \<or> \<not> ending as_int s \<and> br_frames s' = [] \<and> br_requested s' = commands as_int (br_read s')
      \<and> error_frames (br_socket s') = invalid_frames as_int (br_read s')
      \<and> update_frames (br_socket s') = br_served s'" if rest: "blocked as_int s'"
    using rest
  proof (cases rule: blocked_cases)
    case idle
    then have "\<not> ending as_int s'" by (simp add: ending_def in_done_def out_done_def)
    with idle ok run show ?thesis
      by (auto simp: commands_ok_def errors_ok_def updates_ok_def in_done_def)
  qed simp
  with bridge_run_work [OF assms(2)] show ?thesis by auto
qed

lemma as_ints_same: "(\<And>i. as_int (JInt i) = Some i) \<Longrightarrow> list_all (\<lambda>x. as_int x \<noteq> None) (map JInt ids)
    \<and> map (the \<circ> as_int) (map JInt ids) = ids"
  by (induction ids) simp_all

definition command_json :: "watch_command \<Rightarrow> json" where
  "command_json c = JObj [(cps ''action'', JStr (cps (case wc_action c of SUBSCRIBE \<Rightarrow> ''subscribe''
     | UNSUBSCRIBE \<Rightarrow> ''unsubscribe''))), (cps ''product_ids'', JArr (map JInt (wc_product_ids c)))]"

lemma command_json_printable: "list_all in_int64 (wc_product_ids c) \<Longrightarrow> printable (command_json c)"
  using str_int_fits by (auto simp: command_json_def list_all_iff in_int64_def)

lemma judge_command:
  assumes "list_all in_int64 (wc_product_ids c)" "\<And>i. as_int (JInt i) = Some i"
  shows "judge as_int (TextFrame (dumps (command_json c))) = Command c"
proof -
  have "validate_command as_int (command_json c) = Some (cps (case wc_action c of SUBSCRIBE \<Rightarrow> ''subscribe''
      | UNSUBSCRIBE \<Rightarrow> ''unsubscribe''), wc_product_ids c)"
    using as_ints_same [of as_int "wc_product_ids c"] assms(2)
    by (simp add: validate_command_def command_json_def member_of_def split: watch_action.split)
  with assms(1) show ?thesis
    by (cases c) (simp add: judge_def loads_dumps [OF command_json_printable] COMMAND_ACTIONS_def
        split: watch_action.split)
qed


lemma bridged_run:
  assumes "bridged as_int s" "(bridge_step as_int ^^ n) s s'"
  shows "bridged as_int s'"
  using assms(2)
proof (induction n arbitrary: s')
  case 0
  then show ?case using assms(1) by simp
next
  case (Suc n)
  then show ?case using bridged.own by auto
qed

lemma ending_run: "(bridge_step as_int ^^ n) s s' \<Longrightarrow> ending as_int s \<Longrightarrow> ending as_int s'"
  by (induction n arbitrary: s') (auto dest: bridge_step_ending)

text \<open>
  A command survives its way to the servicer. The frame that carries the JSON of a command
  with ids of the range of the message field is read as exactly that command, whatever else the
  coercion of pydantic accepts as an integer.
\<close>

theorem command_frame_roundtrip:
  assumes "list_all in_int64 (wc_product_ids c)" "\<And>i. as_int (JInt i) = Some i"
    and "bridged as_int s" "br_session s = Waiting" "br_inbound s = Reading"
    and "br_frames s = TextFrame (dumps (command_json c)) # fs"
  shows "\<exists>s'. bridge_step as_int s s' \<and> br_frames s' = fs \<and> br_queue s' = br_queue s @ [Some c]
    \<and> commands as_int (br_read s') = commands as_int (br_read s) @ [c]"
  using bridge_step.inbound [OF inbound_step.read [OF assms(4-6), of as_int]]
    judge_command [where as_int = as_int, OF assms(1,2)]
  by (intro exI conjI) (assumption, simp_all add: receive_json_def)

text \<open>What happens to a session whose next frame is fatal.\<close>

definition fatal_next ::
  "ws_frame \<Rightarrow> ws_frame list \<Rightarrow> pump_error \<Rightarrow> json list \<Rightarrow> bridge \<Rightarrow> bool" where
  "fatal_next f fs e errs s \<longleftrightarrow> error_frames (br_socket s) = errs \<and>
     (br_inbound s = Reading \<and> br_frames s = f # fs
      \<or> br_inbound s = InDone (Raised e) \<and> br_frames s = fs
      \<or> br_inbound s = InDone Cancelled \<and> br_frames s = f # fs)"

lemma bridge_step_fatal_next:
  assumes "judge as_int f = Fatal e" "bridge_step as_int s s'" "fatal_next f fs e errs s"
  shows "fatal_next f fs e errs s'"
  using assms(2,3,1)
proof (induction rule: bridge_step.induct)
  case (inbound s s')
  then show ?case by cases (auto simp: fatal_next_def receive_json_def)
next
  case (request s s')
  then show ?case by cases (auto simp: fatal_next_def)
next
  case (outbound s s')
  then show ?case by cases (auto simp: fatal_next_def)
next
  case (session s s')
  then show ?case by cases (auto simp: fatal_next_def)
qed

text \<open>
  C24: a frame that is not JSON, or whose ids do not fit the message field, ends the session. It
  is neither answered nor skipped, although the pump is documented to report every malformed
  frame and to go on: from a state that is about to read such a frame, every run of the bridge
  comes to rest with the socket closed, without an answer to the frame and with the frames
  behind it unread.
\<close>

theorem malformed_frame_ends_session:
  assumes "bridged as_int s" "br_session s = Waiting" "br_inbound s = Reading" "br_frames s = f # fs"
    and "judge as_int f = Fatal e" "(bridge_step as_int ^^ n) s s'" "blocked as_int s'"
  shows "br_session s' = Closed \<and> br_frames s' \<in> {fs, f # fs}
    \<and> error_frames (br_socket s') = error_frames (br_socket s)"
proof -
  have "fatal_next f fs e (error_frames (br_socket s)) s'"
    using assms(6)
  proof (induction n arbitrary: s')
    case 0
    then show ?case using assms(3,4) by (simp add: fatal_next_def)
  next
    case (Suc n)
    then show ?case using bridge_step_fatal_next [OF assms(5)] by auto
  qed
  moreover have "ending as_int s'"
    using ending_run [OF assms(6)] assms(4,5) by (simp add: ending_def final_frame_def)
  moreover from assms(7) have "br_session s' = Closed \<or> \<not> ending as_int s'"
    by (cases rule: blocked_cases) (simp_all add: ending_def in_done_def out_done_def)
  ultimately show ?thesis by (auto simp: fatal_next_def)
qed


section \<open>Witnesses\<close>

lemma bridge_rests: "\<exists>n s'. (bridge_step as_int ^^ n) s s' \<and> blocked as_int s'"
proof (induction "bridge_work s" arbitrary: s rule: less_induct)
  case less
  show ?case
  proof (cases "blocked as_int s")
    case True
    then show ?thesis by (intro exI [of _ 0] exI [of _ s]) simp
  next
    case False
    then obtain t where t: "bridge_step as_int s t" by (auto simp: blocked_def)
    with less [OF bridge_step_work] obtain n s' where "(bridge_step as_int ^^ n) t s'" "blocked as_int s'"
      by blast
    with t show ?thesis by (intro exI [of _ "Suc n"] exI [of _ s'] conjI relpowp_Suc_I2)
  qed
qed

fun strict_int :: "json \<Rightarrow> int option" where
  "strict_int (JInt i) = Some i"
| "strict_int _ = None"

definition demo_command :: watch_command where
  "demo_command = \<lparr>wc_action = SUBSCRIBE, wc_product_ids = [3, 1]\<rparr>"

definition demo_frame :: ws_frame where
  "demo_frame = TextFrame (dumps (command_json demo_command))"

definition demo_bridge :: "ws_frame list \<Rightarrow> bridge" where
  "demo_bridge fs = bridge_start\<lparr>br_frames := fs\<rparr>"

lemma demo_bridge_sel [simp]:
  "br_session (demo_bridge fs) = Waiting" "br_inbound (demo_bridge fs) = Reading"
  "br_frames (demo_bridge fs) = fs" "br_socket (demo_bridge fs) = []" "br_read (demo_bridge fs) = []"
  "br_queue (demo_bridge fs) = []"
  by (simp_all add: demo_bridge_def bridge_start_def)

lemma demo_bridged: "bridged as_int (demo_bridge fs)"
proof (induction fs rule: rev_induct)
  case Nil
  then show ?case using bridged.start by (simp add: demo_bridge_def bridge_start_def)
next
  case (snoc f fs)
  from bridged.outside [OF this bridge_outside.frame [of _ f]] show ?case by (simp add: demo_bridge_def)
qed

lemma demo_judge: "judge strict_int demo_frame = Command demo_command"
  unfolding demo_frame_def by (rule judge_command) (simp_all add: demo_command_def in_int64_def)

theorem bridge_state_witness:
  "\<exists>s. bridged strict_int s \<and> br_read s = [demo_frame]
    \<and> (\<exists>queued. [demo_command] = br_requested s @ queued \<and> (br_request_closed s \<longrightarrow> queued = [] \<and> in_done s))"
proof -
  let ?s = "receive_json strict_int demo_frame
      ((demo_bridge [demo_frame])\<lparr>br_frames := [], br_read := br_read (demo_bridge [demo_frame]) @ [demo_frame]\<rparr>)"
  have "bridge_step strict_int (demo_bridge [demo_frame]) ?s"
    by (intro bridge_step.inbound inbound_step.read) simp_all
  then have "bridged strict_int ?s" by (rule bridged.own [OF demo_bridged])
  from this bridge_state [OF this] show ?thesis
    by (intro exI [of _ ?s]) (simp add: demo_judge)
qed

theorem bridge_ends_witness:
  "\<exists>n s'. (bridge_step strict_int ^^ n) (demo_bridge [demo_frame, WsDisconnect]) s'
    \<and> br_session s' = Closed \<and> n \<le> 13"
proof -
  let ?s = "demo_bridge [demo_frame, WsDisconnect]"
  obtain n s' where run: "(bridge_step strict_int ^^ n) ?s s'" "blocked strict_int s'"
    using bridge_rests by blast
  have "ending strict_int ?s" by (simp add: ending_def final_frame_def judge_def)
  moreover have "bridge_work ?s = 13" by (simp add: bridge_work_def demo_bridge_def bridge_start_def)
  ultimately show ?thesis using bridge_ends [OF demo_bridged run(1)] run by auto
qed

theorem command_frame_roundtrip_witness:
  "\<exists>s'. bridge_step strict_int (demo_bridge [demo_frame]) s' \<and> br_queue s' = [Some demo_command]"
  using command_frame_roundtrip [where c = demo_command and as_int = strict_int and fs = "[]",
      OF _ _ demo_bridged [of _ "[demo_frame]"]]
  by (auto simp: demo_frame_def demo_command_def in_int64_def)

theorem malformed_frame_ends_session_witness:
  "\<exists>n s'. (bridge_step strict_int ^^ n) (demo_bridge [TextFrame (cps ''?''), demo_frame]) s'
    \<and> br_session s' = Closed \<and> br_frames s' \<noteq> [] \<and> error_frames (br_socket s') = []"
proof -
  let ?s = "demo_bridge [TextFrame (cps ''?''), demo_frame]"
  have "loads (cps ''?'') = None"
    by (simp add: loads_def scan.simps(2) skip_ws_def starts_def scan_number_def split_sign_def int_part_def
        is_digit_def numeral_3_eq_3 Let_def scan_frac_def scan_exp_def)
  then have "judge strict_int (TextFrame (cps ''?'')) = Fatal JSONDecodeError" by (simp add: judge_def)
  moreover obtain n s' where run: "(bridge_step strict_int ^^ n) ?s s'" "blocked strict_int s'"
    using bridge_rests by blast
  ultimately show ?thesis
    using malformed_frame_ends_session [OF demo_bridged [of strict_int "[TextFrame (cps ''?''), demo_frame]"]]
    by fastforce
qed

end
