(* ===== verification/StockNotifications.thy ===== *)
theory StockNotifications
  imports InventoryLedger Json
begin

text \<open>
  How a change of stock reaches a watcher: the trigger of migration 0003 sends a JSON payload
  for every committed change, and \<^verbatim>\<open>grpc_server/notifications.py\<close> turns the payload back into a
  product id. The contract of a store that announces its changes is stated as a locale and
  discharged for the inventory database and the operations of the service layer.
\<close>

section \<open>A store that announces its changes\<close>

text \<open>
  Every operation appends to a log; whatever value it changes is named in what it appends, and
  everything it appends is a legitimate entry. Which entries are legitimate never changes.
\<close>

definition announces ::
  "('s \<Rightarrow> 'k \<Rightarrow> 'v) \<Rightarrow> ('s \<Rightarrow> 'k \<times> 'n \<Rightarrow> bool) \<Rightarrow> ('s \<Rightarrow> ('k \<times> 'n) list) \<Rightarrow> 's \<Rightarrow> 's \<Rightarrow> bool" where
  "announces val legit log s s' \<longleftrightarrow>
     (\<exists>ns. log s' = log s @ ns \<and> (\<forall>k. val s' k \<noteq> val s k \<longrightarrow> k \<in> fst ` set ns)
        \<and> (\<forall>n \<in> set ns. legit s n)) \<and> legit s' = legit s"

lemma announces_refl [simp]: "announces val legit log s s"
  by (simp add: announces_def)

lemma announces_trans:
  assumes "announces val legit log s t" "announces val legit log t u"
  shows "announces val legit log s u"
proof -
  obtain ns ms where "log t = log s @ ns" "log u = log t @ ms"
      "\<forall>k. val t k \<noteq> val s k \<longrightarrow> k \<in> fst ` set ns" "\<forall>k. val u k \<noteq> val t k \<longrightarrow> k \<in> fst ` set ms"
      "\<forall>n \<in> set ns. legit s n" "\<forall>n \<in> set ms. legit s n" "legit u = legit s"
    using assms unfolding announces_def by metis
  then show ?thesis
    unfolding announces_def by (intro conjI exI [of _ "ns @ ms"]) (simp_all add: image_Un ball_Un, metis)
qed

locale announcing_store =
  fixes step :: "'op \<Rightarrow> 's \<Rightarrow> 'out \<times> 's"
    and val :: "'s \<Rightarrow> 'k \<Rightarrow> 'v"
    and legit :: "'s \<Rightarrow> 'k \<times> 'n \<Rightarrow> bool"
    and log :: "'s \<Rightarrow> ('k \<times> 'n) list"
  assumes step_announces: "announces val legit log s (snd (step x s))"
begin

lemma log_grows: "\<exists>ns. log (snd (step x s)) = log s @ ns"
  using step_announces [of s x] unfolding announces_def by blast

lemma legit_step [simp]: "legit (snd (step x s)) = legit s"
  using step_announces [of s x] unfolding announces_def by blast

lemma log_legit: "\<forall>n \<in> set (log s). legit s n \<Longrightarrow> \<forall>n \<in> set (log (snd (step x s))). legit s n"
  using step_announces [of s x] unfolding announces_def by auto

text \<open>What a reader of the log that has come to \<open>pos\<close> still has to read.\<close>

lemma unread_grows:
  assumes "pos \<le> length (log s)" "k \<in> fst ` set (drop pos (log s))"
  shows "k \<in> fst ` set (drop pos (log (snd (step x s))))"
  using log_grows [of x s] assms by auto

lemma changed_unread:
  assumes "pos \<le> length (log s)" "val (snd (step x s)) k \<noteq> val s k"
  shows "k \<in> fst ` set (drop pos (log (snd (step x s))))"
  using step_announces [of s x] assms unfolding announces_def by (metis UnI2 drop_append image_Un
      diff_is_0_eq drop_0 set_append)

lemma run_announces: "announces val legit log s (snd (run_ops step xs s))"
  by (induction xs arbitrary: s)
    (auto simp: split_def Let_def intro: announces_trans [OF step_announces])

end

section \<open>The inventory announces its changes\<close>

definition proper_notice :: "inventory_db \<Rightarrow> int \<times> int \<Rightarrow> bool" where
  "proper_notice db n \<longleftrightarrow> known db (fst n) \<and> 0 \<le> snd n \<and> snd n \<le> max_int4"

abbreviation announced :: "inventory_db \<Rightarrow> inventory_db \<Rightarrow> bool" where
  "announced \<equiv> announces (\<lambda>db pid. product_get pid db) proper_notice notified"

lemma same_ids_proper_notice:
  "map p_id (products db') = map p_id (products db) \<Longrightarrow> proper_notice db' = proper_notice db"
proof -
  assume ids: "map p_id (products db') = map p_id (products db)"
  then have "known db' = known db" by (intro ext) (metis known_iff list.set_map)
  then show ?thesis by (simp add: proper_notice_def fun_eq_iff)
qed

lemma update_available_announced:
  assumes "update_available f pk db = Inr db'"
  shows "announced db db'"
proof (cases "product_get pk db")
  case None
  then show ?thesis using assms by (simp add: update_available_def)
next
  case (Some p)
  note facts = update_available_Inr [OF assms Some]
  have "product_get pid db' = product_get pid db"
    if "pid \<noteq> pk \<or> f (p_available p) = p_available p" for pid
  proof -
    have "product_get pid db' = map_option (\<lambda>q. if pid = pk then q\<lparr>p_available := f (p_available p)\<rparr> else q)
        (product_get pid db)"
      by (simp add: product_get_def facts(3) find_write_available)
    then show ?thesis using that Some by (cases "pid = pk") (auto simp: option.map_id0 [unfolded id_def])
  qed
  moreover have "proper_notice db' = proper_notice db"
    by (rule same_ids_proper_notice) (simp add: facts(3))
  moreover have "proper_notice db (pk, f (p_available p))"
    using facts(1,2) Some by (simp add: proper_notice_def known_def)
  ultimately show ?thesis
    by (cases "f (p_available p) = p_available p")
      (auto simp: announces_def facts(6) notify_stock_change_def)
qed

lemma same_products_announced:
  assumes "products db' = products db" "notified db' = notified db"
  shows "announced db db'"
  using assms same_ids_proper_notice [of db' db] by (simp add: announces_def product_get_def)

lemma take_stock_announced:
  assumes "and_then (update_available f pk db)
      (\<lambda>db1. and_then (reservation_create clk pid order_ref key n st db1)
        (\<lambda>db2. Inr (t\<lparr>rs_db := db2, rs_outcomes := outs\<rparr>))) = Inr t'"
  shows "announced db (rs_db t')"
proof -
  obtain db1 where db1: "update_available f pk db = Inr db1"
      "reservation_create clk pid order_ref key n st db1 = Inr (rs_db t')"
    using assms by (auto simp: and_then_Inr_iff)
  have "announced db1 (rs_db t')"
    by (rule same_products_announced) (use reservation_create_Inr [OF db1(2)] in simp_all)
  with update_available_announced [OF db1(1)] show ?thesis by (rule announces_trans)
qed

lemma reserve_line_announced:
  assumes "reserve_line clk order_ref key item t = Inr t'"
  shows "announced (rs_db t) (rs_db t')"
proof (cases "\<exists>reason. t' = refuse_line item reason t")
  case True
  then show ?thesis by (auto simp: refuse_line_def)
next
  case False
  then show ?thesis
    using assms by (auto simp: reserve_line_def split: if_splits option.splits intro: take_stock_announced)
qed

lemma reserve_lines_announced:
  "reserve_lines clk order_ref key items t = Inr t' \<Longrightarrow> announced (rs_db t) (rs_db t')"
  by (induction items arbitrary: t)
    (auto simp: and_then_Inr_iff intro: announces_trans reserve_line_announced)

lemma reserve_stock_announced:
  "announced db (snd (reserve_stock clk order_ref items key db))"
  using reserve_lines_announced [of clk order_ref key "sort_key ri_product items"
      "\<lparr>rs_db = db, rs_outcomes = [], rs_all_ok = True\<rparr>"]
  by (auto simp: reserve_stock_def Let_def split: sum.splits db_error.splits)

lemma release_lines_announced: "release_lines rs db = Inr db' \<Longrightarrow> announced db db'"
proof (induction rs arbitrary: db)
  case (Cons r rs)
  then obtain db1 where db1: "update_available (\<lambda>a. a + r_quantity r) (r_product r) db = Inr db1"
      "release_lines rs (set_reservation_status (r_id r) RELEASED db1) = Inr db'"
    by (auto simp: release_line_def and_then_Inr_iff)
  have "announced db1 (set_reservation_status (r_id r) RELEASED db1)"
    by (rule same_products_announced) simp_all
  with update_available_announced [OF db1(1)] Cons.IH [OF db1(2)] show ?case
    by (meson announces_trans)
qed simp

lemma release_stock_announced: "announced db (snd (release_stock order_ref db))"
  by (auto simp: release_stock_def Let_def dest: release_lines_announced split: sum.splits)

interpretation store: announcing_store "inventory_step clk" "\<lambda>db pid. product_get pid db"
  proper_notice notified for clk
proof
  fix s x
  show "announced s (snd (inventory_step clk x s))"
    using reserve_stock_announced [of s clk] release_stock_announced [of s]
    by (cases x) (auto simp: split_def split: sum.splits prod.splits) 
qed

section \<open>Payloads\<close>

text \<open>The text of \<^verbatim>\<open>json_build_object('product_id', .., 'available_quantity', ..)\<close>.\<close>

definition stock_payload :: "int \<times> int \<Rightarrow> code_points" where
  "stock_payload n =
     cps (''{\"product_id\" : '' @ str_int (fst n) @ '', \"available_quantity\" : '' @ str_int (snd n) @ ''}'')"

text \<open>
  The exceptions of \<^verbatim>\<open>int(json.loads(payload)["product_id"])\<close>. What \<^verbatim>\<open>int\<close> makes of a decimal
  float literal and of a text is left to the interpreter: \<open>num\<close>.
\<close>

datatype py_error = ValueError | KeyError | TypeError | OverflowError

record py_numbers =
  int_of_float :: "code_points \<Rightarrow> py_error + int"
  int_of_text :: "code_points \<Rightarrow> py_error + int"

definition subscript :: "json \<Rightarrow> code_points \<Rightarrow> py_error + json" where
  "subscript v k =
     (case v of
        JObj ms \<Rightarrow> (case member_of k ms of None \<Rightarrow> Inl KeyError | Some x \<Rightarrow> Inr x)
      | _ \<Rightarrow> Inl TypeError)"

definition to_int :: "py_numbers \<Rightarrow> json \<Rightarrow> py_error + int" where
  "to_int num v =
     (case v of
        JInt i \<Rightarrow> Inr i
      | JBool b \<Rightarrow> Inr (if b then 1 else 0)
      | JFloat l \<Rightarrow>
          if l = cps ''NaN'' then Inl ValueError
          else if l = cps ''Infinity'' \<or> l = cps ''-Infinity'' then Inl OverflowError
          else int_of_float num l
      | JStr t \<Rightarrow> int_of_text num t
      | _ \<Rightarrow> Inl TypeError)"

definition parse_product_id :: "py_numbers \<Rightarrow> code_points \<Rightarrow> py_error + int option" where
  "parse_product_id num payload =
     (case and_then (case loads payload of None \<Rightarrow> Inl ValueError | Some v \<Rightarrow> Inr v)
             (\<lambda>v. and_then (subscript v (cps ''product_id'')) (to_int num)) of
        Inr i \<Rightarrow> Inr (Some i)
      | Inl e \<Rightarrow> if e \<in> {ValueError, KeyError, TypeError} then Inr None else Inl e)"

lemma scan_string_payload:
  "scan_string (cps (''product_id\"'') @ r) = Some (cps ''product_id'', r)"
  "scan_string (cps (''available_quantity\"'') @ r) = Some (cps ''available_quantity'', r)"
  by (simp_all add: consing_def)

lemma skip_ws_str_int: "skip_ws (cps (str_int i) @ r) = cps (str_int i) @ r"
proof -
  obtain c s where cs: "str_nat (nat \<bar>i\<bar>) = c # s" by (cases "str_nat (nat \<bar>i\<bar>)") simp_all
  then show ?thesis using str_nat_no_sign [OF cs] by (auto simp: skip_ws_def str_int_def)
qed

lemma loads_stock_payload:
  assumes "length (str_int pid) \<le> 4300" "length (str_int q) \<le> 4300"
  shows "loads (stock_payload (pid, q)) =
    Some (JObj [(cps ''product_id'', JInt pid), (cps ''available_quantity'', JInt q)])"
proof -
  define r2 where "r2 = cps ''\"available_quantity\" : '' @ cps (str_int q) @ [125]"
  define r1 where "r1 = cps ''\"product_id\" : '' @ cps (str_int pid) @ [44, 32] @ r2"
  have payload: "stock_payload (pid, q) = 123 # r1"
    by (simp add: stock_payload_def r1_def r2_def)
  define k where "k = 2 * length (stock_payload (pid, q)) - 4"
  have fuel: "2 * length (stock_payload (pid, q)) + 1 = Suc (Suc (Suc (Suc (Suc k))))"
    by (simp add: k_def stock_payload_def)
  have q: "scan_members (Suc (Suc (Suc k))) r2 = Some ([(cps ''available_quantity'', JInt q)], [])"
    using scan_str_int [of "[125]" q "Suc k"] assms(2) skip_ws_str_int [of q "[125]"]
      scan_string_payload(2) [of "cps '' : '' @ cps (str_int q) @ [125]"]
    by (simp add: scan_members.simps(2) r2_def skip_ws_def ends_number_def is_digit_def
        del: scan_string.simps)
  have "scan_members (Suc (Suc (Suc (Suc k)))) r1 =
      Some ([(cps ''product_id'', JInt pid), (cps ''available_quantity'', JInt q)], [])"
    using scan_str_int [of "[44, 32] @ r2" pid "Suc (Suc k)"] assms(1) q
      skip_ws_str_int [of pid "[44, 32] @ r2"]
      scan_string_payload(1) [of "cps '' : '' @ cps (str_int pid) @ [44, 32] @ r2"]
    by (simp add: scan_members.simps(2) r1_def skip_ws_def r2_def ends_number_def is_digit_def consing_def
        del: scan_string.simps)
  then have "scan (Suc (Suc (Suc (Suc (Suc k))))) (123 # r1) =
      Some (JObj [(cps ''product_id'', JInt pid), (cps ''available_quantity'', JInt q)], [])"
    by (simp add: scan.simps(2) r1_def skip_ws_def)
  then show ?thesis
    unfolding loads_def fuel by (simp add: payload skip_ws_def)
qed

lemma parse_stock_payload:
  assumes "length (str_int pid) \<le> 4300" "length (str_int q) \<le> 4300"
  shows "parse_product_id num (stock_payload (pid, q)) = Inr (Some pid)"
  by (simp add: parse_product_id_def loads_stock_payload [OF assms] subscript_def member_of_def to_int_def)

section \<open>Properties\<close>

text \<open>
  The notification survives its way through JSON. For every product id and quantity in the
  range of a PostgreSQL bigint, the listener reads back from the payload text of the trigger
  exactly the id that changed; it never skips the notification and never raises.
\<close>

theorem notify_payload_roundtrip:
  assumes "- (2 ^ 63) \<le> pid" "pid < 2 ^ 63" "- (2 ^ 63) \<le> q" "q < 2 ^ 63"
  shows "parse_product_id num (stock_payload (pid, q)) = Inr (Some pid)"
  using assms by (intro parse_stock_payload str_int_fits)

definition demo_numbers :: py_numbers where
  "demo_numbers = \<lparr>int_of_float = (\<lambda>_. Inl ValueError), int_of_text = (\<lambda>_. Inl ValueError)\<rparr>"

theorem notify_payload_roundtrip_witness:
  "parse_product_id demo_numbers (stock_payload (41, 7)) = Inr (Some 41)"
  by (rule notify_payload_roundtrip) simp_all

text \<open>
  A payload can stop the listener. The parser catches \<^verbatim>\<open>ValueError\<close>, \<^verbatim>\<open>KeyError\<close> and
  \<^verbatim>\<open>TypeError\<close>, but Python's \<^verbatim>\<open>json\<close> accepts the literal \<open>Infinity\<close>, whose conversion by
  \<^verbatim>\<open>int\<close> raises \<^verbatim>\<open>OverflowError\<close>: such a payload is not reported as malformed.
\<close>

theorem parse_product_id_overflow:
  "parse_product_id num (cps ''{\"product_id\": Infinity}'') = Inl OverflowError"
  by (simp add: parse_product_id_def loads_def scan_unfold skip_ws_def subscript_def member_of_def
      starts_def to_int_def consing_def eval_nat_numeral)

end
