(* ===== verification/StockWatch.thy ===== *)
theory StockWatch
  imports StockNotifications StockQueries GrpcMessages
begin

text \<open>
  The bidirectional \<^verbatim>\<open>WatchStock\<close> of \<^verbatim>\<open>grpc_server/servicer.py\<close>: the reader thread, the
  listener thread with the loop of \<^verbatim>\<open>listen_stock_changes\<close>, and the generator that drains the
  queue. Each thread has a program counter; a step of the system is one step of one thread, of
  the inventory's other clients, or of the RPC's peer. What happens under the lock is one step,
  and so is one statement of the database.
\<close>

section \<open>State\<close>

datatype marker = SnapshotMarker | ResyncMarker | ChangedMarker int

datatype reader_pc = Reading | ReaderDone

text \<open>
  The listener: before a connection is up; connected, about to report the resync; in
  \<^verbatim>\<open>conn.notifies\<close>; with an event for a product; with one that is being watched. The number is
  the position in the channel up to which the connection has read.
\<close>

datatype listener_pc =
    Connecting
  | Resyncing nat
  | Receiving nat
  | Changed nat int
  | Queueing nat int
  | ListenerDone

text \<open>
  The generator: at the loop's test; in \<^verbatim>\<open>events.get\<close>; with a marker; in \<^verbatim>\<open>_updates\<close> before
  \<^verbatim>\<open>_rows\<close> takes the lock; before the query; with rows left to yield; returned. The flag is
  the argument \<^verbatim>\<open>snapshot\<close>.
\<close>

datatype generator_pc =
    LoopHead
  | Getting
  | Dispatching marker
  | Rows "int set" bool
  | Fetching "int set" bool
  | Yielding "product_stock_row list" bool
  | Returned

record watch_state =
  database :: inventory_db
  rpc_active :: bool
  stop :: bool
  received :: "watch_command list"
  watch_set :: "int set"
  newly_added :: "int set"
  last_seen :: "int \<Rightarrow> int option"
  events :: "marker list"
  reader :: reader_pc
  listener :: listener_pc
  generator :: generator_pc
  sent :: "stock_update list"

definition watch_start :: "inventory_db \<Rightarrow> watch_state" where
  "watch_start db = \<lparr>database = db, rpc_active = True, stop = False, received = [], watch_set = {},
     newly_added = {}, last_seen = (\<lambda>_. None), events = [], reader = Reading,
     listener = Connecting, generator = LoopHead, sent = []\<rparr>"

section \<open>The reader thread\<close>

definition drain_command :: "watch_command \<Rightarrow> watch_state \<Rightarrow> watch_state" where
  "drain_command command s =
     (let ids = set (wc_product_ids command) in
      if wc_action command = SUBSCRIBE then
        s\<lparr>received := received s @ [command],
          watch_set := watch_set s \<union> ids, newly_added := newly_added s \<union> ids,
          events := events s @ [SnapshotMarker]\<rparr>
      else
        s\<lparr>received := received s @ [command],
          watch_set := watch_set s - ids, newly_added := newly_added s - ids\<rparr>)"

text \<open>The stream of requests may also end with an error; that is logged and ends the watch too.\<close>

inductive reader_step :: "watch_state \<Rightarrow> watch_state \<Rightarrow> bool" where
  Receive: "reader s = Reading \<Longrightarrow> reader_step s (drain_command command s)"
| RequestsEnd: "reader s = Reading \<Longrightarrow> reader_step s (s\<lparr>reader := ReaderDone, stop := True\<rparr>)"

section \<open>The listener thread\<close>

text \<open>One notification of the connection: an exception of the parser ends the watch.\<close>

definition take_notification :: "py_numbers \<Rightarrow> nat \<Rightarrow> watch_state \<Rightarrow> watch_state" where
  "take_notification num pos s =
     (case parse_product_id num (stock_payload (notified (database s) ! pos)) of
        Inl _ \<Rightarrow> s\<lparr>listener := ListenerDone, stop := True\<rparr>
      | Inr None \<Rightarrow> s\<lparr>listener := Receiving (Suc pos)\<rparr>
      | Inr (Some pid) \<Rightarrow> s\<lparr>listener := Changed (Suc pos) pid\<rparr>)"

text \<open>
  \<^verbatim>\<open>listen_stock_changes\<close>. A \<^verbatim>\<open>psycopg.Error\<close> while connected leads back to the outer loop; one
  while connecting leaves the loop where it is.
\<close>

inductive listen_step :: "py_numbers \<Rightarrow> watch_state \<Rightarrow> watch_state \<Rightarrow> bool" for num where
  Listen: "listener s = Connecting \<Longrightarrow> \<not> stop s \<Longrightarrow>
    listen_step num s (s\<lparr>listener := Resyncing (length (notified (database s)))\<rparr>)"
| Notified: "listener s = Receiving pos \<Longrightarrow> \<not> stop s \<Longrightarrow> pos < length (notified (database s)) \<Longrightarrow>
    listen_step num s (take_notification num pos s)"
| ConnectionLost: "listener s = Receiving pos \<Longrightarrow> listen_step num s (s\<lparr>listener := Connecting\<rparr>)"
| ListenerStops: "listener s = Connecting \<or> listener s = Receiving pos \<Longrightarrow> stop s \<Longrightarrow>
    listen_step num s (s\<lparr>listener := ListenerDone\<rparr>)"

text \<open>\<^verbatim>\<open>_drain_notifications\<close>, with an event that \<^verbatim>\<open>listen_stock_changes\<close> has yielded.\<close>

inductive drain_step :: "watch_state \<Rightarrow> watch_state \<Rightarrow> bool" where
  Resynced: "listener s = Resyncing pos \<Longrightarrow>
    drain_step s (s\<lparr>listener := Receiving pos, events := events s @ [ResyncMarker]\<rparr>)"
| CheckWatched: "listener s = Changed pos pid \<Longrightarrow>
    drain_step s (s\<lparr>listener := if pid \<in> watch_set s then Queueing pos pid else Receiving pos\<rparr>)"
| QueueChanged: "listener s = Queueing pos pid \<Longrightarrow>
    drain_step s (s\<lparr>listener := Receiving pos, events := events s @ [ChangedMarker pid]\<rparr>)"

definition listener_step :: "py_numbers \<Rightarrow> watch_state \<Rightarrow> watch_state \<Rightarrow> bool" where
  "listener_step num s s' \<longleftrightarrow> listen_step num s s' \<or> drain_step s s'"

lemma listener_stepI [intro]:
  "listen_step num s s' \<Longrightarrow> listener_step num s s'" "drain_step s s' \<Longrightarrow> listener_step num s s'"
  by (simp_all add: listener_step_def)

lemmas listener_step_cases = disjE [OF listener_step_def [THEN iffD1]]

section \<open>The generator\<close>

definition dispatch :: "marker \<Rightarrow> watch_state \<Rightarrow> watch_state" where
  "dispatch m s =
     (case m of
        SnapshotMarker \<Rightarrow> s\<lparr>generator := Rows (newly_added s) True, newly_added := {}\<rparr>
      | ChangedMarker pid \<Rightarrow> s\<lparr>generator := Rows {pid} False\<rparr>
      | ResyncMarker \<Rightarrow> s\<lparr>generator := Rows (watch_set s) False\<rparr>)"

definition update_of :: "product_stock_row \<Rightarrow> bool \<Rightarrow> stock_update" where
  "update_of row snapshot =
     \<lparr>su_product_id = sr_product row, su_sku = sr_sku row, su_name = sr_name row,
      su_available_quantity = sr_available row,
      su_kind = (if snapshot then SNAPSHOT else CHANGED)\<rparr>"

text \<open>The body of the loop of \<^verbatim>\<open>_updates\<close>.\<close>

definition yield_row :: "product_stock_row \<Rightarrow> bool \<Rightarrow> watch_state \<Rightarrow> watch_state" where
  "yield_row row snapshot s =
     (if \<not> snapshot \<and> last_seen s (sr_product row) = Some (sr_available row) then s
      else s\<lparr>last_seen := (last_seen s)(sr_product row \<mapsto> sr_available row),
             sent := sent s @ [update_of row snapshot]\<rparr>)"

text \<open>The \<^verbatim>\<open>finally\<close> of the generator.\<close>

definition close_watch :: "watch_state \<Rightarrow> watch_state" where
  "close_watch s = s\<lparr>generator := Returned, stop := True\<rparr>"

inductive generator_step :: "(string \<Rightarrow> 'k::linorder) \<Rightarrow> watch_state \<Rightarrow> watch_state \<Rightarrow> bool" for ck where
  Enter: "generator s = LoopHead \<Longrightarrow> rpc_active s \<Longrightarrow> \<not> stop s \<Longrightarrow>
    generator_step ck s (s\<lparr>generator := Getting\<rparr>)"
| Leave: "generator s = LoopHead \<Longrightarrow> \<not> rpc_active s \<or> stop s \<Longrightarrow> generator_step ck s (close_watch s)"
| GetEmpty: "generator s = Getting \<Longrightarrow> events s = [] \<Longrightarrow>
    generator_step ck s (s\<lparr>generator := LoopHead\<rparr>)"
| Get: "generator s = Getting \<Longrightarrow> events s = m # ms \<Longrightarrow>
    generator_step ck s (s\<lparr>generator := Dispatching m, events := ms\<rparr>)"
| Dispatch: "generator s = Dispatching m \<Longrightarrow> generator_step ck s (dispatch m s)"
| ReadWatchSet: "generator s = Rows ids b \<Longrightarrow>
    generator_step ck s (s\<lparr>generator := Fetching (watch_set s \<inter> ids) b\<rparr>)"
| Fetch: "generator s = Fetching ids b \<Longrightarrow>
    generator_step ck s
      (s\<lparr>generator := Yielding (fetch_stock ck (sorted_list_of_set ids) (database s)) b\<rparr>)"
| FetchFails: "generator s = Fetching ids b \<Longrightarrow> generator_step ck s (close_watch s)"
| Yield: "generator s = Yielding (row # rows) b \<Longrightarrow>
    generator_step ck s ((yield_row row b s)\<lparr>generator := Yielding rows b\<rparr>)"
| Yielded: "generator s = Yielding [] b \<Longrightarrow> generator_step ck s (s\<lparr>generator := LoopHead\<rparr>)"
| Abandon: "generator s = Yielding rows b \<Longrightarrow> \<not> rpc_active s \<Longrightarrow> generator_step ck s (close_watch s)"

section \<open>The surroundings and the system\<close>

text \<open>
  Any request of the inventory's write path may commit at any time; the client may cancel the
  call.
\<close>

inductive outside_step :: "(int \<Rightarrow> int) \<Rightarrow> watch_state \<Rightarrow> watch_state \<Rightarrow> bool" for clk where
  Write: "outside_step clk s (s\<lparr>database := snd (inventory_step clk x (database s))\<rparr>)"
| Cancel: "outside_step clk s (s\<lparr>rpc_active := False\<rparr>)"

definition watch_step ::
  "(string \<Rightarrow> 'k::linorder) \<Rightarrow> py_numbers \<Rightarrow> (int \<Rightarrow> int) \<Rightarrow> watch_state \<Rightarrow> watch_state \<Rightarrow> bool" where
  "watch_step ck num clk s s' \<longleftrightarrow>
     reader_step s s' \<or> listener_step num s s' \<or> generator_step ck s s' \<or> outside_step clk s s'"

text \<open>
  The database that the watch starts on: its ids are those of a bigint column, and what its
  channel carries are notifications of the trigger.
\<close>

definition watchable :: "inventory_db \<Rightarrow> bool" where
  "watchable db \<longleftrightarrow> db_ok db \<and> (\<forall>p \<in> set (products db). - (2 ^ 63) \<le> p_id p \<and> p_id p < 2 ^ 63)
     \<and> (\<forall>n \<in> set (notified db). proper_notice db n)"

inductive watched ::
  "(string \<Rightarrow> 'k::linorder) \<Rightarrow> py_numbers \<Rightarrow> (int \<Rightarrow> int) \<Rightarrow> watch_state \<Rightarrow> bool" for ck num clk where
  start: "watchable db \<Longrightarrow> watched ck num clk (watch_start db)"
| step: "watched ck num clk s \<Longrightarrow> watch_step ck num clk s s' \<Longrightarrow> watched ck num clk s'"

section \<open>The shape of a reachable state\<close>

fun read_position :: "listener_pc \<Rightarrow> nat option" where
  "read_position (Resyncing pos) = Some pos"
| "read_position (Receiving pos) = Some pos"
| "read_position (Changed pos _) = Some pos"
| "read_position (Queueing pos _) = Some pos"
| "read_position Connecting = None"
| "read_position ListenerDone = None"

fun generator_ok :: "generator_pc \<Rightarrow> bool \<Rightarrow> bool" where
  "generator_ok (Rows ids _) st = finite ids"
| "generator_ok (Fetching ids _) st = finite ids"
| "generator_ok (Yielding rows _) st = distinct (map sr_product rows)"
| "generator_ok Returned st = st"
| "generator_ok _ st = True"

lemma generator_ok_stop: "generator_ok g st \<Longrightarrow> generator_ok g True"
  by (cases g) simp_all

definition watch_ok :: "watch_state \<Rightarrow> bool" where
  "watch_ok s \<longleftrightarrow>
     watchable (database s) \<and> finite (watch_set s) \<and> newly_added s \<subseteq> watch_set s
     \<and> generator_ok (generator s) (stop s)
     \<and> (\<forall>pos. read_position (listener s) = Some pos \<longrightarrow> pos \<le> length (notified (database s)))
     \<and> (listener s = ListenerDone \<longrightarrow> stop s) \<and> (reader s = ReaderDone \<longrightarrow> stop s)"

lemma watchable_db_ok: "watchable db \<Longrightarrow> db_ok db"
  by (simp add: watchable_def)

lemma watchable_step: "watchable db \<Longrightarrow> watchable (snd (inventory_step clk x db))"
proof -
  assume w: "watchable db"
  let ?db = "snd (inventory_step clk x db)"
  have "known ?db pid = known db pid" for pid
    using store.legit_step [of clk x db, THEN fun_cong, of "(pid, 0)"]
    by (simp add: proper_notice_def max_int4_def del: store.legit_step)
  then have "p_id ` set (products ?db) = p_id ` set (products db)" by (auto simp: known_iff)
  moreover have "db_ok ?db" using w by (intro write_path.inv_step) (simp add: watchable_def)
  moreover have "\<forall>n \<in> set (notified ?db). proper_notice ?db n"
    using w store.log_legit [of db clk x] by (simp add: watchable_def)
  ultimately show ?thesis using w unfolding watchable_def by (metis (no_types, lifting) image_iff)
qed

lemma parse_notified:
  assumes "watchable db" "pos < length (notified db)"
  shows "parse_product_id num (stock_payload (notified db ! pos)) = Inr (Some (fst (notified db ! pos)))"
proof -
  obtain pid q where n: "notified db ! pos = (pid, q)" by fastforce
  with assms have "known db pid" "0 \<le> q" "q \<le> max_int4"
    by (force simp: watchable_def proper_notice_def dest: nth_mem)+
  with assms(1) have "- (2 ^ 63) \<le> pid" "pid < 2 ^ 63" "- (2 ^ 63) \<le> q" "q < 2 ^ 63"
    by (auto simp: watchable_def known_iff max_int4_def)
  then show ?thesis unfolding n by (simp add: parse_stock_payload str_int_fits)
qed

lemmas thread_defs = drain_command_def take_notification_def dispatch_def yield_row_def close_watch_def

lemma yield_row_frame [simp]:
  "database (yield_row row b s) = database s" "stop (yield_row row b s) = stop s"
  "watch_set (yield_row row b s) = watch_set s" "newly_added (yield_row row b s) = newly_added s"
  "events (yield_row row b s) = events s" "reader (yield_row row b s) = reader s"
  "listener (yield_row row b s) = listener s" "generator (yield_row row b s) = generator s"
  "received (yield_row row b s) = received s" "rpc_active (yield_row row b s) = rpc_active s"
  by (simp_all add: yield_row_def)

lemma reader_step_ok: "reader_step s s' \<Longrightarrow> watch_ok s \<Longrightarrow> watch_ok s'"
  by (erule reader_step.cases; auto simp: watch_ok_def drain_command_def Let_def generator_ok_stop)

lemma listener_step_ok: "listener_step num s s' \<Longrightarrow> watch_ok s \<Longrightarrow> watch_ok s'"
  by (elim listener_step_cases; erule listen_step.cases drain_step.cases;
      auto simp: watch_ok_def take_notification_def dest: generator_ok_stop split: sum.split option.split)

lemma generator_step_ok: "generator_step ck s s' \<Longrightarrow> watch_ok s \<Longrightarrow> watch_ok s'"
  by (erule generator_step.cases;
      auto simp: watch_ok_def dispatch_def close_watch_def fetch_stock_distinct watchable_db_ok
      intro: rev_finite_subset split: marker.split)

lemma outside_step_ok:
  assumes "outside_step clk s s'" "watch_ok s"
  shows "watch_ok s'"
  using assms(1)
proof (cases rule: outside_step.cases)
  case (Write x)
  have "watchable (database s')" using assms(2) watchable_step Write by (simp add: watch_ok_def)
  moreover have "length (notified (database s)) \<le> length (notified (database s'))"
    using store.log_grows [of clk x "database s"] Write by auto
  ultimately show ?thesis using assms(2) Write by (auto simp: watch_ok_def)
qed (use assms(2) in \<open>simp_all add: watch_ok_def\<close>)

lemma watch_start_ok: "watchable db \<Longrightarrow> watch_ok (watch_start db)"
  by (simp add: watch_ok_def watch_start_def)

lemma watched_ok: "watched ck num clk s \<Longrightarrow> watch_ok s"
  by (induction rule: watched.induct)
    (auto simp: watch_step_def watch_start_ok
      dest: reader_step_ok listener_step_ok generator_step_ok outside_step_ok)

section \<open>No change is lost\<close>

text \<open>
  \<open>shown s pid\<close> is the value that the client has, or is about to get from the rows that the
  generator has already fetched. \<open>owed s pid\<close> says that some thread will still make the generator
  read the product.
\<close>

fun announced_to :: "listener_pc \<Rightarrow> (int \<times> int) list \<Rightarrow> int \<Rightarrow> bool" where
  "announced_to Connecting ns pid = True"
| "announced_to (Resyncing _) ns pid = True"
| "announced_to (Receiving pos) ns pid = (pid \<in> fst ` set (drop pos ns))"
| "announced_to (Changed pos p) ns pid = (p = pid \<or> pid \<in> fst ` set (drop pos ns))"
| "announced_to (Queueing pos p) ns pid = (p = pid \<or> pid \<in> fst ` set (drop pos ns))"
| "announced_to ListenerDone ns pid = False"

fun busy_with :: "generator_pc \<Rightarrow> bool \<Rightarrow> int \<Rightarrow> bool" where
  "busy_with (Dispatching SnapshotMarker) new pid = new"
| "busy_with (Dispatching ResyncMarker) new pid = True"
| "busy_with (Dispatching (ChangedMarker p)) new pid = (p = pid)"
| "busy_with (Rows ids _) new pid = (pid \<in> ids)"
| "busy_with (Fetching ids _) new pid = (pid \<in> ids)"
| "busy_with _ new pid = False"

definition owed :: "watch_state \<Rightarrow> int \<Rightarrow> bool" where
  "owed s pid \<longleftrightarrow>
     busy_with (generator s) (pid \<in> newly_added s) pid
     \<or> ResyncMarker \<in> set (events s) \<or> ChangedMarker pid \<in> set (events s)
     \<or> pid \<in> newly_added s \<and> SnapshotMarker \<in> set (events s)
     \<or> announced_to (listener s) (notified (database s)) pid"

fun shown_by :: "generator_pc \<Rightarrow> (int \<Rightarrow> int option) \<Rightarrow> int \<Rightarrow> int option" where
  "shown_by (Yielding rows _) seen pid =
     (case find (\<lambda>r. sr_product r = pid) rows of Some r \<Rightarrow> Some (sr_available r) | None \<Rightarrow> seen pid)"
| "shown_by _ seen pid = seen pid"

abbreviation shown :: "watch_state \<Rightarrow> int \<Rightarrow> int option" where
  "shown s \<equiv> shown_by (generator s) (last_seen s)"

definition in_stock :: "watch_state \<Rightarrow> int \<Rightarrow> int option" where
  "in_stock s pid = map_option p_available (product_get pid (database s))"

definition fresh :: "watch_state \<Rightarrow> int \<Rightarrow> bool" where
  "fresh s pid \<longleftrightarrow> in_stock s pid \<noteq> None \<longrightarrow> shown s pid = in_stock s pid \<or> owed s pid"

definition nothing_lost :: "watch_state \<Rightarrow> bool" where
  "nothing_lost s \<longleftrightarrow> stop s \<or> (\<forall>pid \<in> watch_set s. fresh s pid)"

lemma find_fetch_stock:
  assumes "db_ok db"
  shows "find (\<lambda>r. sr_product r = pid) (fetch_stock ck ids db) =
    (if pid \<in> set ids then map_option to_row (product_get pid db) else None)"
proof (cases "find (\<lambda>r. sr_product r = pid) (fetch_stock ck ids db)")
  case (Some r)
  then have "r \<in> set (fetch_stock ck ids db)" "sr_product r = pid" by (auto simp: find_Some_iff)
  then show ?thesis using Some fetch_stock_member [OF assms] by auto
next
  case None
  then have none: "\<forall>r \<in> set (fetch_stock ck ids db). sr_product r \<noteq> pid" by (auto simp: find_None_iff)
  have "product_get pid db = None" if "pid \<in> set ids"
  proof (rule ccontr)
    assume "product_get pid db \<noteq> None"
    then obtain p where p: "product_get pid db = Some p" "p_id p = pid"
      by (auto dest: product_get_SomeD)
    then have "to_row p \<in> set (fetch_stock ck ids db)"
      using that by (simp add: fetch_stock_member [OF assms])
    with none p show False by auto
  qed
  with None show ?thesis by auto
qed

lemma nothing_lostI:
  "(\<And>pid. \<not> stop s' \<Longrightarrow> pid \<in> watch_set s' \<Longrightarrow> in_stock s' pid \<noteq> None
      \<Longrightarrow> shown s' pid = in_stock s' pid \<or> owed s' pid) \<Longrightarrow> nothing_lost s'"
  by (auto simp: nothing_lost_def fresh_def)

lemma nothing_lostD:
  "nothing_lost s \<Longrightarrow> \<not> stop s \<Longrightarrow> pid \<in> watch_set s \<Longrightarrow> in_stock s pid \<noteq> None
    \<Longrightarrow> shown s pid = in_stock s pid \<or> owed s pid"
  by (auto simp: nothing_lost_def fresh_def)

lemma busy_with_new: "busy_with g new pid \<Longrightarrow> busy_with g True pid"
  by (cases "(g, new, pid)" rule: busy_with.cases) simp_all

lemma reader_step_nothing_lost: "reader_step s s' \<Longrightarrow> nothing_lost s \<Longrightarrow> nothing_lost s'"
proof (induction rule: reader_step.induct)
  case (Receive s command)
  show ?case
  proof (rule nothing_lostI)
    fix pid assume new: "\<not> stop (drain_command command s)" "pid \<in> watch_set (drain_command command s)"
      "in_stock (drain_command command s) pid \<noteq> None"
    show "shown (drain_command command s) pid = in_stock (drain_command command s) pid
        \<or> owed (drain_command command s) pid"
    proof (cases "wc_action command = SUBSCRIBE \<and> pid \<in> set (wc_product_ids command)")
      case True
      then show ?thesis by (simp add: owed_def drain_command_def Let_def)
    next
      case False
      then show ?thesis
        using new nothing_lostD [OF Receive(2), of pid]
        by (auto simp: drain_command_def Let_def in_stock_def owed_def split: if_splits)
    qed
  qed
qed (simp add: nothing_lost_def)

lemma drain_step_nothing_lost: "drain_step s s' \<Longrightarrow> nothing_lost s \<Longrightarrow> nothing_lost s'"
  by (induction rule: drain_step.induct) (auto simp: nothing_lost_def fresh_def in_stock_def owed_def)

lemma listen_step_nothing_lost:
  "listen_step num s s' \<Longrightarrow> watch_ok s \<Longrightarrow> nothing_lost s \<Longrightarrow> nothing_lost s'"
proof (induction rule: listen_step.induct)
  case (Notified s pos)
  let ?ns = "notified (database s)"
  have "watchable (database s)" using Notified(4) by (simp add: watch_ok_def)
  then have parsed: "take_notification num pos s = s\<lparr>listener := Changed (Suc pos) (fst (?ns ! pos))\<rparr>"
    using parse_notified [OF _ Notified(3)] by (simp add: take_notification_def)
  have "drop pos ?ns = ?ns ! pos # drop (Suc pos) ?ns" using Notified(3) by (simp add: Cons_nth_drop_Suc)
  then show ?case
    using Notified(1,5) by (auto simp: parsed nothing_lost_def fresh_def in_stock_def owed_def)
qed (auto simp: nothing_lost_def fresh_def in_stock_def owed_def)

lemma generator_step_nothing_lost:
  "generator_step ck s s' \<Longrightarrow> watch_ok s \<Longrightarrow> nothing_lost s \<Longrightarrow> nothing_lost s'"
proof (induction rule: generator_step.induct)
  case (Dispatch s m)
  then show ?case
    by (cases m) (auto simp: nothing_lost_def fresh_def in_stock_def owed_def dispatch_def)
next
  case (Fetch s ids b)
  have ok: "db_ok (database s)" "finite ids" using Fetch(1,2) by (auto simp: watch_ok_def watchable_def)
  show ?case
    using Fetch(1,3)
    by (auto simp: nothing_lost_def fresh_def in_stock_def owed_def find_fetch_stock [OF ok(1)] ok(2)
        split: option.split)
next
  case (Yield s row rows b)
  then have "sr_product row \<notin> sr_product ` set rows" by (simp add: watch_ok_def)
  then have rows: "find (\<lambda>r. sr_product r = sr_product row) rows = None"
    by (metis (mono_tags, lifting) find_None_iff image_eqI)
  have "shown ((yield_row row b s)\<lparr>generator := Yielding rows b\<rparr>) pid = shown s pid" for pid
    using Yield(1) rows by (auto simp: yield_row_def split: option.split)
  then show ?case
    using Yield(1,3) by (auto simp: nothing_lost_def fresh_def in_stock_def owed_def)
qed (auto simp: nothing_lost_def fresh_def in_stock_def owed_def close_watch_def)

lemma outside_step_nothing_lost:
  assumes "outside_step clk s s'" "watch_ok s" "nothing_lost s"
  shows "nothing_lost s'"
  using assms(1)
proof (cases rule: outside_step.cases)
  case (Write x)
  let ?db = "snd (inventory_step clk x (database s))"
  have grows: "announced_to l (notified (database s)) pid \<Longrightarrow> announced_to l (notified ?db) pid"
    if "\<forall>pos. read_position l = Some pos \<longrightarrow> pos \<le> length (notified (database s))" for l pid
    using that store.unread_grows [where s = "database s" and k = pid and clk = clk and x = x]
    by (cases l) auto
  have heard: "announced_to l (notified ?db) pid"
    if "\<forall>pos. read_position l = Some pos \<longrightarrow> pos \<le> length (notified (database s))"
      "product_get pid ?db \<noteq> product_get pid (database s)" "l \<noteq> ListenerDone" for l pid
    using that store.changed_unread [where s = "database s" and k = pid and clk = clk and x = x]
    by (cases l) auto
  show ?thesis
  proof (rule nothing_lostI)
    fix pid assume new: "\<not> stop s'" "pid \<in> watch_set s'" "in_stock s' pid \<noteq> None"
    have pos: "\<forall>pos. read_position (listener s) = Some pos \<longrightarrow> pos \<le> length (notified (database s))"
      and live: "listener s \<noteq> ListenerDone"
      using assms(2) new(1) Write by (auto simp: watch_ok_def)
    show "shown s' pid = in_stock s' pid \<or> owed s' pid"
    proof (cases "product_get pid ?db = product_get pid (database s)")
      case True
      then show ?thesis
        using nothing_lostD [OF assms(3), of pid] new grows [OF pos, of pid] Write
        by (auto simp: in_stock_def owed_def)
    next
      case False
      then show ?thesis using heard [OF pos False live] Write by (simp add: owed_def)
    qed
  qed
qed (use assms(3) in \<open>auto simp: nothing_lost_def fresh_def owed_def in_stock_def\<close>)

lemma watched_nothing_lost: "watched ck num clk s \<Longrightarrow> nothing_lost s"
proof (induction rule: watched.induct)
  case (start db)
  then show ?case by (simp add: nothing_lost_def watch_start_def)
next
  case (step s s')
  then show ?case
    using watched_ok [OF step(1)]
    by (auto simp: watch_step_def listener_step_def intro: reader_step_nothing_lost
        listen_step_nothing_lost drain_step_nothing_lost generator_step_nothing_lost outside_step_nothing_lost)
qed

section \<open>What was sent\<close>

definition last_sent :: "int \<Rightarrow> stock_update list \<Rightarrow> int option" where
  "last_sent pid us =
     map_option su_available_quantity (find (\<lambda>u. su_product_id u = pid) (rev us))"

lemma last_sent_simps [simp]:
  "last_sent pid [] = None"
  "last_sent pid (us @ [u]) =
     (if su_product_id u = pid then Some (su_available_quantity u) else last_sent pid us)"
  by (simp_all add: last_sent_def)

text \<open>Every \<open>CHANGED\<close> update brings a quantity that the client does not have.\<close>

definition changes_differ :: "stock_update list \<Rightarrow> bool" where
  "changes_differ us \<longleftrightarrow>
     (\<forall>k < length us. su_kind (us ! k) = CHANGED \<longrightarrow>
        last_sent (su_product_id (us ! k)) (take k us) \<noteq> Some (su_available_quantity (us ! k)))"

lemma changes_differ_snoc:
  "changes_differ (us @ [u]) \<longleftrightarrow> changes_differ us \<and>
     (su_kind u = CHANGED \<longrightarrow> last_sent (su_product_id u) us \<noteq> Some (su_available_quantity u))"
  by (auto simp: changes_differ_def nth_append less_Suc_eq)

text \<open>The watch set that the commands describe.\<close>

definition watched_by :: "watch_command list \<Rightarrow> int set" where
  "watched_by commands =
     fold (\<lambda>c W. if wc_action c = SUBSCRIBE then W \<union> set (wc_product_ids c)
                 else W - set (wc_product_ids c)) commands {}"

definition ever_subscribed :: "watch_command list \<Rightarrow> int set" where
  "ever_subscribed commands =
     (\<Union>c \<in> {c \<in> set commands. wc_action c = SUBSCRIBE}. set (wc_product_ids c))"

fun fetched :: "generator_pc \<Rightarrow> int set" where
  "fetched (Fetching ids _) = ids"
| "fetched (Yielding rows _) = sr_product ` set rows"
| "fetched _ = {}"

definition sent_ok :: "watch_state \<Rightarrow> bool" where
  "sent_ok s \<longleftrightarrow>
     (\<forall>pid. last_seen s pid = last_sent pid (sent s)) \<and> changes_differ (sent s)
     \<and> watch_set s = watched_by (received s)
     \<and> watch_set s \<union> fetched (generator s) \<union> su_product_id ` set (sent s) \<subseteq> ever_subscribed (received s)"

lemma update_of_sel [simp]:
  "su_product_id (update_of row b) = sr_product row"
  "su_available_quantity (update_of row b) = sr_available row"
  "su_kind (update_of row b) = (if b then SNAPSHOT else CHANGED)"
  by (simp_all add: update_of_def)

lemma ever_subscribed_snoc:
  "ever_subscribed (cs @ [c]) =
     ever_subscribed cs \<union> (if wc_action c = SUBSCRIBE then set (wc_product_ids c) else {})"
  by (auto simp: ever_subscribed_def)

lemma reader_step_sent_ok: "reader_step s s' \<Longrightarrow> sent_ok s \<Longrightarrow> sent_ok s'"
  by (erule reader_step.cases)
    (auto simp: sent_ok_def drain_command_def Let_def watched_by_def ever_subscribed_snoc)

lemma listener_step_frame:
  "listener_step num s s' \<Longrightarrow>
     (last_seen s', sent s', watch_set s', received s', generator s', database s', rpc_active s') =
     (last_seen s, sent s, watch_set s, received s, generator s, database s, rpc_active s)"
  by (elim listener_step_cases; erule listen_step.cases drain_step.cases) (auto simp: take_notification_def split: sum.split option.split)

lemma outside_step_frame:
  "outside_step clk s s' \<Longrightarrow>
     (last_seen s', sent s', watch_set s', received s', generator s', stop s') =
     (last_seen s, sent s, watch_set s, received s, generator s, stop s)"
  by (erule outside_step.cases) auto

lemma sent_ok_cong:
  "(last_seen s', sent s', watch_set s', received s', generator s') =
     (last_seen s, sent s, watch_set s, received s, generator s) \<Longrightarrow> sent_ok s' = sent_ok s"
  by (simp add: sent_ok_def)

lemma listener_step_sent_ok: "listener_step num s s' \<Longrightarrow> sent_ok s \<Longrightarrow> sent_ok s'"
  using listener_step_frame [of num s s'] sent_ok_cong [of s' s] by simp

lemma outside_step_sent_ok: "outside_step clk s s' \<Longrightarrow> sent_ok s \<Longrightarrow> sent_ok s'"
  using outside_step_frame [of clk s s'] sent_ok_cong [of s' s] by simp

lemma generator_step_sent_ok:
  "generator_step ck s s' \<Longrightarrow> watch_ok s \<Longrightarrow> sent_ok s \<Longrightarrow> sent_ok s'"
proof (induction rule: generator_step.induct)
  case (Fetch s ids b)
  then have "finite ids" by (simp add: watch_ok_def)
  then have "sr_product ` set (fetch_stock ck (sorted_list_of_set ids) (database s)) \<subseteq> ids"
    by (auto simp: fetch_stock_rows)
  with Fetch show ?case by (auto simp: sent_ok_def)
next
  case (Yield s row rows b)
  then show ?case
    by (auto simp: sent_ok_def yield_row_def changes_differ_snoc)
next
  case (Dispatch s m)
  then show ?case by (cases m) (auto simp: sent_ok_def dispatch_def)
qed (auto simp: sent_ok_def close_watch_def)

lemma watched_sent_ok: "watched ck num clk s \<Longrightarrow> sent_ok s"
proof (induction rule: watched.induct)
  case (start db)
  then show ?case by (simp add: sent_ok_def watch_start_def changes_differ_def watched_by_def)
next
  case (step s s')
  then show ?case
    using watched_ok [OF step(1)]
    by (auto simp: watch_step_def intro: reader_step_sent_ok listener_step_sent_ok
        generator_step_sent_ok outside_step_sent_ok)
qed

section \<open>The end of a watch\<close>

text \<open>How far the generator is from returning once the watch is stopped.\<close>

fun remaining :: "generator_pc \<Rightarrow> nat \<times> nat" where
  "remaining Getting = (6, 0)"
| "remaining (Dispatching _) = (5, 0)"
| "remaining (Rows _ _) = (4, 0)"
| "remaining (Fetching _ _) = (3, 0)"
| "remaining (Yielding rows _) = (2, length rows)"
| "remaining LoopHead = (1, 0)"
| "remaining Returned = (0, 0)"

abbreviation nearer :: "((nat \<times> nat) \<times> (nat \<times> nat)) set" where
  "nearer \<equiv> less_than <*lex*> less_than"

lemma stopped_generator_step:
  "generator_step ck s s' \<Longrightarrow> stop s \<Longrightarrow>
     stop s' \<and> (remaining (generator s'), remaining (generator s)) \<in> nearer"
  by (induction rule: generator_step.induct) (auto simp: close_watch_def dispatch_def split: marker.split)

lemma other_step_generator:
  "reader_step s s' \<or> listener_step num s s' \<or> outside_step clk s s' \<Longrightarrow>
     generator s' = generator s \<and> (stop s \<longrightarrow> stop s')"
  by (elim disjE listener_step_cases;
      erule reader_step.cases listen_step.cases drain_step.cases outside_step.cases)
    (auto simp: drain_command_def Let_def take_notification_def split: sum.split option.split)

lemma stopped_step:
  assumes "watch_step ck num clk s s'" "stop s"
  shows "stop s'" "generator s' = generator s \<or> (remaining (generator s'), remaining (generator s)) \<in> nearer"
  using assms other_step_generator [of s s' num clk] stopped_generator_step [of ck s s']
  by (auto simp: watch_step_def)

text \<open>The step that the generator takes when the query does not fail.\<close>

definition generator_next :: "(string \<Rightarrow> 'k::linorder) \<Rightarrow> watch_state \<Rightarrow> watch_state" where
  "generator_next ck s =
     (case generator s of
        LoopHead \<Rightarrow> if rpc_active s \<and> \<not> stop s then s\<lparr>generator := Getting\<rparr> else close_watch s
      | Getting \<Rightarrow>
          (case events s of [] \<Rightarrow> s\<lparr>generator := LoopHead\<rparr>
           | m # ms \<Rightarrow> s\<lparr>generator := Dispatching m, events := ms\<rparr>)
      | Dispatching m \<Rightarrow> dispatch m s
      | Rows ids b \<Rightarrow> s\<lparr>generator := Fetching (watch_set s \<inter> ids) b\<rparr>
      | Fetching ids b \<Rightarrow>
          s\<lparr>generator := Yielding (fetch_stock ck (sorted_list_of_set ids) (database s)) b\<rparr>
      | Yielding [] b \<Rightarrow> s\<lparr>generator := LoopHead\<rparr>
      | Yielding (row # rows) b \<Rightarrow> (yield_row row b s)\<lparr>generator := Yielding rows b\<rparr>
      | Returned \<Rightarrow> s)"

lemma generator_next_step: "generator s \<noteq> Returned \<Longrightarrow> generator_step ck s (generator_next ck s)"
  by (auto simp: generator_next_def intro: generator_step.intros split: generator_pc.split list.split)

lemma eventually_constant:
  assumes "wf r" "\<And>k. g (Suc k) = g k \<or> (g (Suc k), g k) \<in> r"
  shows "\<exists>m. \<forall>k \<ge> m. g k = g m"
proof -
  from wfE_min [OF assms(1), of "g 0" "range g"] obtain m
    where m: "\<And>y. (y, g m) \<in> r \<Longrightarrow> y \<notin> range g" by auto
  have "g (m + k) = g m" for k
    by (induction k) (simp, metis add_Suc_right assms(2) m rangeI)
  then show ?thesis by (metis le_add_diff_inverse)
qed

lemma stopped_run:
  assumes run: "\<forall>k. watch_step ck num clk (f k) (f (Suc k))" and stop: "stop (f 0)"
  shows "\<exists>m. \<forall>k \<ge> m. generator (f k) = generator (f m)"
proof -
  have stops: "stop (f k)" for k
    by (induction k) (use stop stopped_step(1) run in \<open>blast+\<close>)
  have "wf nearer" by auto
  then have "wf (inv_image nearer remaining)" by (rule wf_inv_image)
  moreover have "generator (f (Suc k)) = generator (f k)
      \<or> (generator (f (Suc k)), generator (f k)) \<in> inv_image nearer remaining" for k
    using stopped_step(2) [OF run [rule_format] stops] by (auto simp: inv_image_def)
  ultimately show ?thesis by (rule eventually_constant)
qed

section \<open>Catching up\<close>

text \<open>
  The threads alone, with nothing happening outside, bring the client up to date. What disturbs
  them is that the listener loses its connection or that a query fails; a steady step is one that
  does neither. An idle generator polls its empty queue for ever; the steps that are not such
  polls do the work.
\<close>

definition thread_step ::
  "(string \<Rightarrow> 'k::linorder) \<Rightarrow> py_numbers \<Rightarrow> watch_state \<Rightarrow> watch_state \<Rightarrow> bool" where
  "thread_step ck num s s' \<longleftrightarrow> listener_step num s s' \<or> generator_step ck s s'"

definition connection_lost :: "watch_state \<Rightarrow> watch_state \<Rightarrow> bool" where
  "connection_lost s s' \<longleftrightarrow> (\<exists>pos. listener s = Receiving pos) \<and> listener s' = Connecting"

definition query_failed :: "watch_state \<Rightarrow> watch_state \<Rightarrow> bool" where
  "query_failed s s' \<longleftrightarrow> (\<exists>ids b. generator s = Fetching ids b) \<and> generator s' = Returned"

definition steady_step ::
  "(string \<Rightarrow> 'k::linorder) \<Rightarrow> py_numbers \<Rightarrow> watch_state \<Rightarrow> watch_state \<Rightarrow> bool" where
  "steady_step ck num s s' \<longleftrightarrow>
     thread_step ck num s s' \<and> \<not> connection_lost s s' \<and> \<not> query_failed s s'"

definition idle :: "watch_state \<Rightarrow> bool" where
  "idle s \<longleftrightarrow> events s = [] \<and> generator s \<in> {LoopHead, Getting}"

definition works ::
  "(string \<Rightarrow> 'k::linorder) \<Rightarrow> py_numbers \<Rightarrow> watch_state \<Rightarrow> watch_state \<Rightarrow> bool" where
  "works ck num s s' \<longleftrightarrow> steady_step ck num s s' \<and> \<not> (idle s \<and> generator s' \<noteq> generator s)"

text \<open>Nothing is left to do: the channel is read, the queue is empty, the generator waits for it.\<close>

definition caught_up :: "watch_state \<Rightarrow> bool" where
  "caught_up s \<longleftrightarrow> idle s \<and> listener s = Receiving (length (notified (database s)))"

definition same_outside :: "watch_state \<Rightarrow> watch_state \<Rightarrow> bool" where
  "same_outside s s' \<longleftrightarrow> database s' = database s \<and> watch_set s' = watch_set s
     \<and> received s' = received s \<and> rpc_active s' = rpc_active s \<and> stop s' = stop s"

text \<open>The work that is left, for the listener and for the generator.\<close>

definition listener_left :: "watch_state \<Rightarrow> nat" where
  "listener_left s =
     (let unread = \<lambda>pos. 3 * (length (notified (database s)) - pos) in
      case listener s of
        Connecting \<Rightarrow> 2
      | Resyncing pos \<Rightarrow> Suc (unread pos)
      | Receiving pos \<Rightarrow> unread pos
      | Changed pos _ \<Rightarrow> Suc (Suc (unread pos))
      | Queueing pos _ \<Rightarrow> Suc (unread pos)
      | ListenerDone \<Rightarrow> 0)"

fun distance :: "generator_pc \<Rightarrow> nat \<times> nat" where
  "distance Getting = (1, 0)"
| "distance LoopHead = (2, 0)"
| "distance (Yielding rows _) = (3, length rows)"
| "distance (Fetching _ _) = (4, 0)"
| "distance (Rows _ _) = (5, 0)"
| "distance (Dispatching _) = (6, 0)"
| "distance Returned = (0, 0)"

definition backlog :: "watch_state \<Rightarrow> nat \<times> nat \<times> nat" where
  "backlog s = (if idle s then (0, 0, 0) else (length (events s), distance (generator s)))"

abbreviation busier :: "((nat \<times> nat \<times> nat) \<times> (nat \<times> nat \<times> nat)) set" where
  "busier \<equiv> less_than <*lex*> less_than <*lex*> less_than"

definition watch_left :: "watch_state \<Rightarrow> nat \<times> nat \<times> nat \<times> nat" where
  "watch_left s = (listener_left s, backlog s)"

abbreviation watch_less :: "((nat \<times> nat \<times> nat \<times> nat) \<times> (nat \<times> nat \<times> nat \<times> nat)) set" where
  "watch_less \<equiv> less_than <*lex*> busier"

lemma wf_watch_less: "wf watch_less"
  by (intro wf_lex_prod wf_less_than)

lemma steady_listen:
  "listen_step num s s' \<Longrightarrow> \<not> connection_lost s s' \<Longrightarrow> watch_ok s \<Longrightarrow> \<not> stop s \<Longrightarrow>
     same_outside s s' \<and> generator s' = generator s \<and> sent s' = sent s \<and> listener_left s' < listener_left s"
proof (induction rule: listen_step.induct)
  case (Notified s pos)
  then have "watchable (database s)" by (simp add: watch_ok_def)
  then show ?case
    using Notified parse_notified [OF _ Notified(3), of num]
    by (simp add: take_notification_def same_outside_def listener_left_def Let_def)
qed (simp_all add: same_outside_def listener_left_def connection_lost_def)

lemma steady_drain:
  "drain_step s s' \<Longrightarrow> same_outside s s' \<and> generator s' = generator s \<and> sent s' = sent s
     \<and> listener_left s' < listener_left s"
  by (induction rule: drain_step.induct) (simp_all add: same_outside_def listener_left_def Let_def)

lemma steady_listener:
  assumes "listener_step num s s'" "\<not> connection_lost s s'" "watch_ok s" "\<not> stop s"
  shows "same_outside s s' \<and> generator s' = generator s \<and> sent s' = sent s \<and> listener_left s' < listener_left s"
  using assms steady_listen [of num s s'] steady_drain [of s s'] unfolding listener_step_def by blast

lemma steady_generator:
  assumes "generator_step ck s s'" "\<not> query_failed s s'" "rpc_active s" "\<not> stop s"
  shows "s' = generator_next ck s"
  using assms
  by (cases rule: generator_step.cases) (simp_all add: generator_next_def query_failed_def close_watch_def)

lemma idle_listener_same: "generator_step ck s s' \<Longrightarrow> idle s \<Longrightarrow> rpc_active s \<Longrightarrow> \<not> stop s
    \<Longrightarrow> idle s' \<and> sent s' = sent s \<and> generator s' \<noteq> generator s"
  by (erule generator_step.cases) (auto simp: idle_def)

lemma generator_next_frame:
  assumes "\<not> stop s" "rpc_active s" "generator s \<noteq> Returned"
  shows "same_outside s (generator_next ck s)" "listener (generator_next ck s) = listener s"
    "generator (generator_next ck s) \<noteq> Returned"
  using assms
  by (auto simp: generator_next_def same_outside_def dispatch_def split: generator_pc.split list.split marker.split)

lemma generator_works:
  assumes "\<not> stop s" "rpc_active s" "generator s \<noteq> Returned" "\<not> idle s"
  shows "(backlog (generator_next ck s), backlog s) \<in> busier"
proof (cases "generator s")
  case Getting
  then obtain m ms where "events s = m # ms" using assms(4) by (cases "events s") (auto simp: idle_def)
  with Getting show ?thesis by (simp add: generator_next_def backlog_def idle_def)
next
  case (Yielding rows b)
  then show ?thesis by (cases rows) (auto simp: generator_next_def backlog_def idle_def)
next
  case LoopHead
  then show ?thesis using assms by (auto simp: generator_next_def backlog_def idle_def)
qed (use assms in \<open>auto simp: generator_next_def backlog_def idle_def dispatch_def split: marker.split\<close>)

text \<open>A steady step leaves the surroundings alone, and working steps use the work up.\<close>

lemma steady_cases [consumes 4, case_names listener generator]:
  assumes "steady_step ck num s s'" "watch_ok s" "rpc_active s" "\<not> stop s"
  obtains "listener_step num s s'" "same_outside s s'" "generator s' = generator s" "sent s' = sent s"
      "listener_left s' < listener_left s"
  | "s' = generator_next ck s" "generator_step ck s s'" "generator s \<noteq> Returned" "same_outside s s'"
      "listener s' = listener s" "listener_left s' = listener_left s"
proof -
  have returned: "generator s \<noteq> Returned" using assms(2,4) by (auto simp: watch_ok_def)
  from assms(1) consider "listener_step num s s'" "\<not> connection_lost s s'"
    | "generator_step ck s s'" "\<not> query_failed s s'"
    by (auto simp: steady_step_def thread_step_def)
  then show ?thesis
  proof cases
    case 1
    then show ?thesis using that(1) steady_listener [OF 1 assms(2,4)] by blast
  next
    case 2
    note next_step = steady_generator [OF 2 assms(3,4)]
    note kept = generator_next_frame [OF assms(4,3) returned, of ck]
    have "listener_left s' = listener_left s"
      using kept(1,2) next_step by (simp add: listener_left_def same_outside_def)
    then show ?thesis using that(2) 2 next_step returned kept(1,2) by simp
  qed
qed

lemma steady_same:
  assumes "steady_step ck num s s'" "watch_ok s" "rpc_active s" "\<not> stop s"
  shows "same_outside s s'"
  using assms by (cases rule: steady_cases) simp_all

lemma works_steady: "works ck num s s' \<Longrightarrow> steady_step ck num s s'"
  by (simp add: works_def)

lemma works_less:
  assumes "works ck num s s'" "watch_ok s" "rpc_active s" "\<not> stop s"
  shows "(watch_left s', watch_left s) \<in> watch_less"
proof -
  have steady: "steady_step ck num s s'" and moved: "\<not> (idle s \<and> generator s' \<noteq> generator s)"
    using assms(1) by (auto simp: works_def)
  from steady assms(2-4) show ?thesis
  proof (cases rule: steady_cases)
    case listener
    then show ?thesis by (simp add: watch_left_def)
  next
    case generator
    have "\<not> idle s" using idle_listener_same [OF generator(2) _ assms(3,4)] moved by blast
    then show ?thesis using generator_works [OF assms(4,3) generator(3), of ck] generator(1,6) by (simp add: watch_left_def)
  qed
qed

lemma poll_same:
  assumes "steady_step ck num s s'" "\<not> works ck num s s'" "watch_ok s" "rpc_active s" "\<not> stop s"
  shows "watch_left s' = watch_left s" "sent s' = sent s"
proof -
  have poll: "idle s" "generator s' \<noteq> generator s" using assms(1,2) by (auto simp: works_def)
  have "watch_left s' = watch_left s \<and> sent s' = sent s"
    using assms(1,3-5)
  proof (cases rule: steady_cases)
    case generator
    then show ?thesis
      using idle_listener_same [OF generator(2) poll(1) assms(4,5)] poll(1) by (simp add: watch_left_def backlog_def)
  qed (use poll in simp)
  then show "watch_left s' = watch_left s" "sent s' = sent s" by simp_all
qed

lemma works_possible:
  assumes "watch_ok s" "rpc_active s" "\<not> stop s" "\<not> caught_up s"
  shows "\<exists>s'. works ck num s s'"
proof (cases "idle s")
  case False
  have returned: "generator s \<noteq> Returned" using assms(1,3) by (auto simp: watch_ok_def)
  have "\<not> query_failed s (generator_next ck s)" "\<not> connection_lost s (generator_next ck s)"
    using generator_next_frame [OF assms(3,2) returned, of ck] by (auto simp: query_failed_def connection_lost_def)
  then show ?thesis
    using False generator_next_step [OF returned, of ck]
    by (intro exI [of _ "generator_next ck s"]) (simp add: works_def steady_step_def thread_step_def)
next
  case True
  let ?n = "length (notified (database s))"
  have steady: "\<exists>s'. works ck num s s'" if "listener_step num s s'" "\<not> connection_lost s s'" for s'
    using that steady_listener [OF that assms(1,3)]
    by (intro exI [of _ s']) (auto simp: works_def steady_step_def thread_step_def query_failed_def)
  show ?thesis
  proof (cases "listener s")
    case Connecting
    show ?thesis by (rule steady [OF listener_stepI(1) [OF Listen [OF Connecting assms(3)]]])
        (simp add: connection_lost_def Connecting)
  next
    case (Resyncing pos)
    show ?thesis by (rule steady [OF listener_stepI(2) [OF Resynced [OF Resyncing]]])
        (simp add: connection_lost_def)
  next
    case (Receiving pos)
    then have less: "pos < ?n" using assms(1,4) True by (auto simp: watch_ok_def caught_up_def)
    moreover have "watchable (database s)" using assms(1) by (simp add: watch_ok_def)
    ultimately have "\<not> connection_lost s (take_notification num pos s)"
      using parse_notified [of "database s" pos num] by (simp add: connection_lost_def take_notification_def)
    then show ?thesis by (rule steady [OF listener_stepI(1) [OF Notified [OF Receiving assms(3) less]]])
  next
    case (Changed pos pid)
    show ?thesis by (rule steady [OF listener_stepI(2) [OF CheckWatched [OF Changed]]])
        (simp add: connection_lost_def)
  next
    case (Queueing pos pid)
    show ?thesis by (rule steady [OF listener_stepI(2) [OF QueueChanged [OF Queueing]]])
        (simp add: connection_lost_def)
  next
    case ListenerDone
    then show ?thesis using assms(1,3) by (simp add: watch_ok_def)
  qed
qed

lemma same_outside_refl [simp]: "same_outside s s"
  by (simp add: same_outside_def)

lemma same_outside_trans [trans]: "same_outside s t \<Longrightarrow> same_outside t u \<Longrightarrow> same_outside s u"
  by (simp add: same_outside_def)

lemma steady_watched:
  assumes "watched ck num clk s" "steady_step ck num s s'"
  shows "watched ck num clk s'"
  using assms by (auto simp: steady_step_def thread_step_def watch_step_def intro: watched.step)

lemma steady_live:
  assumes "steady_step ck num s s'" "watched ck num clk s" "rpc_active s" "\<not> stop s"
  shows "watched ck num clk s'" "rpc_active s'" "\<not> stop s'"
  using steady_watched [OF assms(2,1)] steady_same [OF assms(1) watched_ok [OF assms(2)] assms(3,4)] assms(3,4)
  by (simp_all add: same_outside_def)

lemma caught_up_stays:
  assumes "steady_step ck num s s'" "watch_ok s" "rpc_active s" "\<not> stop s" "caught_up s"
  shows "caught_up s' \<and> sent s' = sent s"
  using assms(1-4)
proof (cases rule: steady_cases)
  case listener
  then show ?thesis using assms(5) by (simp add: caught_up_def listener_left_def)
next
  case generator
  then show ?thesis
    using idle_listener_same [OF generator(2) _ assms(3,4)] assms(5) by (simp add: caught_up_def same_outside_def)
qed

lemma watch_catches_up:
  assumes "watched ck num clk s" "rpc_active s" "\<not> stop s"
  shows "\<exists>s'. (works ck num)\<^sup>*\<^sup>* s s' \<and> caught_up s'"
proof -
  have "wf (inv_image watch_less watch_left)" by (rule wf_inv_image [OF wf_watch_less])
  then show ?thesis
    using assms
  proof (induction s rule: wf_induct_rule)
    case (less s)
    show ?case
    proof (cases "caught_up s")
      case False
      note ok = watched_ok [OF less.prems(1)]
      obtain t where t: "works ck num s t" using works_possible [OF ok less.prems(2,3) False] by blast
      note live = steady_live [OF works_steady [OF t] less.prems]
      have "\<exists>s'. (works ck num)\<^sup>*\<^sup>* t s' \<and> caught_up s'"
        by (rule less.IH) (use works_less [OF t ok less.prems(2,3)] live in simp_all)
      with t show ?thesis by (meson converse_rtranclp_into_rtranclp)
    qed blast
  qed
qed

lemma steady_run_live:
  assumes "(steady_step ck num)\<^sup>*\<^sup>* s s'" "watched ck num clk s" "rpc_active s" "\<not> stop s"
  shows "watched ck num clk s' \<and> rpc_active s' \<and> \<not> stop s' \<and> same_outside s s'"
  using assms(1)
proof (induction rule: rtranclp_induct)
  case (step t u)
  then show ?case
    using steady_live [OF step(2), of clk] steady_same [OF step(2) watched_ok] same_outside_trans by blast
qed (use assms in simp)

text \<open>
  Runs: a fair run takes, again and again, a step that works, or comes to a state that has none.
  Every fair run of steps that use up a measure, or leave it, ends up where nothing is left.
\<close>

definition fair_run :: "('s \<Rightarrow> 's \<Rightarrow> bool) \<Rightarrow> ('s \<Rightarrow> 's \<Rightarrow> bool) \<Rightarrow> (nat \<Rightarrow> 's) \<Rightarrow> bool" where
  "fair_run step work f \<longleftrightarrow> (\<forall>k. step (f k) (f (Suc k)))
     \<and> (\<forall>k. \<exists>j \<ge> k. work (f j) (f (Suc j)) \<or> (\<nexists>s'. work (f j) s'))"

lemma fair_run_prefix: "fair_run step work f \<Longrightarrow> step\<^sup>*\<^sup>* (f 0) (f k)"
  by (induction k) (auto simp: fair_run_def intro: rtranclp.rtrancl_into_rtrancl)

lemma fair_run_settles:
  assumes fair: "fair_run step work f" and "wf r" and alive: "\<And>k. alive (f k)"
    and used: "\<And>s s'. alive s \<Longrightarrow> work s s' \<Longrightarrow> (left s', left s) \<in> r"
    and kept: "\<And>s s'. alive s \<Longrightarrow> step s s' \<Longrightarrow> \<not> work s s' \<Longrightarrow> left s' = left s"
    and possible: "\<And>s. alive s \<Longrightarrow> \<not> settled s \<Longrightarrow> \<exists>s'. work s s'"
    and stays: "\<And>s s'. alive s \<Longrightarrow> step s s' \<Longrightarrow> settled s \<Longrightarrow> settled s'"
  shows "\<exists>m. \<forall>k \<ge> m. settled (f k)"
proof -
  have steps: "step (f k) (f (Suc k))" for k using fair by (simp add: fair_run_def)
  have "left (f (Suc k)) = left (f k) \<or> (left (f (Suc k)), left (f k)) \<in> r" for k
    using used kept alive steps by blast
  then obtain m where m: "\<forall>k \<ge> m. left (f k) = left (f m)"
    using eventually_constant [OF assms(2), of "\<lambda>k. left (f k)"] by blast
  obtain j where j: "j \<ge> m" "work (f j) (f (Suc j)) \<or> (\<nexists>s'. work (f j) s')"
    using fair unfolding fair_run_def by blast
  have "\<not> work (f j) (f (Suc j))"
  proof
    assume "work (f j) (f (Suc j))"
    then have "(left (f m), left (f m)) \<in> r" using used [OF alive] m j(1) by (metis le_SucI)
    then show False using assms(2) by (simp add: wf_not_refl)
  qed
  then have reached: "settled (f j)" using j(2) possible [OF alive] by blast
  have "settled (f k)" if "j \<le> k" for k
    using that by (induction rule: dec_induct) (use reached stays alive steps in blast)+
  then show ?thesis by blast
qed

text \<open>
  In a caught-up state the client has the current quantity of every watched product: the last
  update it was sent for it.
\<close>

definition up_to_date :: "watch_state \<Rightarrow> bool" where
  "up_to_date s \<longleftrightarrow> (\<forall>pid \<in> watch_set s. \<forall>p. product_get pid (database s) = Some p \<longrightarrow>
     last_sent pid (sent s) = Some (p_available p))"

lemma caught_up_shown:
  assumes "watched ck num clk s" "caught_up s" "\<not> stop s"
    and "pid \<in> watch_set s" "product_get pid (database s) = Some p"
  shows "last_sent pid (sent s) = Some (p_available p)"
proof -
  have "shown s pid = last_seen s pid" "\<not> owed s pid"
    using assms(2) by (auto simp: caught_up_def idle_def owed_def)
  then have "last_seen s pid = Some (p_available p)"
    using nothing_lostD [OF watched_nothing_lost [OF assms(1)] assms(3,4)] assms(5) by (simp add: in_stock_def)
  then show ?thesis using watched_sent_ok [OF assms(1)] by (simp add: sent_ok_def)
qed

section \<open>Properties\<close>


text \<open>
  The watch set is what the commands say, and the client is told nothing else. In every
  reachable state of \<^verbatim>\<open>WatchStock\<close>, whatever the interleaving of its threads with the writers,
  the watch set is the set that the received commands describe; ids waiting for a snapshot are
  watched; an update is only ever sent for a product that was subscribed; and a \<open>CHANGED\<close> update
  never repeats the quantity that the client was last sent for that product.
\<close>

theorem watch_stock_state:
  assumes "watched ck num clk s"
  shows "watch_set s = watched_by (received s) \<and> newly_added s \<subseteq> watch_set s
    \<and> su_product_id ` set (sent s) \<subseteq> ever_subscribed (received s) \<and> changes_differ (sent s)
    \<and> (\<forall>pid. last_seen s pid = last_sent pid (sent s))"
  using watched_ok [OF assms] watched_sent_ok [OF assms] by (simp add: watch_ok_def sent_ok_def)

lemma demo_watchable: "watchable demo_db"
  using demo_db_ok by (simp add: watchable_def demo_db_def)

abbreviation watching :: "int list \<Rightarrow> watch_state" where
  "watching ids \<equiv>
     drain_command \<lparr>wc_action = SUBSCRIBE, wc_product_ids = ids\<rparr> (watch_start demo_db)"

lemma watching_watched: "watched ck num clk (watching ids)"
proof -
  have "reader_step (watch_start demo_db) (watching ids)"
    by (rule Receive) (simp add: watch_start_def)
  then show ?thesis using watched.start [OF demo_watchable] by (meson watch_step_def watched.step)
qed

theorem watch_stock_state_witness:
  "watched_by [\<lparr>wc_action = SUBSCRIBE, wc_product_ids = [1, 7]\<rparr>] = {1, 7}"
  using watch_stock_state [OF watching_watched [of length demo_numbers "\<lambda>i. i" "[1, 7]"]]
  by (simp add: drain_command_def watch_start_def Let_def)

text \<open>
  C31: no change of stock is lost. Take any reachable state of a live watch, whatever has happened
  (writes before, during or after a subscription, a lost connection of the listener, commands
  between any two steps). If the threads have nothing left to do there, the last update sent for
  every watched product carries its current quantity. If they have, their own steps, none of
  which loses the connection or fails a query, lead to such a state; and every fair run of these
  steps, in any interleaving, comes to such states and stays in them.
\<close>

theorem watch_stock_delivers:
  assumes "watched ck num clk s" "rpc_active s" "\<not> stop s"
  shows "(caught_up s \<longrightarrow> up_to_date s)
    \<and> (\<exists>s'. (works ck num)\<^sup>*\<^sup>* s s' \<and> caught_up s' \<and> up_to_date s' \<and> same_outside s s')
    \<and> (\<forall>f. f 0 = s \<and> fair_run (steady_step ck num) (works ck num) f \<longrightarrow>
          (\<exists>m. \<forall>k \<ge> m. caught_up (f k) \<and> up_to_date (f k) \<and> same_outside s (f k)))"
proof (intro conjI allI impI)
  show "caught_up s \<Longrightarrow> up_to_date s" using caught_up_shown [OF assms(1) _ assms(3)] by (simp add: up_to_date_def)
next
  obtain s' where s': "(works ck num)\<^sup>*\<^sup>* s s'" "caught_up s'"
    using watch_catches_up [OF assms] by blast
  have "(steady_step ck num)\<^sup>*\<^sup>* s s'"
    using s'(1) works_steady by (metis (mono_tags, lifting) mono_rtranclp)
  note live = steady_run_live [OF this assms]
  then have "up_to_date s'" using caught_up_shown [of ck num clk s'] s'(2) by (simp add: up_to_date_def)
  then show "\<exists>s'. (works ck num)\<^sup>*\<^sup>* s s' \<and> caught_up s' \<and> up_to_date s' \<and> same_outside s s'"
    using s' live by blast
next
  fix f assume run: "f 0 = s \<and> fair_run (steady_step ck num) (works ck num) f"
  have live: "watched ck num clk (f k) \<and> rpc_active (f k) \<and> \<not> stop (f k) \<and> same_outside s (f k)" for k
    using fair_run_prefix [of "steady_step ck num" "works ck num" f k] steady_run_live [OF _ assms, of "f k"] run
    by simp
  have "\<exists>m. \<forall>k \<ge> m. caught_up (f k)"
    by (rule fair_run_settles [of _ _ f, OF conjunct2 [OF run] wf_watch_less,
          of "\<lambda>s. watch_ok s \<and> rpc_active s \<and> \<not> stop s" watch_left])
      (use live watched_ok works_less poll_same(1) works_possible caught_up_stays in blast)+
  then show "\<exists>m. \<forall>k \<ge> m. caught_up (f k) \<and> up_to_date (f k) \<and> same_outside s (f k)"
    using live caught_up_shown by (metis up_to_date_def)
qed

theorem watch_stock_delivers_witness:
  "\<exists>s'. (works length demo_numbers)\<^sup>*\<^sup>* (watching [1, 7]) s' \<and> last_sent 1 (sent s') = Some 100"
proof -
  have "rpc_active (watching [1, 7])" "\<not> stop (watching [1, 7])" "1 \<in> watch_set (watching [1, 7])"
      "database (watching [1, 7]) = demo_db"
    by (simp_all add: drain_command_def watch_start_def Let_def)
  with watch_stock_delivers [OF watching_watched [of length demo_numbers "\<lambda>i. i" "[1, 7]"]] show ?thesis
    by (force simp: demo_db_def product_get_def up_to_date_def same_outside_def)
qed

text \<open>
  C32: a stopped watch ends. Once \<^verbatim>\<open>stop\<close> is set (the client closed its request stream, or a
  helper thread gave up), no further run of the system, with any activity around it, makes the
  generator step for ever: it takes finitely many more steps, and it is never blocked before it
  has returned.
\<close>

theorem watch_stock_ends:
  assumes "\<forall>k. watch_step ck num clk (f k) (f (Suc k))" "stop (f 0)"
  shows "finite {k. generator (f (Suc k)) \<noteq> generator (f k)}
    \<and> (\<forall>k. generator (f k) = Returned \<or> (\<exists>s'. generator_step ck (f k) s'))"
proof
  obtain m where "\<forall>k \<ge> m. generator (f k) = generator (f m)"
    using stopped_run [OF assms] by blast
  then have "{k. generator (f (Suc k)) \<noteq> generator (f k)} \<subseteq> {..<m}"
    by (metis (mono_tags, lifting) le_SucI lessThan_iff mem_Collect_eq not_le subsetI)
  then show "finite {k. generator (f (Suc k)) \<noteq> generator (f k)}" by (rule finite_subset) simp
  show "\<forall>k. generator (f k) = Returned \<or> (\<exists>s'. generator_step ck (f k) s')"
    using generator_next_step by blast
qed

theorem watch_stock_ends_witness:
  "finite {k. generator (((\<lambda>s. s\<lparr>rpc_active := False\<rparr>) ^^ Suc k) ((watch_start demo_db)\<lparr>stop := True\<rparr>))
     \<noteq> generator (((\<lambda>s. s\<lparr>rpc_active := False\<rparr>) ^^ k) ((watch_start demo_db)\<lparr>stop := True\<rparr>))}"
  using watch_stock_ends [where ck = length and num = demo_numbers and clk = "\<lambda>i. i" and
      f = "\<lambda>k. ((\<lambda>s. s\<lparr>rpc_active := False\<rparr>) ^^ k) ((watch_start demo_db)\<lparr>stop := True\<rparr>)"]
  by (simp add: watch_step_def outside_step.Cancel)

fun generator_run :: "(string \<Rightarrow> 'k::linorder) \<Rightarrow> nat \<Rightarrow> watch_state \<Rightarrow> watch_state" where
  "generator_run ck 0 s = s"
| "generator_run ck (Suc n) s = generator_run ck n (generator_next ck s)"

lemma generator_run_watched:
  "watched ck num clk s \<Longrightarrow> watched ck num clk (generator_run ck n s)"
proof (induction n arbitrary: s)
  case (Suc n)
  have "watched ck num clk (generator_next ck s)"
  proof (cases "generator s = Returned")
    case True
    then have "generator_next ck s = s" by (simp add: generator_next_def)
    then show ?thesis using Suc.prems by simp
  next
    case False
    then show ?thesis
      using Suc.prems generator_next_step [of s ck] by (meson watch_step_def watched.step)
  qed
  then show ?case by (simp add: Suc.IH)
qed simp

lemmas generator_next_record = generator_next_def [of ck "\<lparr>database = d, rpc_active = a, stop = st,
  received = cs, watch_set = W, newly_added = F, last_seen = l, events = ms, reader = r,
  listener = li, generator = g, sent = us\<rparr>" for ck d a st cs W F l ms r li g us]


abbreviation resync_first :: watch_state where
  "resync_first \<equiv> \<lparr>database = demo_db, rpc_active = True, stop = False,
      received = [\<lparr>wc_action = SUBSCRIBE, wc_product_ids = [1]\<rparr>], watch_set = {1}, newly_added = {1},
      last_seen = (\<lambda>_. None), events = [ResyncMarker, SnapshotMarker], reader = Reading,
      listener = Receiving 0, generator = LoopHead, sent = []\<rparr>"

lemma resync_first_run:
  "database (generator_run ck 14 resync_first) = demo_db"
  "map (\<lambda>u. (su_kind u, su_product_id u, su_available_quantity u)) (sent (generator_run ck 14 resync_first))
     = [(CHANGED, 1, 100), (SNAPSHOT, 1, 100)]"
  by (simp_all add: eval_nat_numeral generator_next_record dispatch_def yield_row_def update_of_def
      fetch_stock_def to_row_def demo_db_def)

text \<open>
  A \<open>CHANGED\<close> can come before the \<open>SNAPSHOT\<close>. The contract calls \<open>SNAPSHOT\<close> the first value
  sent after a subscription and \<open>CHANGED\<close> a value that differs from the last one sent. When the
  listener has connected but its resync is drained after a command was received, the client gets
  \<open>CHANGED\<close> first, for a product whose quantity never changed, and then the \<open>SNAPSHOT\<close> with the
  same quantity.
\<close>

theorem watch_stock_changed_first:
  "\<exists>s. watched ck num clk s \<and> database s = demo_db \<and>
    map (\<lambda>u. (su_kind u, su_product_id u, su_available_quantity u)) (sent s) =
      [(CHANGED, 1, 100), (SNAPSHOT, 1, 100)]"
proof -
  let ?s1 = "(watch_start demo_db)\<lparr>listener := Resyncing 0\<rparr>"
  let ?s2 = "(watch_start demo_db)\<lparr>listener := Receiving 0, events := [ResyncMarker]\<rparr>"
  have "watched ck num clk ?s1"
    by (rule watched.step [OF watched.start [OF demo_watchable]])
      (use Listen [of "watch_start demo_db" num] in \<open>simp add: watch_step_def listener_step_def watch_start_def demo_db_def\<close>)
  then have "watched ck num clk ?s2"
    by (rule watched.step) (use Resynced [of ?s1 0] in \<open>simp add: watch_step_def listener_step_def watch_start_def\<close>)
  moreover have "reader_step ?s2 resync_first"
    using Receive [of ?s2 "\<lparr>wc_action = SUBSCRIBE, wc_product_ids = [1]\<rparr>"]
    by (simp add: watch_start_def drain_command_def Let_def)
  ultimately have "watched ck num clk resync_first" by (meson watch_step_def watched.step)
  then have "watched ck num clk (generator_run ck 14 resync_first)" by (rule generator_run_watched)
  with resync_first_run [of ck] show ?thesis
    by (intro exI [of _ "generator_run ck 14 resync_first"] conjI)
qed

end
