(* ===== verification/LiveStock.thy ===== *)
theory LiveStock
  imports StockBridge StockWatch
begin

text \<open>
  Live stock, end to end: a WebSocket client, the bridge of the order service, the gRPC call, and
  the threads of \<^verbatim>\<open>WatchStock\<close> in the inventory service. The call is two streams: the servicer
  reads the commands that the bridge sent, and the bridge gets the updates that the servicer sent,
  in order and some time later, until the call breaks.
\<close>

section \<open>The call between the two services\<close>

text \<open>\<open>calm_step\<close>: the two services and the two streams; \<open>live_step\<close>: with the client, the writers of the shop,
  and the end of the call.\<close>

inductive calm_step ::
  "(json \<Rightarrow> int option) \<Rightarrow> (string \<Rightarrow> 'k::linorder) \<Rightarrow> py_numbers
     \<Rightarrow> bridge \<times> watch_state \<Rightarrow> bridge \<times> watch_state \<Rightarrow> bool" for as_int ck num where
  bridge: "bridge_step as_int b b' \<Longrightarrow> calm_step as_int ck num (b, w) (b', w)"
| threads: "thread_step ck num w w' \<Longrightarrow> calm_step as_int ck num (b, w) (b, w')"
| command: "reader w = reader_pc.Reading
    \<Longrightarrow> length (received w) < length (br_requested b)
    \<Longrightarrow> calm_step as_int ck num (b, w) (b, drain_command (br_requested b ! length (received w)) w)"
| update: "br_status b = None \<Longrightarrow> length (br_served b) < length (sent w) \<Longrightarrow> u = sent w ! length (br_served b)
    \<Longrightarrow> calm_step as_int ck num (b, w)
          (b\<lparr>br_updates := br_updates b @ [u], br_served := br_served b @ [u]\<rparr>, w)"

inductive live_step ::
  "(json \<Rightarrow> int option) \<Rightarrow> (string \<Rightarrow> 'k::linorder) \<Rightarrow> py_numbers \<Rightarrow> (int \<Rightarrow> int)
     \<Rightarrow> bridge \<times> watch_state \<Rightarrow> bridge \<times> watch_state \<Rightarrow> bool" for as_int ck num clk where
  calm: "calm_step as_int ck num s s' \<Longrightarrow> live_step as_int ck num clk s s'"
| frame: "live_step as_int ck num clk (b, w) (b\<lparr>br_frames := br_frames b @ [f]\<rparr>, w)"
| shop: "live_step as_int ck num clk (b, w) (b, w\<lparr>database := snd (inventory_step clk x (database w))\<rparr>)"
| requests_end: "reader w = reader_pc.Reading
    \<Longrightarrow> br_request_closed b \<and> length (received w) = length (br_requested b) \<or> br_status b \<noteq> None \<or> out_done b
    \<Longrightarrow> live_step as_int ck num clk (b, w) (b, w\<lparr>reader := ReaderDone, stop := True\<rparr>)"
| call_ends: "br_status b = None \<Longrightarrow> generator w = generator_pc.Returned \<Longrightarrow> br_served b = sent w
    \<Longrightarrow> live_step as_int ck num clk (b, w) (b\<lparr>br_status := Some status\<rparr>, w)"
| call_breaks: "br_status b = None
    \<Longrightarrow> live_step as_int ck num clk (b, w) (b\<lparr>br_status := Some (Some code)\<rparr>, w)"
| cancel: "br_status b \<noteq> None \<or> out_done b
    \<Longrightarrow> live_step as_int ck num clk (b, w) (b, w\<lparr>rpc_active := False\<rparr>)"

inductive live ::
  "(json \<Rightarrow> int option) \<Rightarrow> (string \<Rightarrow> 'k::linorder) \<Rightarrow> py_numbers \<Rightarrow> (int \<Rightarrow> int)
     \<Rightarrow> bridge \<times> watch_state \<Rightarrow> bool" for as_int ck num clk where
  start: "watchable db \<Longrightarrow> live as_int ck num clk (bridge_start, watch_start db)"
| step: "live as_int ck num clk s \<Longrightarrow> live_step as_int ck num clk s s' \<Longrightarrow> live as_int ck num clk s'"

section \<open>Each side is what it was alone\<close>

definition sides :: "(json \<Rightarrow> int option) \<Rightarrow> (string \<Rightarrow> 'k::linorder) \<Rightarrow> py_numbers \<Rightarrow> (int \<Rightarrow> int)
    \<Rightarrow> bridge \<times> watch_state \<Rightarrow> bool" where
  "sides as_int ck num clk = (\<lambda>(b, w). bridged as_int b \<and> watched ck num clk w)"

lemma thread_step_watch: "thread_step ck num w w' \<Longrightarrow> watch_step ck num clk w w'"
  by (auto simp: thread_step_def watch_step_def)

lemma calm_sides: "calm_step as_int ck num s s' \<Longrightarrow> sides as_int ck num clk s \<Longrightarrow> sides as_int ck num clk s'"
proof (induction rule: calm_step.induct)
  case (bridge b b' w)
  then show ?case using bridged.own by (auto simp: sides_def)
next
  case (threads w w' b)
  then show ?case using watched.step thread_step_watch by (fastforce simp: sides_def)
next
  case (command w b)
  then have "watch_step ck num clk w (drain_command (br_requested b ! length (received w)) w)"
    unfolding watch_step_def by (blast intro: Receive)
  then show ?case using command watched.step by (fastforce simp: sides_def)
next
  case (update b w u)
  then show ?case using bridged.outside [OF _ bridge_outside.update] by (auto simp: sides_def)
qed

lemma live_sides: "live as_int ck num clk s \<Longrightarrow> sides as_int ck num clk s"
proof (induction rule: live.induct)
  case (start db)
  then show ?case by (simp add: sides_def bridged.start watched.start)
next
  case (step s s')
  from step(2) show ?case
  proof cases
    case calm
    then show ?thesis using calm_sides step.IH by blast
  next
    case (frame b w f)
    then show ?thesis using step.IH bridged.outside [OF _ bridge_outside.frame] by (auto simp: sides_def)
  next
    case (shop b w x)
    have "watch_step ck num clk w (w\<lparr>database := snd (inventory_step clk x (database w))\<rparr>)"
      unfolding watch_step_def by (blast intro: outside_step.Write)
    then show ?thesis using shop step.IH watched.step by (fastforce simp: sides_def)
  next
    case (requests_end w b)
    then have "watch_step ck num clk w (w\<lparr>reader := ReaderDone, stop := True\<rparr>)"
      unfolding watch_step_def by (blast intro: RequestsEnd)
    then show ?thesis using requests_end step.IH watched.step by (fastforce simp: sides_def)
  next
    case (call_ends b w status)
    then show ?thesis using step.IH bridged.outside [OF _ bridge_outside.status] by (auto simp: sides_def)
  next
    case (call_breaks b code w)
    then show ?thesis using step.IH bridged.outside [OF _ bridge_outside.status] by (auto simp: sides_def)
  next
    case (cancel b w)
    have "watch_step ck num clk w (w\<lparr>rpc_active := False\<rparr>)"
      unfolding watch_step_def by (blast intro: outside_step.Cancel)
    then show ?thesis using cancel step.IH watched.step by (fastforce simp: sides_def)
  qed
qed

section \<open>The two streams\<close>

definition wired :: "bridge \<times> watch_state \<Rightarrow> bool" where
  "wired = (\<lambda>(b, w). prefix (received w) (br_requested b) \<and> prefix (br_served b) (sent w)
     \<and> (rpc_active w \<or> br_status b \<noteq> None \<or> out_done b))"

lemma bridge_step_streams:
  "bridge_step as_int b b' \<Longrightarrow> prefix (br_requested b) (br_requested b') \<and> br_served b' = br_served b
     \<and> br_status b' = br_status b \<and> (out_done b \<longrightarrow> out_done b')"
proof (induction rule: bridge_step.induct)
  case (inbound s s')
  then show ?case
  proof cases
    case (read f fs)
    then show ?thesis
      by (cases rule: receive_json_cases [of as_int f "s\<lparr>br_frames := fs, br_read := br_read s @ [f]\<rparr>"])
        (simp_all add: out_done_def)
  qed (simp_all add: out_done_def)
next
  case (request s s')
  then show ?case by cases (simp_all add: out_done_def)
next
  case (outbound s s')
  then show ?case by cases (auto simp: out_done_def)
next
  case (session s s')
  then show ?case by cases (simp_all add: out_done_def)
qed

lemma generator_step_streams:
  "generator_step ck w w' \<Longrightarrow> prefix (sent w) (sent w') \<and> received w' = received w \<and> rpc_active w' = rpc_active w"
  by (erule generator_step.cases) (auto simp: dispatch_def close_watch_def yield_row_def split: marker.split)

lemma thread_step_streams:
  "thread_step ck num w w' \<Longrightarrow> prefix (sent w) (sent w') \<and> received w' = received w \<and> rpc_active w' = rpc_active w"
  unfolding thread_step_def
  by (auto dest: generator_step_streams listener_step_frame)

lemma prefix_next: "prefix xs ys \<Longrightarrow> length xs < length ys \<Longrightarrow> prefix (xs @ [ys ! length xs]) ys"
  by (auto simp: prefix_def nth_append) (metis Nil_is_append_conv append_Nil2 append_Cons append_Nil hd_conv_nth list.collapse less_irrefl)

lemma drain_command_streams [simp]:
  "received (drain_command c w) = received w @ [c]" "sent (drain_command c w) = sent w"
  "rpc_active (drain_command c w) = rpc_active w" "reader (drain_command c w) = reader w"
  "stop (drain_command c w) = stop w" "database (drain_command c w) = database w"
  "generator (drain_command c w) = generator w" "listener (drain_command c w) = listener w"
  by (simp_all add: drain_command_def Let_def)

lemma calm_wired: "calm_step as_int ck num s s' \<Longrightarrow> wired s \<Longrightarrow> wired s'"
proof (induction rule: calm_step.induct)
  case (bridge b b' w)
  then show ?case using bridge_step_streams [of as_int b b'] by (auto simp: wired_def intro: prefix_order.trans)
next
  case (threads w w' b)
  then show ?case using thread_step_streams [of ck num w w'] by (auto simp: wired_def intro: prefix_order.trans)
next
  case (command w b)
  then show ?case by (simp add: wired_def prefix_next)
next
  case (update b w u)
  then show ?case by (simp add: wired_def prefix_next out_done_def)
qed

lemma live_wired: "live as_int ck num clk s \<Longrightarrow> wired s"
proof (induction rule: live.induct)
  case (start db)
  then show ?case by (simp add: wired_def bridge_start_def watch_start_def)
next
  case (step s s')
  from step(2) show ?case
  proof cases
    case calm
    then show ?thesis using calm_wired step.IH by blast
  qed (use step.IH in \<open>auto simp: wired_def out_done_def\<close>)
qed

section \<open>Catching up, end to end\<close>

text \<open>The bridge has passed on everything that arrived, and nothing ends the session.\<close>

definition at_rest :: "(json \<Rightarrow> int option) \<Rightarrow> bridge \<Rightarrow> bool" where
  "at_rest as_int b \<longleftrightarrow> \<not> ending as_int b \<and> br_inbound b = inbound_pc.Reading \<and> br_outbound b = Iterating
     \<and> br_frames b = [] \<and> br_updates b = [] \<and> br_queue b = []"

definition bridge_pending :: "bridge \<Rightarrow> ws_frame list \<times> stock_update list" where
  "bridge_pending b = (br_read b @ br_frames b, br_served b)"

lemma bridge_advances:
  assumes "bridged as_int b" "\<not> ending as_int b" "\<not> at_rest as_int b"
  shows "\<exists>b'. bridge_step as_int b b' \<and> \<not> ending as_int b' \<and> bridge_pending b' = bridge_pending b"
proof -
  from assms(2) have running: "br_session b = Waiting" "br_status b = None" "\<not> in_done b" "\<not> out_done b"
    "\<forall>f \<in> set (br_frames b). \<not> final_frame as_int f"
    by (auto simp: ending_def)
  show ?thesis
  proof (cases "br_inbound b")
    case (Replying raw)
    show ?thesis
      by (intro exI conjI, rule bridge_step.inbound [OF inbound_step.reply [OF running(1) Replying]])
        (use running in \<open>auto simp: ending_def in_done_def out_done_def bridge_pending_def\<close>)
  next
    case Reading
    show ?thesis
    proof (cases "br_frames b")
      case (Cons f fs)
      let ?b = "b\<lparr>br_frames := fs, br_read := br_read b @ [f]\<rparr>"
      have "bridge_step as_int b (receive_json as_int f ?b)"
        by (rule bridge_step.inbound [OF inbound_step.read [OF running(1) Reading Cons]])
      moreover have "\<not> ending as_int (receive_json as_int f ?b)
          \<and> bridge_pending (receive_json as_int f ?b) = bridge_pending b"
        using running Cons
        by (cases rule: receive_json_cases [of as_int f ?b])
          (auto simp: ending_def in_done_def out_done_def bridge_pending_def)
      ultimately show ?thesis by blast
    next
      case frames: Nil
      show ?thesis
      proof (cases "br_outbound b")
        case (Forwarding u)
        show ?thesis
          by (intro exI conjI, rule bridge_step.outbound [OF outbound_step.send [OF running(1) Forwarding]])
            (use running in \<open>auto simp: ending_def in_done_def out_done_def bridge_pending_def\<close>)
      next
        case Iterating
        show ?thesis
        proof (cases "br_updates b")
          case (Cons u us)
          show ?thesis
            by (intro exI conjI, rule bridge_step.outbound [OF outbound_step.update [OF running(1) Iterating Cons]])
              (use running in \<open>auto simp: ending_def in_done_def out_done_def bridge_pending_def\<close>)
        next
          case Nil
          have "commands_ok as_int b" using bridged_ok [OF assms(1)] by (simp add: bridge_ok_def)
          with running(3) obtain cs where queue: "br_queue b = map Some cs" "\<not> br_request_closed b"
            by (auto simp: commands_ok_running)
          moreover have "br_queue b \<noteq> []"
            using assms(2,3) Nil Reading Iterating frames by (simp add: at_rest_def)
          ultimately obtain c q where "br_queue b = Some c # q" by (cases cs) auto
          then have "request_step b (b\<lparr>br_queue := q, br_requested := br_requested b @ [c]\<rparr>)"
            using running(2) Iterating queue(2) by (intro request_step.command) simp_all
          from bridge_step.request [OF this] have step: "bridge_step as_int b
              (b\<lparr>br_queue := q, br_requested := br_requested b @ [c]\<rparr>)" .
          show ?thesis
            by (intro exI conjI, rule step)
              (use running in \<open>auto simp: ending_def in_done_def out_done_def bridge_pending_def\<close>)
        qed
      qed (use running in \<open>simp add: out_done_def\<close>)
    qed
  qed (use running in \<open>simp add: in_done_def\<close>)
qed

lemma at_rest_served:
  assumes "bridged as_int b" "at_rest as_int b"
  shows "update_frames (br_socket b) = br_served b" "commands as_int (br_read b) = br_requested b"
    "invalid_frames as_int (br_read b) = error_frames (br_socket b)"
  using assms bridged_ok [OF assms(1)]
  by (auto simp: bridge_ok_def at_rest_def updates_ok_def commands_ok_def errors_ok_def in_done_def)

text \<open>
  What disturbs a live session that nothing has ended: a send to the client fails, the listener
  loses its connection, or a query fails. A steady step of the two services and the two streams
  is one that does none of these, and it works unless it is an idle poll of the generator.
\<close>

definition socket_lost :: "bridge \<Rightarrow> bridge \<Rightarrow> bool" where
  "socket_lost b b' \<longleftrightarrow> (\<exists>raw. br_inbound b = Replying raw) \<and> in_done b'
     \<or> (\<exists>u. br_outbound b = Forwarding u) \<and> out_done b'"

definition live_steady ::
  "(json \<Rightarrow> int option) \<Rightarrow> (string \<Rightarrow> 'k::linorder) \<Rightarrow> py_numbers
     \<Rightarrow> bridge \<times> watch_state \<Rightarrow> bridge \<times> watch_state \<Rightarrow> bool" where
  "live_steady as_int ck num = (\<lambda>(b, w) (b', w').
     calm_step as_int ck num (b, w) (b', w')
     \<and> \<not> socket_lost b b' \<and> \<not> connection_lost w w' \<and> \<not> query_failed w w')"

definition live_works ::
  "(json \<Rightarrow> int option) \<Rightarrow> (string \<Rightarrow> 'k::linorder) \<Rightarrow> py_numbers
     \<Rightarrow> bridge \<times> watch_state \<Rightarrow> bridge \<times> watch_state \<Rightarrow> bool" where
  "live_works as_int ck num = (\<lambda>(b, w) (b', w').
     live_steady as_int ck num (b, w) (b', w') \<and> \<not> (idle w \<and> generator w' \<noteq> generator w))"

text \<open>Nothing is left to do on either side or between them.\<close>

definition settled :: "(json \<Rightarrow> int option) \<Rightarrow> bridge \<times> watch_state \<Rightarrow> bool" where
  "settled as_int = (\<lambda>(b, w). at_rest as_int b \<and> received w = br_requested b \<and> caught_up w
     \<and> br_served b = sent w)"

text \<open>
  The frames are read and answered, and the last update frame of every product that the client
  watches carries the quantity that is available.
\<close>

definition client_sees_stock :: "(json \<Rightarrow> int option) \<Rightarrow> bridge \<times> watch_state \<Rightarrow> bool" where
  "client_sees_stock as_int = (\<lambda>(b, w).
     error_frames (br_socket b) = invalid_frames as_int (br_read b)
     \<and> (\<forall>pid \<in> watched_by (commands as_int (br_read b)). \<forall>p. product_get pid (database w) = Some p \<longrightarrow>
          last_sent pid (update_frames (br_socket b)) = Some (p_available p)))"

text \<open>A session that runs: it may go on as long as no frame, status or stop comes from outside.\<close>

definition running :: "(json \<Rightarrow> int option) \<Rightarrow> (string \<Rightarrow> 'k::linorder) \<Rightarrow> py_numbers \<Rightarrow> (int \<Rightarrow> int)
    \<Rightarrow> bridge \<times> watch_state \<Rightarrow> bool" where
  "running as_int ck num clk = (\<lambda>(b, w). live as_int ck num clk (b, w) \<and> \<not> ending as_int b \<and> \<not> stop w)"

lemma runningD:
  assumes "running as_int ck num clk (b, w)"
  shows "live as_int ck num clk (b, w)" "bridged as_int b" "watched ck num clk w" "watch_ok w"
    "\<not> ending as_int b" "\<not> stop w" "rpc_active w" "reader w = reader_pc.Reading"
    "prefix (received w) (br_requested b)" "prefix (br_served b) (sent w)"
proof -
  have live: "live as_int ck num clk (b, w)" and on: "\<not> ending as_int b" "\<not> stop w"
    using assms by (simp_all add: running_def)
  have sides: "bridged as_int b" "watched ck num clk w" using live_sides [OF live] by (simp_all add: sides_def)
  have wired: "prefix (received w) (br_requested b)" "prefix (br_served b) (sent w)"
    "rpc_active w \<or> br_status b \<noteq> None \<or> out_done b"
    using live_wired [OF live] by (simp_all add: wired_def)
  note ok = watched_ok [OF sides(2)]
  have "rpc_active w" using wired(3) on(1) by (auto simp: ending_def)
  moreover have "reader w = reader_pc.Reading" using ok on(2) by (cases "reader w") (auto simp: watch_ok_def)
  ultimately show "live as_int ck num clk (b, w)" "bridged as_int b" "watched ck num clk w" "watch_ok w"
    "\<not> ending as_int b" "\<not> stop w" "rpc_active w" "reader w = reader_pc.Reading"
    "prefix (received w) (br_requested b)" "prefix (br_served b) (sent w)"
    using live on sides ok wired by blast+
qed

text \<open>The work left: before the servicer, in it, and after it.\<close>

definition inbound_left :: "bridge \<Rightarrow> nat" where
  "inbound_left b = 4 * length (br_frames b) + length (br_queue b)
     + (case br_inbound b of Replying _ \<Rightarrow> 1 | _ \<Rightarrow> 0)"

definition outbound_left :: "bridge \<Rightarrow> nat" where
  "outbound_left b = 2 * length (br_updates b) + (case br_outbound b of Forwarding _ \<Rightarrow> 1 | _ \<Rightarrow> 0)"

definition live_left :: "bridge \<times> watch_state \<Rightarrow> nat \<times> nat \<times> (nat \<times> nat \<times> nat \<times> nat) \<times> nat \<times> nat" where
  "live_left = (\<lambda>(b, w). (inbound_left b, length (br_requested b) - length (received w), watch_left w,
     length (sent w) - length (br_served b), outbound_left b))"

abbreviation live_less where
  "live_less \<equiv> less_than <*lex*> less_than <*lex*> watch_less <*lex*> less_than <*lex*> less_than"

lemma wf_live_less: "wf live_less"
  by (intro wf_lex_prod wf_watch_less wf_less_than)

definition bridge_uses :: "bridge \<Rightarrow> bridge \<Rightarrow> bool" where
  "bridge_uses b b' \<longleftrightarrow> inbound_left b' < inbound_left b
     \<or> inbound_left b' = inbound_left b \<and> br_requested b' = br_requested b \<and> outbound_left b' < outbound_left b"

lemma inbound_steady:
  assumes "inbound_step as_int b b'" "\<not> ending as_int b" "\<not> socket_lost b b'"
  shows "\<not> ending as_int b' \<and> bridge_pending b' = bridge_pending b \<and> bridge_uses b b'"
  using assms
proof (induction rule: inbound_step.induct)
  case (read b f fs)
  let ?b = "b\<lparr>br_frames := fs, br_read := br_read b @ [f]\<rparr>"
  show ?case
    by (cases rule: receive_json_cases [of as_int f ?b])
      (use read in \<open>auto simp: ending_def in_done_def out_done_def bridge_pending_def bridge_uses_def inbound_left_def\<close>)
qed (auto simp: ending_def in_done_def out_done_def bridge_pending_def bridge_uses_def inbound_left_def socket_lost_def)

lemma request_steady:
  assumes "request_step b b'" "\<not> ending as_int b"
  shows "\<not> ending as_int b' \<and> bridge_pending b' = bridge_pending b \<and> bridge_uses b b'"
  using assms
  by (induction rule: request_step.induct)
    (auto simp: ending_def in_done_def out_done_def bridge_pending_def bridge_uses_def inbound_left_def)

lemma outbound_steady:
  assumes "outbound_step b b'" "\<not> ending as_int b" "\<not> socket_lost b b'"
  shows "\<not> ending as_int b' \<and> bridge_pending b' = bridge_pending b \<and> bridge_uses b b'"
  using assms
  by (induction rule: outbound_step.induct)
    (auto simp: ending_def in_done_def out_done_def bridge_pending_def bridge_uses_def inbound_left_def
      outbound_left_def socket_lost_def)

lemma session_steady: "session_step b b' \<Longrightarrow> ending as_int b"
  by (induction rule: session_step.induct) (auto simp: ending_def in_done_def out_done_def)

lemma bridge_steady:
  assumes "bridge_step as_int b b'" "\<not> ending as_int b" "\<not> socket_lost b b'"
  shows "\<not> ending as_int b' \<and> bridge_pending b' = bridge_pending b \<and> bridge_uses b b'"
  using assms(1)
proof cases
  case inbound
  then show ?thesis by (rule inbound_steady [OF _ assms(2,3)])
next
  case request
  then show ?thesis by (rule request_steady [OF _ assms(2)])
next
  case outbound
  then show ?thesis by (rule outbound_steady [OF _ assms(2,3)])
next
  case session
  then show ?thesis using session_steady assms(2) by blast
qed

lemma live_works_steady: "(live_works as_int ck num)\<^sup>*\<^sup>* s s' \<Longrightarrow> (live_steady as_int ck num)\<^sup>*\<^sup>* s s'"
  by (induction rule: rtranclp_induct) (auto simp: live_works_def intro: rtranclp.rtrancl_into_rtrancl)

text \<open>What a steady step keeps, and what it uses up.\<close>

definition same_shop :: "bridge \<times> watch_state \<Rightarrow> bridge \<times> watch_state \<Rightarrow> bool" where
  "same_shop = (\<lambda>(b, w) (b', w'). database w' = database w
     \<and> br_read b' @ br_frames b' = br_read b @ br_frames b)"

lemma live_steady_cases [consumes 2, case_names bridge threads command update]:
  assumes "live_steady as_int ck num (b, w) (b', w')" "running as_int ck num clk (b, w)"
  obtains (bridge) "bridge_step as_int b b'" "w' = w" "\<not> ending as_int b'" "bridge_pending b' = bridge_pending b"
      "bridge_uses b b'"
  | (threads) "steady_step ck num w w'" "b' = b" "same_outside w w'"
  | (command) "length (received w) < length (br_requested b)" "b' = b"
      "w' = drain_command (br_requested b ! length (received w)) w"
  | (update) u where "length (br_served b) < length (sent w)" "u = sent w ! length (br_served b)" "w' = w"
      "b' = b\<lparr>br_updates := br_updates b @ [u], br_served := br_served b @ [u]\<rparr>"
proof -
  note on = runningD [OF assms(2)]
  have quiet: "\<not> socket_lost b b'" "\<not> connection_lost w w'" "\<not> query_failed w w'"
    and "calm_step as_int ck num (b, w) (b', w')"
    using assms(1) by (simp_all add: live_steady_def)
  from this(4) show ?thesis
  proof cases
    case bridge
    then show ?thesis using that(1) bridge_steady [OF bridge(2) on(5) quiet(1)] by blast
  next
    case threads
    then have "steady_step ck num w w'" using quiet by (simp add: steady_step_def)
    then show ?thesis using that(2) threads steady_same [OF _ on(4,7,6)] by blast
  next
    case command
    then show ?thesis using that(3) by blast
  next
    case (update u)
    then show ?thesis using that(4) by blast
  qed
qed

lemma steady_running:
  assumes "live_steady as_int ck num s s'" "running as_int ck num clk s"
  shows "running as_int ck num clk s'" "same_shop s s'"
proof -
  obtain b w b' w' where s: "s = (b, w)" "s' = (b', w')" by (metis surj_pair)
  have "live as_int ck num clk s'"
    using assms live.step [OF _ live_step.calm] by (auto simp: s live_steady_def running_def)
  moreover have "\<not> ending as_int b' \<and> \<not> stop w' \<and> same_shop (b, w) (b', w')"
    using assms unfolding s
  proof (cases rule: live_steady_cases)
    case bridge
    then show ?thesis using assms(2) by (simp add: s running_def same_shop_def bridge_pending_def)
  next
    case threads
    then show ?thesis using assms(2) by (simp add: s running_def same_shop_def same_outside_def)
  next
    case command
    then show ?thesis using assms(2) by (simp add: s running_def same_shop_def)
  next
    case (update u)
    then show ?thesis using assms(2) by (simp add: s running_def same_shop_def ending_def in_done_def out_done_def)
  qed
  ultimately show "running as_int ck num clk s'" "same_shop s s'" by (simp_all add: s running_def)
qed

lemma live_works_less:
  assumes "live_works as_int ck num s s'" "running as_int ck num clk s"
  shows "(live_left s', live_left s) \<in> live_less"
proof -
  obtain b w b' w' where s: "s = (b, w)" "s' = (b', w')" by (metis surj_pair)
  have steady: "live_steady as_int ck num (b, w) (b', w')" and moved: "\<not> (idle w \<and> generator w' \<noteq> generator w)"
    using assms(1) by (simp_all add: s live_works_def)
  note on = runningD [OF assms(2) [unfolded s]]
  from steady assms(2) [unfolded s] show ?thesis
  proof (cases rule: live_steady_cases)
    case bridge
    then show ?thesis by (auto simp: s live_left_def bridge_uses_def bridge_pending_def)
  next
    case threads
    have "works ck num w w'" using threads(1) moved by (simp add: works_def)
    then show ?thesis using works_less [OF \<open>works ck num w w'\<close> on(4,7,6)] threads by (simp add: s live_left_def same_outside_def)
  next
    case command
    then show ?thesis by (auto simp: s live_left_def)
  next
    case (update u)
    then show ?thesis by (auto simp: s live_left_def inbound_left_def)
  qed
qed

lemma live_poll_same:
  assumes "live_steady as_int ck num s s'" "\<not> live_works as_int ck num s s'" "running as_int ck num clk s"
  shows "live_left s' = live_left s"
proof -
  obtain b w b' w' where s: "s = (b, w)" "s' = (b', w')" by (metis surj_pair)
  have poll: "idle w" "generator w' \<noteq> generator w" using assms(1,2) by (auto simp: s live_works_def)
  note on = runningD [OF assms(3) [unfolded s]]
  from assms(1,3) [unfolded s] show ?thesis
  proof (cases rule: live_steady_cases)
    case threads
    have "\<not> works ck num w w'" using poll by (simp add: works_def)
    then show ?thesis using poll_same [OF threads(1) _ on(4,7,6)] threads(2,3) by (simp add: s live_left_def same_outside_def)
  qed (use poll in simp_all)
qed

lemma settled_stays:
  assumes "live_steady as_int ck num s s'" "settled as_int s" "running as_int ck num clk s"
  shows "settled as_int s'"
proof -
  obtain b w b' w' where s: "s = (b, w)" "s' = (b', w')" by (metis surj_pair)
  have left: "received w = br_requested b" "br_served b = sent w" "at_rest as_int b" "caught_up w"
    using assms(2) by (simp_all add: s settled_def)
  note on = runningD [OF assms(3) [unfolded s]]
  from assms(1,3) [unfolded s] show ?thesis
  proof (cases rule: live_steady_cases)
    case bridge
    have "inbound_left b = 0" "outbound_left b = 0"
      using left(3) by (simp_all add: at_rest_def inbound_left_def outbound_left_def)
    then show ?thesis using bridge(5) by (simp add: bridge_uses_def)
  next
    case threads
    then show ?thesis
      using caught_up_stays [OF threads(1) on(4,7,6) left(4)] left by (simp add: s settled_def same_outside_def)
  qed (use left in simp_all)
qed

lemma live_works_possible:
  assumes "running as_int ck num clk s" "\<not> settled as_int s"
  shows "\<exists>s'. live_works as_int ck num s s'"
proof -
  obtain b w where s: "s = (b, w)" by (metis surj_pair)
  note on = runningD [OF assms(1) [unfolded s]]
  have stays: "\<not> connection_lost w w" "\<not> query_failed w w" for w
    by (auto simp: connection_lost_def query_failed_def)
  have calm: "live_works as_int ck num (b, w) (b', w)"
    if "calm_step as_int ck num (b, w) (b', w)" "\<not> socket_lost b b'" for b'
    using that stays by (simp add: live_works_def live_steady_def)
  have bridge_stays: "\<not> socket_lost b b"
    using on(5) by (auto simp: socket_lost_def ending_def)
  consider "\<not> at_rest as_int b" | "received w \<noteq> br_requested b" | "\<not> caught_up w" | "br_served b \<noteq> sent w"
    using assms(2) by (auto simp: s settled_def)
  then show ?thesis
    unfolding s
  proof cases
    case 1
    then obtain b' where b': "bridge_step as_int b b'" "\<not> ending as_int b'"
      using bridge_advances [OF on(2,5)] by blast
    then have "\<not> socket_lost b b'" by (auto simp: socket_lost_def ending_def)
    then show "\<exists>s'. live_works as_int ck num (b, w) s'" using calm [OF calm_step.bridge [OF b'(1)]] by blast
  next
    case 2
    then have less: "length (received w) < length (br_requested b)"
      using on(9) by (auto simp: prefix_def)
    let ?w = "drain_command (br_requested b ! length (received w)) w"
    show "\<exists>s'. live_works as_int ck num (b, w) s'"
      using calm_step.command [OF on(8) less, of as_int ck num] bridge_stays stays [of w]
      by (intro exI [of _ "(b, ?w)"]) (simp add: live_works_def live_steady_def connection_lost_def query_failed_def)
  next
    case 3
    then obtain w' where "works ck num w w'" using works_possible [OF on(4,7,6)] by blast
    then show "\<exists>s'. live_works as_int ck num (b, w) s'"
      using bridge_stays
      by (intro exI [of _ "(b, w')"])
        (auto simp: live_works_def live_steady_def works_def steady_step_def intro: calm_step.threads)
  next
    case 4
    then have less: "length (br_served b) < length (sent w)" using on(10) by (auto simp: prefix_def)
    have "br_status b = None" using on(5) by (simp add: ending_def)
    from calm [OF calm_step.update [OF this less refl]] show "\<exists>s'. live_works as_int ck num (b, w) s'"
      using on(5) by (auto simp: socket_lost_def ending_def in_done_def out_done_def)
  qed
qed

lemma live_settles:
  assumes "running as_int ck num clk s"
  shows "\<exists>s'. (live_works as_int ck num)\<^sup>*\<^sup>* s s' \<and> settled as_int s'"
proof -
  have "wf (inv_image live_less live_left)" by (rule wf_inv_image [OF wf_live_less])
  then show ?thesis
    using assms
  proof (induction s rule: wf_induct_rule)
    case (less s)
    show ?case
    proof (cases "settled as_int s")
      case False
      obtain t where t: "live_works as_int ck num s t" using live_works_possible [OF less.prems False] by blast
      then have "live_steady as_int ck num s t" by (auto simp: live_works_def)
      note on = steady_running(1) [OF this less.prems]
      have "\<exists>s'. (live_works as_int ck num)\<^sup>*\<^sup>* t s' \<and> settled as_int s'"
        by (rule less.IH [OF _ on]) (use live_works_less [OF t less.prems] in simp)
      with t show ?thesis by (meson converse_rtranclp_into_rtranclp)
    qed blast
  qed
qed

lemma steady_run_running:
  assumes "(live_steady as_int ck num)\<^sup>*\<^sup>* s s'" "running as_int ck num clk s"
  shows "running as_int ck num clk s' \<and> same_shop s s'"
  using assms(1)
proof (induction rule: rtranclp_induct)
  case base
  then show ?case using assms(2) by (auto simp: same_shop_def)
next
  case (step t u)
  then show ?case using steady_running [OF step(2), of clk] by (auto simp: same_shop_def)
qed

text \<open>When nothing is left, the client sees the stock.\<close>

lemma settled_sees:
  assumes "settled as_int s" "live as_int ck num clk s" "\<not> stop (snd s)"
  shows "client_sees_stock as_int s"
proof -
  obtain b w where s: "s = (b, w)" by (metis surj_pair)
  have left: "received w = br_requested b" "br_served b = sent w" "at_rest as_int b" "caught_up w"
    using assms(1) by (simp_all add: s settled_def)
  have sides: "bridged as_int b" "watched ck num clk w"
    using live_sides [OF assms(2)] by (simp_all add: s sides_def)
  note served = at_rest_served [OF sides(1) left(3)]
  have "watch_set w = watched_by (commands as_int (br_read b))"
    using watched_sent_ok [OF sides(2)] left(1) served(2) by (simp add: sent_ok_def)
  then have "last_sent pid (update_frames (br_socket b)) = Some (p_available p)"
    if "pid \<in> watched_by (commands as_int (br_read b))" "product_get pid (database w) = Some p" for pid p
    using caught_up_shown [OF sides(2) left(4)] assms(3) that served(1) left(2) by (simp add: s)
  then show ?thesis using served(3) by (simp add: s client_sees_stock_def)
qed

lemma settled_read: "settled as_int (b', w') \<Longrightarrow> same_shop (b, w) (b', w')
    \<Longrightarrow> database w' = database w \<and> br_read b' = br_read b @ br_frames b"
  by (simp add: settled_def same_shop_def at_rest_def)

section \<open>Properties\<close>

lemma changes_differ_prefix: "changes_differ (us @ vs) \<Longrightarrow> changes_differ us"
  by (induction vs rule: rev_induct) (simp_all add: changes_differ_snoc flip: append_assoc)

lemma ever_subscribed_mono: "prefix cs ds \<Longrightarrow> ever_subscribed cs \<subseteq> ever_subscribed ds"
  by (auto simp: ever_subscribed_def prefix_def)

text \<open>
  C30: what the WebSocket client is told, end to end. At any moment of a session, through both
  services and whatever the client, the shop and the network do: the servicer acts on the valid
  commands of the frames read, in order; the update frames are, in order and without gaps, the
  first of those the servicer sent; each is for a product that the client subscribed; and a
  \<open>CHANGED\<close> frame never repeats the quantity last shown for its product.
\<close>

theorem live_stock_state:
  assumes "live as_int ck num clk (b, w)"
  shows "prefix (received w) (commands as_int (br_read b))
    \<and> prefix (update_frames (br_socket b)) (sent w)
    \<and> su_product_id ` set (update_frames (br_socket b)) \<subseteq> ever_subscribed (commands as_int (br_read b))
    \<and> changes_differ (update_frames (br_socket b))"
proof -
  from live_sides [OF assms] have sides: "bridged as_int b" "watched ck num clk w" by (simp_all add: sides_def)
  from live_wired [OF assms] have wired: "prefix (received w) (br_requested b)" "prefix (br_served b) (sent w)"
    by (simp_all add: wired_def)
  have ok: "commands_ok as_int b" "updates_ok b" using bridged_ok [OF sides(1)] by (simp_all add: bridge_ok_def)
  have "prefix (br_requested b) (commands as_int (br_read b))" using ok(1) by (auto simp: commands_ok_def)
  with wired(1) have received: "prefix (received w) (commands as_int (br_read b))" by (rule prefix_order.trans)
  have "prefix (update_frames (br_socket b)) (br_served b)"
    using ok(2) by (auto simp: updates_ok_def intro: prefixI [OF sym]
        split: outbound_pc.splits pump_exit.splits pump_error.splits)
  then have frames: "prefix (update_frames (br_socket b)) (sent w)" using wired(2) by (rule prefix_order.trans)
  have sent: "changes_differ (sent w)" "su_product_id ` set (sent w) \<subseteq> ever_subscribed (received w)"
    using watched_sent_ok [OF sides(2)] by (simp_all add: sent_ok_def)
  have "su_product_id ` set (update_frames (br_socket b)) \<subseteq> su_product_id ` set (sent w)"
    using frames by (auto simp: prefix_def)
  then have "su_product_id ` set (update_frames (br_socket b)) \<subseteq> ever_subscribed (commands as_int (br_read b))"
    using sent(2) ever_subscribed_mono [OF received] by blast
  moreover have "changes_differ (update_frames (br_socket b))"
    using sent(1) frames changes_differ_prefix by (auto simp: prefix_def)
  ultimately show ?thesis using received frames by blast
qed

text \<open>
  C29: the client ends up seeing the true stock. Take any state of a live session in which nothing
  has ended it, whatever happened before (sales, lost connections of the listener, commands in any
  order). If nothing is left to do on either side, the client sees the stock: every invalid frame
  is answered, and for every product that it watches the last update frame it was sent carries the
  quantity that is available. If something is, the two services' own steps, none of which loses a
  connection or fails a query, lead to such a state, with every frame that had arrived read; and
  every fair run of these steps, in any interleaving, comes to such states and stays in them.
\<close>

theorem live_stock_reaches_client:
  assumes "live as_int ck num clk (b, w)" "\<not> ending as_int b" "\<not> stop w"
  shows "(settled as_int (b, w) \<longrightarrow> client_sees_stock as_int (b, w))
    \<and> (\<exists>b' w'. (live_works as_int ck num)\<^sup>*\<^sup>* (b, w) (b', w') \<and> settled as_int (b', w')
        \<and> client_sees_stock as_int (b', w') \<and> database w' = database w \<and> br_read b' = br_read b @ br_frames b)
    \<and> (\<forall>f. f 0 = (b, w) \<and> fair_run (live_steady as_int ck num) (live_works as_int ck num) f \<longrightarrow>
        (\<exists>m. \<forall>k \<ge> m. settled as_int (f k) \<and> client_sees_stock as_int (f k)
            \<and> database (snd (f k)) = database w \<and> br_read (fst (f k)) = br_read b @ br_frames b))"
proof (intro conjI allI impI)
  show "settled as_int (b, w) \<Longrightarrow> client_sees_stock as_int (b, w)"
    using settled_sees [OF _ assms(1)] assms(3) by simp
next
  have on: "running as_int ck num clk (b, w)" using assms by (simp add: running_def)
  obtain b' w' where s': "(live_works as_int ck num)\<^sup>*\<^sup>* (b, w) (b', w')" "settled as_int (b', w')"
    using live_settles [OF on] by (metis surj_pair)
  have "(live_steady as_int ck num)\<^sup>*\<^sup>* (b, w) (b', w')"
    using s'(1) by (rule live_works_steady)
  note on' = steady_run_running [OF this on]
  then have "client_sees_stock as_int (b', w')" by (intro settled_sees [OF s'(2)]) (auto simp: running_def)
  then show "\<exists>b' w'. (live_works as_int ck num)\<^sup>*\<^sup>* (b, w) (b', w') \<and> settled as_int (b', w')
      \<and> client_sees_stock as_int (b', w') \<and> database w' = database w \<and> br_read b' = br_read b @ br_frames b"
    using s' on' settled_read by blast
next
  fix f assume run: "f 0 = (b, w) \<and> fair_run (live_steady as_int ck num) (live_works as_int ck num) f"
  have "running as_int ck num clk (b, w)" using assms by (simp add: running_def)
  then have on: "running as_int ck num clk (f k) \<and> same_shop (b, w) (f k)" for k
    using fair_run_prefix [of "live_steady as_int ck num" "live_works as_int ck num" f k]
      steady_run_running [of as_int ck num "(b, w)" "f k" clk] run by simp
  have "\<exists>m. \<forall>k \<ge> m. settled as_int (f k)"
  proof (rule fair_run_settles [of _ _ f, OF conjunct2 [OF run] wf_live_less,
          of "running as_int ck num clk" live_left])
    show "running as_int ck num clk (f k)" for k using on by blast
  next
    show "(live_left t', live_left t) \<in> live_less"
      if "running as_int ck num clk t" "live_works as_int ck num t t'" for t t'
      by (rule live_works_less [OF that(2,1)])
  next
    show "live_left t' = live_left t"
      if "running as_int ck num clk t" "live_steady as_int ck num t t'" "\<not> live_works as_int ck num t t'" for t t'
      by (rule live_poll_same [OF that(2,3,1)])
  next
    show "\<exists>t'. live_works as_int ck num t t'"
      if "running as_int ck num clk t" "\<not> settled as_int t" for t
      by (rule live_works_possible [OF that])
  next
    show "settled as_int t'"
      if "running as_int ck num clk t" "live_steady as_int ck num t t'" "settled as_int t" for t t'
      by (rule settled_stays [OF that(2,3,1)])
  qed
  then obtain m where m: "\<And>k. m \<le> k \<Longrightarrow> settled as_int (f k)" by blast
  have "settled as_int (f k) \<and> client_sees_stock as_int (f k)
      \<and> database (snd (f k)) = database w \<and> br_read (fst (f k)) = br_read b @ br_frames b" if "m \<le> k" for k
    using m [OF that] on [of k] settled_sees [of as_int "f k" ck num clk] settled_read [of as_int "fst (f k)" "snd (f k)"]
    by (cases "f k") (auto simp: running_def)
  then show "\<exists>m. \<forall>k \<ge> m. settled as_int (f k) \<and> client_sees_stock as_int (f k)
      \<and> database (snd (f k)) = database w \<and> br_read (fst (f k)) = br_read b @ br_frames b" by blast
qed

section \<open>Witnesses\<close>

lemma demo_live: "live as_int ck num clk (demo_bridge fs, watch_start demo_db)"
proof (induction fs rule: rev_induct)
  case Nil
  then show ?case using live.start [OF demo_watchable] by (simp add: demo_bridge_def bridge_start_def)
next
  case (snoc f fs)
  from live.step [OF this live_step.frame [of _ _ _ _ _ _ f]] show ?case by (simp add: demo_bridge_def)
qed

lemma demo_not_ending: "\<not> ending strict_int (demo_bridge [demo_frame])"
  by (simp add: ending_def in_done_def out_done_def final_frame_def demo_judge)
    (simp add: demo_bridge_def bridge_start_def)

lemma demo_running:
  "running strict_int ck num clk (demo_bridge [demo_frame], watch_start demo_db)"
  using demo_live demo_not_ending by (simp add: running_def watch_start_def)

lemma demo_read:
  "br_read (demo_bridge [demo_frame]) @ br_frames (demo_bridge [demo_frame]) = [demo_frame]"
  by (simp add: demo_bridge_def bridge_start_def)

lemma demo_commands: "commands strict_int [demo_frame] = [demo_command]"
  by (simp add: demo_judge)

theorem live_stock_state_witness:
  "\<exists>b w. live strict_int length demo_numbers (\<lambda>i. i) (b, w) \<and> received w = [demo_command]
     \<and> br_read b = [demo_frame] \<and> prefix (received w) (commands strict_int (br_read b))"
proof -
  let ?start = "(demo_bridge [demo_frame], watch_start demo_db)"
  obtain b w where s: "(live_works strict_int length demo_numbers)\<^sup>*\<^sup>* ?start (b, w)" "settled strict_int (b, w)"
    using live_settles [OF demo_running] by (metis surj_pair)
  have "(live_steady strict_int length demo_numbers)\<^sup>*\<^sup>* ?start (b, w)"
    using s(1) by (rule live_works_steady)
  from steady_run_running [OF this demo_running [of _ _ "\<lambda>i. i"]]
  have on: "running strict_int length demo_numbers (\<lambda>i. i) (b, w)" "same_shop ?start (b, w)" by simp_all
  have read: "br_read b = [demo_frame]" using settled_read [OF s(2) on(2)] demo_read by simp
  note served = at_rest_served(2) [OF runningD(2) [OF on(1)]]
  have "received w = [demo_command]"
    using s(2) served read demo_commands by (simp add: settled_def)
  then show ?thesis using live_stock_state [OF runningD(1) [OF on(1)]] runningD(1) [OF on(1)] read by blast
qed

theorem live_stock_reaches_client_witness:
  "\<exists>b w. (live_works strict_int length demo_numbers)\<^sup>*\<^sup>* (demo_bridge [demo_frame], watch_start demo_db) (b, w)
     \<and> last_sent 3 (update_frames (br_socket b)) = Some 10 \<and> last_sent 1 (update_frames (br_socket b)) = Some 100"
proof -
  have "\<not> stop (watch_start demo_db)" by (simp add: watch_start_def)
  from live_stock_reaches_client [OF demo_live [of strict_int length demo_numbers "\<lambda>i. i"] demo_not_ending this]
  obtain b w where run: "(live_works strict_int length demo_numbers)\<^sup>*\<^sup>*
      (demo_bridge [demo_frame], watch_start demo_db) (b, w)"
    and sees: "client_sees_stock strict_int (b, w)" "database w = demo_db" "br_read b = [demo_frame]"
    unfolding demo_read by (auto simp: watch_start_def)
  have "watched_by [demo_command] = {3, 1}" by (simp add: watched_by_def demo_command_def)
  moreover have "map_option p_available (product_get 3 demo_db) = Some 10"
    "map_option p_available (product_get 1 demo_db) = Some 100" by (simp_all add: demo_db_def product_get_def)
  ultimately show ?thesis
    using run sees
    by (intro exI [of _ b] exI [of _ w])
      (auto simp: client_sees_stock_def demo_commands simp del: commands.simps)
qed

end
