(* ===== verification/SeedData.thy ===== *)
theory SeedData
  imports InventoryLedger
begin

text \<open>
  The data migration \<^verbatim>\<open>0002_seed_products.py\<close>: the demonstration catalogue, its insertion and
  its removal. The state is the database with the next value of the id sequence of the product
  table; the notify trigger of migration 0003 fires on updates only, so an insertion is silent.
\<close>

section \<open>The migration\<close>

definition SEED_PRODUCTS :: "(string \<times> string \<times> int) list" where
  "SEED_PRODUCTS =
     [(''SKU-WIDGET'', ''Standard Widget'', 100),
      (''SKU-GADGET'', ''Premium Gadget'', 50),
      (''SKU-GIZMO'', ''Limited Gizmo'', 10)]"

definition get_or_create :: "string \<times> string \<times> int \<Rightarrow> inventory_db \<times> int \<Rightarrow> inventory_db \<times> int" where
  "get_or_create = (\<lambda>(sku, name, quantity) (db, seq).
     if list_ex (\<lambda>p. p_sku p = sku) (products db) then (db, seq)
     else (db\<lparr>products := products db
             @ [\<lparr>p_id = seq, p_sku = sku, p_name = name, p_available = quantity\<rparr>]\<rparr>, seq + 1))"

definition seed_products :: "inventory_db \<times> int \<Rightarrow> inventory_db \<times> int" where
  "seed_products s = fold get_or_create SEED_PRODUCTS s"

text \<open>
  The foreign key of a reservation is \<^verbatim>\<open>PROTECT\<close>: Django refuses to delete a product that any
  reservation refers to, released ones included.
\<close>

datatype delete_error = ProtectedError

definition unseed_products :: "inventory_db \<times> int \<Rightarrow> delete_error + inventory_db \<times> int" where
  "unseed_products = (\<lambda>(db, seq).
     let gone = filter (\<lambda>p. p_sku p \<in> fst ` set SEED_PRODUCTS) (products db) in
     if list_ex (\<lambda>r. r_product r \<in> p_id ` set gone) (reservations db) then Inl ProtectedError
     else Inr (db\<lparr>products := filter (\<lambda>p. p_sku p \<notin> fst ` set SEED_PRODUCTS) (products db)\<rparr>, seq))"

section \<open>One product\<close>

text \<open>The id sequence is ahead of all ids.\<close>

definition seq_ok :: "inventory_db \<times> int \<Rightarrow> bool" where
  "seq_ok = (\<lambda>(db, seq). db_ok db \<and> (\<forall>p \<in> set (products db). p_id p < seq))"

lemma insert_product_ok:
  assumes "seq_ok (db, seq)" "\<forall>p \<in> set (products db). p_sku p \<noteq> sku" "0 \<le> quantity" "quantity \<le> max_int4"
  shows "seq_ok (db\<lparr>products := products db
           @ [\<lparr>p_id = seq, p_sku = sku, p_name = name, p_available = quantity\<rparr>]\<rparr>, seq + 1)"
    (is "seq_ok (?db, _)")
proof -
  have ok: "db_ok db" and ids: "\<forall>p \<in> set (products db). p_id p < seq" using assms(1) by (simp_all add: seq_ok_def)
  let ?new = "\<lparr>p_id = seq, p_sku = sku, p_name = name, p_available = quantity\<rparr>"
  have get: "product_get pid ?db = (if pid = seq then Some ?new else product_get pid db)" for pid
  proof -
    have "find (\<lambda>p. p_id p = pid) (ps @ [?new]) =
        (if pid = seq then Some ?new else find (\<lambda>p. p_id p = pid) ps)" if "\<forall>p \<in> set ps. p_id p < seq" for ps
      using that by (induction ps) auto
    with ids show ?thesis by (simp add: product_get_def)
  qed
  have unknown: "\<not> known db seq" using ids by (auto simp: known_iff)
  have known: "known db pid \<Longrightarrow> known ?db pid" for pid by (simp add: known_def get)
  have "stock ?db pid = (if pid = seq then quantity else stock db pid)" for pid
    using held_unknown [OF ok unknown] by (simp add: stock_def available_def get held_def)
  then have "stock ?db pid \<le> max_int4" for pid using assms(4) stock_bound [OF ok] by simp
  then have "db_ok ?db"
    using db_okD [OF ok] assms(2,3) ids known
    by (intro db_okI) auto
  with ids show ?thesis by (auto simp: seq_ok_def)
qed

definition seedable :: "string \<times> string \<times> int \<Rightarrow> bool" where
  "seedable = (\<lambda>(_, _, quantity). 0 \<le> quantity \<and> quantity \<le> max_int4)"

definition named :: "string \<Rightarrow> inventory_db \<Rightarrow> product list" where
  "named sku db = filter (\<lambda>p. p_sku p = sku) (products db)"

text \<open>\<open>extends s s'\<close>: rows were only added, and nothing else changed.\<close>

definition extends :: "inventory_db \<times> int \<Rightarrow> inventory_db \<times> int \<Rightarrow> bool" where
  "extends = (\<lambda>(db, seq) (db', seq'). seq \<le> seq' \<and>
     (\<exists>ps. db' = db\<lparr>products := products db @ ps\<rparr>))"

lemma extends_refl [simp]: "extends s s"
  by (cases s) (auto simp: extends_def intro!: exI [of _ "[]"])

lemma extends_trans: "extends s t \<Longrightarrow> extends t u \<Longrightarrow> extends s u"
  by (auto simp: extends_def)

lemma get_or_create_ok:
  assumes "seq_ok s" "seedable x"
  shows "seq_ok (get_or_create x s)" and "extends s (get_or_create x s)"
    and "named (fst x) (fst (get_or_create x s)) \<noteq> []"
    and "sku \<noteq> fst x \<Longrightarrow> named sku (fst (get_or_create x s)) = named sku (fst s)"
    and "named (fst x) (fst s) \<noteq> [] \<Longrightarrow> get_or_create x s = s"
proof -
  obtain db seq where s: "s = (db, seq)" by fastforce
  obtain sku' name quantity where x: "x = (sku', name, quantity)" by (cases x)
  show "seq_ok (get_or_create x s)"
    using assms insert_product_ok [of db seq sku' quantity name]
    by (auto simp: s x get_or_create_def seedable_def list_ex_iff)
  show "extends s (get_or_create x s)"
    using extends_refl [of s] by (auto simp: s x get_or_create_def) (auto simp: extends_def)
  show "named (fst x) (fst (get_or_create x s)) \<noteq> []"
    by (auto simp: s x get_or_create_def named_def list_ex_iff filter_empty_conv)
  show "sku \<noteq> fst x \<Longrightarrow> named sku (fst (get_or_create x s)) = named sku (fst s)"
    by (auto simp: s x get_or_create_def named_def)
  show "named (fst x) (fst s) \<noteq> [] \<Longrightarrow> get_or_create x s = s"
    by (auto simp: s x get_or_create_def named_def list_ex_iff filter_empty_conv)
qed

section \<open>All of them\<close>

lemma fold_get_or_create:
  assumes "seq_ok s" "list_all seedable xs"
  shows "seq_ok (fold get_or_create xs s)" "extends s (fold get_or_create xs s)"
    "\<forall>x \<in> set xs. named (fst x) (fst (fold get_or_create xs s)) \<noteq> []"
    "\<forall>sku. sku \<notin> fst ` set xs \<longrightarrow> named sku (fst (fold get_or_create xs s)) = named sku (fst s)"
proof -
  have keep: "named sku (fst t) \<noteq> [] \<Longrightarrow> extends t u \<Longrightarrow> named sku (fst u) \<noteq> []" for sku t u
    by (auto simp: extends_def named_def split: prod.splits)
  from assms have "seq_ok (fold get_or_create xs s) \<and> extends s (fold get_or_create xs s)
    \<and> (\<forall>x \<in> set xs. named (fst x) (fst (fold get_or_create xs s)) \<noteq> [])
    \<and> (\<forall>sku. sku \<notin> fst ` set xs \<longrightarrow> named sku (fst (fold get_or_create xs s)) = named sku (fst s))"
  proof (induction xs arbitrary: s)
    case Nil
    then show ?case by simp
  next
    case (Cons x xs)
    have x: "seedable x" using Cons.prems(2) by simp
    note one = get_or_create_ok [OF Cons.prems(1) x]
    have rest: "list_all seedable xs" using Cons.prems(2) by simp
    note IH = Cons.IH [OF one(1) rest]
    have "extends s (fold get_or_create (x # xs) s)" using IH extends_trans one(2) by simp
    moreover have "named (fst x) (fst (fold get_or_create (x # xs) s)) \<noteq> []"
      using keep [OF one(3)] IH by simp
    ultimately show ?case using IH one(4) by simp
  qed
  then show "seq_ok (fold get_or_create xs s)" "extends s (fold get_or_create xs s)"
    "\<forall>x \<in> set xs. named (fst x) (fst (fold get_or_create xs s)) \<noteq> []"
    "\<forall>sku. sku \<notin> fst ` set xs \<longrightarrow> named sku (fst (fold get_or_create xs s)) = named sku (fst s)"
    by blast+
qed

lemma fold_get_or_create_present:
  "seq_ok s \<Longrightarrow> list_all seedable xs \<Longrightarrow> \<forall>x \<in> set xs. named (fst x) (fst s) \<noteq> [] \<Longrightarrow> fold get_or_create xs s = s"
  by (induction xs) (simp_all add: get_or_create_ok(5))

lemma seedables: "list_all seedable SEED_PRODUCTS"
  by (simp add: SEED_PRODUCTS_def seedable_def max_int4_def)


section \<open>Properties\<close>

definition empty_db :: inventory_db where
  "empty_db = \<lparr>products = [], reservations = [], res_seq = 1, notified = []\<rparr>"

definition seed_skus :: "string set" where
  "seed_skus = fst ` set SEED_PRODUCTS"

lemma length_filter_key: "distinct (map f xs) \<Longrightarrow> length (filter (\<lambda>x. f x = k) xs) \<le> 1"
proof (induction xs)
  case (Cons x xs)
  then show ?case by (cases "f x = k") (auto simp: filter_empty_conv image_iff)
qed simp

lemma unseed_added:
  assumes "seq_ok (db, seq)" "\<forall>p \<in> set (products db). p_sku p \<notin> seed_skus"
    and "\<forall>p \<in> set ps. p_sku p \<in> seed_skus" "seq_ok (db\<lparr>products := products db @ ps\<rparr>, seq')"
  shows "unseed_products (db\<lparr>products := products db @ ps\<rparr>, seq') = Inr (db, seq')"
proof -
  have old: "filter (\<lambda>p. p_sku p \<in> seed_skus) (products db) = []"
      "filter (\<lambda>p. p_sku p \<notin> seed_skus) (products db) = products db"
      "filter (\<lambda>p. p_sku p \<in> seed_skus) ps = ps" "filter (\<lambda>p. p_sku p \<notin> seed_skus) ps = []"
    using assms(2,3) by (auto simp: filter_empty_conv filter_id_conv)
  have "r_product r \<notin> p_id ` set ps" if "r \<in> set (reservations db)" for r
  proof
    assume r: "r_product r \<in> p_id ` set ps"
    have "known db (r_product r)" using assms(1) that db_okD(9) by (auto simp: seq_ok_def)
    then have "r_product r \<in> p_id ` set (products db)" by (simp add: known_iff)
    moreover have "distinct (map p_id (products db @ ps))" using assms(4) by (simp add: seq_ok_def db_ok_def)
    ultimately show False using r by auto
  qed
  then show ?thesis
    using old assms(2) by (auto simp: unseed_products_def Let_def list_ex_iff simp flip: seed_skus_def)
qed

text \<open>
  C33: the seed migration. On any consistent database it keeps the invariant, only adds rows, and
  leaves every sample product sold under its SKU exactly once; running it again changes nothing;
  rolling it back on a database that had none of the SKUs restores it, the id sequence apart;
  and once a reservation refers to a sample product, the rollback is refused. On the empty
  tables it gives the catalogue of three products with 100, 50 and 10 units.
\<close>

theorem seed_migration:
  assumes "seq_ok s"
  shows "seq_ok (seed_products s) \<and> extends s (seed_products s)
    \<and> (\<forall>sku \<in> seed_skus. length (named sku (fst (seed_products s))) = 1)
    \<and> seed_products (seed_products s) = seed_products s
    \<and> ((\<forall>p \<in> set (products (fst s)). p_sku p \<notin> seed_skus) \<longrightarrow>
        unseed_products (seed_products s) = Inr (fst s, snd (seed_products s)))
    \<and> (\<forall>r \<in> set (reservations (fst s)). \<forall>p \<in> set (products (fst s)).
        r_product r = p_id p \<and> p_sku p \<in> seed_skus \<longrightarrow> unseed_products s = Inl ProtectedError)
    \<and> seed_products (empty_db, 1) = (demo_db, 4)"
proof -
  obtain db seq where s: "s = (db, seq)" by fastforce
  note all = fold_get_or_create [OF assms seedables, folded seed_products_def]
  obtain db' seq' ps where seeded: "seed_products s = (db', seq')" "db' = db\<lparr>products := products db @ ps\<rparr>"
    using all(2) by (cases "seed_products s") (auto simp: s extends_def)
  have one: "length (named sku db') = 1" if "sku \<in> seed_skus" for sku
  proof -
    have "named sku db' \<noteq> []" using all(3) that seeded(1) by (auto simp: seed_skus_def)
    moreover have "distinct (map p_sku (products db'))" using all(1) seeded(1) by (simp add: seq_ok_def db_ok_def)
    then have "length (named sku db') \<le> 1" unfolding named_def by (rule length_filter_key)
    ultimately show ?thesis by (simp add: le_Suc_eq)
  qed
  have new: "\<forall>p \<in> set ps. p_sku p \<in> seed_skus"
  proof (rule ballI, rule ccontr)
    fix p assume p: "p \<in> set ps" "p_sku p \<notin> seed_skus"
    then have "named (p_sku p) db' = named (p_sku p) db" using all(4) seeded(1) by (auto simp: s seed_skus_def)
    with p(1) show False by (auto simp: named_def seeded(2) filter_empty_conv)
  qed
  have "seed_products (seed_products s) = seed_products s"
    using fold_get_or_create_present [OF all(1) seedables] all(3) by (simp add: seed_products_def)
  moreover have "unseed_products (seed_products s) = Inr (fst s, snd (seed_products s))"
    if "\<forall>p \<in> set (products (fst s)). p_sku p \<notin> seed_skus"
    using unseed_added [OF assms [unfolded s] _ new, of seq'] that all(1) seeded by (simp add: s)
  moreover have "unseed_products s = Inl ProtectedError" if "r \<in> set (reservations (fst s))"
      "p \<in> set (products (fst s))" "r_product r = p_id p" "p_sku p \<in> seed_skus" for r p
    using that by (auto simp: s unseed_products_def Let_def list_ex_iff simp flip: seed_skus_def)
  moreover have "seed_products (empty_db, 1) = (demo_db, 4)"
    by (simp add: seed_products_def SEED_PRODUCTS_def get_or_create_def empty_db_def demo_db_def)
  ultimately show ?thesis using all(1,2) one seeded(1) by auto
qed

theorem seed_migration_witness:
  "seed_products (seed_products (demo_db, 4)) = seed_products (demo_db, 4)
    \<and> unseed_products (seed_products (empty_db, 1)) = Inr (empty_db, 4)"
proof -
  have "seq_ok (demo_db, 4)" by (simp add: seq_ok_def demo_db_ok) (simp add: demo_db_def)
  moreover have "seq_ok (empty_db, 1)"
    by (simp add: seq_ok_def db_ok_def empty_db_def index_ok_def)
  ultimately show ?thesis
    using seed_migration [of "(demo_db, 4)"] seed_migration [of "(empty_db, 1)"] by (simp add: empty_db_def)
qed

end
