(* ===== verification/ServiceConfig.thy ===== *)
theory ServiceConfig
  imports GrpcClient
begin

text \<open>
  How the two services are configured and run: the environment variables of
  \<^verbatim>\<open>inventory_project/settings.py\<close> and \<^verbatim>\<open>core/config.py\<close>, the channel target of
  \<^verbatim>\<open>build_channel\<close>, the life of the gRPC server process with its health probe
  (\<^verbatim>\<open>grpc_server/server.py\<close>, \<^verbatim>\<open>healthcheck.py\<close>), and the readiness probe of \<^verbatim>\<open>main.py\<close>.
  The health service of the grpc library is a parameter with the contract \<open>health_contract\<close>;
  \<^verbatim>\<open>float\<close> of a text is a parameter.
\<close>

section \<open>Texts\<close>

type_synonym environment = "string \<Rightarrow> string option"

definition environ_get :: "environment \<Rightarrow> string \<Rightarrow> string \<Rightarrow> string" where
  "environ_get env name fallback = (case env name of None \<Rightarrow> fallback | Some v \<Rightarrow> v)"

text \<open>\<^verbatim>\<open>str.strip\<close>, \<^verbatim>\<open>str.lower\<close> and \<^verbatim>\<open>str.split(",")\<close> on the characters of the model.\<close>

definition is_space :: "char \<Rightarrow> bool" where
  "is_space c \<longleftrightarrow> (of_char c :: nat) \<in> {9, 10, 11, 12, 13, 28, 29, 30, 31, 32, 133, 160}"

definition strip :: "string \<Rightarrow> string" where
  "strip s = rev (dropWhile is_space (rev (dropWhile is_space s)))"

definition lower_char :: "char \<Rightarrow> char" where
  "lower_char c =
     (let n = (of_char c :: nat) in
      if 65 \<le> n \<and> n \<le> 90 \<or> 192 \<le> n \<and> n \<le> 222 \<and> n \<noteq> 215 then char_of (n + 32) else c)"

text \<open>\<^verbatim>\<open>str.upper\<close>, but for the three characters whose capitals lie outside the model's range.\<close>

definition upper_char :: "char \<Rightarrow> char" where
  "upper_char c =
     (let n = (of_char c :: nat) in
      if 97 \<le> n \<and> n \<le> 122 \<or> 224 \<le> n \<and> n \<le> 254 \<and> n \<noteq> 247 then char_of (n - 32) else c)"

fun split_comma :: "string \<Rightarrow> string list" where
  "split_comma [] = [[]]"
| "split_comma (c # s) =
     (if c = CHR '','' then [] # split_comma s
      else (case split_comma s of [] \<Rightarrow> [[c]] | t # ts \<Rightarrow> (c # t) # ts))"

text \<open>\<^verbatim>\<open>int\<close> of a text: a sign, digits, and single underscores between digits.\<close>

fun read_digits :: "bool \<Rightarrow> int \<Rightarrow> string \<Rightarrow> int option" where
  "read_digits after_digit n [] = (if after_digit then Some n else None)"
| "read_digits after_digit n (c # s) =
     (let d = (of_char c :: nat) in
      if 48 \<le> d \<and> d \<le> 57 then read_digits True (10 * n + (int d - 48)) s
      else if c = CHR ''_'' \<and> after_digit then read_digits False n s
      else None)"

text \<open>More digits than \<^verbatim>\<open>sys.int_max_str_digits\<close>, 4300 by default, are a \<^verbatim>\<open>ValueError\<close> too.\<close>

definition digit_count :: "string \<Rightarrow> nat" where
  "digit_count s = length (filter (\<lambda>c. (of_char c :: nat) \<in> {48..57}) s)"

definition int_of_text :: "string \<Rightarrow> int option" where
  "int_of_text s =
     (case strip s of
        [] \<Rightarrow> None
      | c # r \<Rightarrow>
          if 4300 < digit_count (c # r) then None
          else if c = CHR ''-'' then map_option uminus (read_digits False 0 r)
          else if c = CHR ''+'' then read_digits False 0 r
          else read_digits False 0 (c # r))"

section \<open>The settings of the inventory service\<close>

definition env_bool :: "environment \<Rightarrow> string \<Rightarrow> bool \<Rightarrow> bool" where
  "env_bool env name fallback =
     (map lower_char (strip (environ_get env name (if fallback then ''True'' else ''False'')))
        \<in> {''1'', ''true'', ''yes'', ''on''})"

record database_settings =
  db_name :: string
  db_user :: string
  db_password :: string
  db_host :: string
  db_port :: string

record 'f inventory_settings =
  SECRET_KEY :: string
  DEBUG :: bool
  ALLOWED_HOSTS :: "string list"
  DATABASES :: database_settings
  GRPC_AUTH_TOKEN :: string
  GRPC_PORT :: string
  GRPC_MAX_WORKERS :: int
  GRPC_WATCH_TICK_SECONDS :: 'f
  LOG_LEVEL :: string

text \<open>\<open>None\<close> when the import of the module raises: a number that does not parse.\<close>

definition inventory_settings_of ::
  "(string \<Rightarrow> 'f option) \<Rightarrow> environment \<Rightarrow> 'f inventory_settings option" where
  "inventory_settings_of to_float env =
     (case (int_of_text (environ_get env ''GRPC_MAX_WORKERS'' ''10''),
            to_float (environ_get env ''GRPC_WATCH_TICK_SECONDS'' ''1.0'')) of
        (Some workers, Some tick) \<Rightarrow> Some
          \<lparr>SECRET_KEY = environ_get env ''DJANGO_SECRET_KEY'' ''dev-insecure-change-me'',
           DEBUG = env_bool env ''DJANGO_DEBUG'' False,
           ALLOWED_HOSTS = split_comma (environ_get env ''DJANGO_ALLOWED_HOSTS'' ''*''),
           DATABASES = \<lparr>db_name = environ_get env ''POSTGRES_DB'' ''inventory'',
             db_user = environ_get env ''POSTGRES_USER'' ''inventory'',
             db_password = environ_get env ''POSTGRES_PASSWORD'' '''',
             db_host = environ_get env ''POSTGRES_HOST'' ''inventory-db'',
             db_port = environ_get env ''POSTGRES_PORT'' ''5432''\<rparr>,
           GRPC_AUTH_TOKEN = environ_get env ''GRPC_AUTH_TOKEN'' '''',
           GRPC_PORT = environ_get env ''GRPC_PORT'' ''50051'',
           GRPC_MAX_WORKERS = workers,
           GRPC_WATCH_TICK_SECONDS = tick,
           LOG_LEVEL = map upper_char (environ_get env ''LOG_LEVEL'' ''INFO'')\<rparr>
      | _ \<Rightarrow> None)"

text \<open>The dictionary \<^verbatim>\<open>LOGGING\<close>: formatters, handlers with class and formatter, loggers.\<close>

record logger_config =
  lc_handlers :: "string list"
  lc_level :: string
  lc_propagate :: bool

record logging_config =
  lg_version :: int
  lg_disable_existing_loggers :: bool
  lg_formatters :: "(string \<times> string) list"
  lg_handlers :: "(string \<times> string \<times> string) list"
  lg_loggers :: "(string \<times> logger_config) list"

definition LOGGING :: "'f inventory_settings \<Rightarrow> logging_config" where
  "LOGGING st =
     \<lparr>lg_version = 1, lg_disable_existing_loggers = False,
      lg_formatters = [(''standard'', ''%(asctime)s %(levelname)s %(name)s: %(message)s'')],
      lg_handlers = [(''console'', ''logging.StreamHandler'', ''standard'')],
      lg_loggers = [(''inventory'', \<lparr>lc_handlers = [''console''], lc_level = LOG_LEVEL st, lc_propagate = False\<rparr>)]\<rparr>"

text \<open>
  What \<^verbatim>\<open>logging.config.dictConfig\<close>, which \<^verbatim>\<open>django.setup\<close> calls, accepts without raising
  \<^verbatim>\<open>ValueError\<close>: version 1, known formatters, handlers and levels.
\<close>

definition level_names :: "string list" where
  "level_names = [''CRITICAL'', ''FATAL'', ''ERROR'', ''WARNING'', ''WARN'', ''INFO'', ''DEBUG'', ''NOTSET'']"

definition dict_config_accepts :: "logging_config \<Rightarrow> bool" where
  "dict_config_accepts lg \<longleftrightarrow>
     lg_version lg = 1
     \<and> list_all (\<lambda>(_, _, formatter). formatter \<in> set (map fst (lg_formatters lg))) (lg_handlers lg)
     \<and> list_all (\<lambda>(_, c). set (lc_handlers c) \<subseteq> set (map fst (lg_handlers lg)) \<and> lc_level c \<in> set level_names)
         (lg_loggers lg)"

lemma LOGGING_accepted: "dict_config_accepts (LOGGING st) \<longleftrightarrow> LOG_LEVEL st \<in> set level_names"
  by (simp add: dict_config_accepts_def LOGGING_def)

section \<open>The settings of the order service\<close>

record 'f order_settings =
  postgres :: database_settings
  inventory_grpc_targets :: string
  grpc_auth_token :: string
  grpc_deadline_seconds :: 'f

definition order_settings_of :: "(string \<Rightarrow> 'f option) \<Rightarrow> environment \<Rightarrow> 'f order_settings option" where
  "order_settings_of to_float env =
     (case to_float (environ_get env ''GRPC_DEADLINE_SECONDS'' ''5.0'') of
        None \<Rightarrow> None
      | Some deadline \<Rightarrow> Some
          \<lparr>postgres = \<lparr>db_name = environ_get env ''POSTGRES_DB'' ''orders'',
             db_user = environ_get env ''POSTGRES_USER'' ''orders'',
             db_password = environ_get env ''POSTGRES_PASSWORD'' '''',
             db_host = environ_get env ''POSTGRES_HOST'' ''order-db'',
             db_port = environ_get env ''POSTGRES_PORT'' ''5432''\<rparr>,
           inventory_grpc_targets = environ_get env ''INVENTORY_GRPC_TARGETS'' ''inventory-service:50051'',
           grpc_auth_token = environ_get env ''GRPC_AUTH_TOKEN'' '''',
           grpc_deadline_seconds = deadline\<rparr>)"

definition database_url :: "'f order_settings \<Rightarrow> string" where
  "database_url st = ''postgresql+asyncpg://'' @ db_user (postgres st) @ '':'' @ db_password (postgres st)
     @ ''@'' @ db_host (postgres st) @ '':'' @ db_port (postgres st) @ ''/'' @ db_name (postgres st)"

definition inventory_targets :: "string \<Rightarrow> string list" where
  "inventory_targets targets = map strip (filter (\<lambda>t. strip t \<noteq> '''') (split_comma targets))"

text \<open>The target that \<^verbatim>\<open>build_channel\<close> dials; \<open>None\<close> is its \<^verbatim>\<open>IndexError\<close>.\<close>

definition channel_target :: "'f order_settings \<Rightarrow> string option" where
  "channel_target st =
     (case inventory_targets (inventory_grpc_targets st) of
        [] \<Rightarrow> None
      | t # _ \<Rightarrow> Some (''dns:///'' @ t))"

text \<open>The two services that two environments configure.\<close>

definition deployment_of ::
  "(int \<Rightarrow> int) \<Rightarrow> 'f inventory_settings \<Rightarrow> 'f order_settings \<Rightarrow> deployment" where
  "deployment_of clk ist ost = \<lparr>dp_clk = clk, dp_others = (\<lambda>_. None),
     dp_server_token = GRPC_AUTH_TOKEN ist, dp_client_token = grpc_auth_token ost\<rparr>"

lemma settings_tokens:
  "inventory_settings_of to_float env = Some ist \<Longrightarrow>
     GRPC_AUTH_TOKEN ist = environ_get env ''GRPC_AUTH_TOKEN'' ''''"
  "order_settings_of to_float' env = Some ost \<Longrightarrow>
     grpc_auth_token ost = environ_get env ''GRPC_AUTH_TOKEN'' ''''"
  by (auto simp: inventory_settings_of_def order_settings_of_def split: option.splits)

lemma same_token_trusted:
  assumes "inventory_settings_of to_float env1 = Some ist" "order_settings_of to_float' env2 = Some ost"
    and "env1 ''GRPC_AUTH_TOKEN'' = env2 ''GRPC_AUTH_TOKEN''"
  shows "trusted (deployment_of clk ist ost)"
  using settings_tokens(1) [OF assms(1)] settings_tokens(2) [OF assms(2)] assms(3)
  by (simp add: trusted_def deployment_of_def environ_get_def)

section \<open>Parsing the targets\<close>

lemma strip_bare: "t = [] \<or> \<not> is_space (hd t) \<and> \<not> is_space (last t) \<Longrightarrow> strip t = t"
proof -
  assume "t = [] \<or> \<not> is_space (hd t) \<and> \<not> is_space (last t)"
  then have "dropWhile is_space t = t" "dropWhile is_space (rev t) = rev t"
    by (auto simp: dropWhile_eq_self_iff hd_rev)
  then show "strip t = t" by (simp add: strip_def)
qed

lemma last_dropWhile: "dropWhile P xs \<noteq> [] \<Longrightarrow> last (dropWhile P xs) = last xs"
  by (induction xs) auto

lemma strip_ends: "strip t = [] \<or> \<not> is_space (hd (strip t)) \<and> \<not> is_space (last (strip t))"
proof (cases "strip t = []")
  case False
  let ?u = "dropWhile is_space t" and ?v = "dropWhile is_space (rev (dropWhile is_space t))"
  have strip: "strip t = rev ?v" by (simp add: strip_def)
  with False have v: "?v \<noteq> []" by simp
  then have u: "?u \<noteq> []" by (metis dropWhile.simps(1) rev.simps(1))
  have "hd (strip t) = hd ?u"
    unfolding strip hd_rev using last_dropWhile [OF v] u by (simp add: last_rev)
  moreover have "last (strip t) = hd ?v" unfolding strip by (simp add: last_rev)
  ultimately show ?thesis using hd_dropWhile [OF u] hd_dropWhile [OF v] by simp
qed simp

lemma strip_strip [simp]: "strip (strip t) = strip t"
  using strip_bare strip_ends by blast

lemma set_strip: "set (strip t) \<subseteq> set t"
  by (auto simp: strip_def dest!: set_dropWhileD)

lemma split_comma_no_comma: "t \<in> set (split_comma s) \<Longrightarrow> CHR '','' \<notin> set t"
proof (induction s arbitrary: t)
  case (Cons c s)
  then show ?case by (cases "split_comma s") (auto split: if_splits)
qed simp

lemma split_comma_not_Nil [simp]: "split_comma s \<noteq> []"
  by (cases s) (auto split: list.split)

lemma split_comma_single: "CHR '','' \<notin> set t \<Longrightarrow> split_comma t = [t]"
  by (induction t) auto

lemma split_comma_append: "CHR '','' \<notin> set t \<Longrightarrow> split_comma (t @ CHR '','' # s) = t # split_comma s"
  by (induction t) auto

fun join_comma :: "string list \<Rightarrow> string" where
  "join_comma [] = ''''"
| "join_comma [t] = t"
| "join_comma (t # ts) = t @ CHR '','' # join_comma ts"

lemma split_join: "ts \<noteq> [] \<Longrightarrow> list_all (\<lambda>t. CHR '','' \<notin> set t) ts \<Longrightarrow> split_comma (join_comma ts) = ts"
  by (induction ts rule: join_comma.induct) (simp_all add: split_comma_single split_comma_append)

text \<open>A proper address: not empty, without commas and without space around it.\<close>

definition proper_target :: "string \<Rightarrow> bool" where
  "proper_target t \<longleftrightarrow> t \<noteq> '''' \<and> CHR '','' \<notin> set t \<and> strip t = t"

lemma inventory_targets_proper: "list_all proper_target (inventory_targets s)"
  using set_strip split_comma_no_comma
  by (fastforce simp: inventory_targets_def list_all_iff proper_target_def)

lemma inventory_targets_join: "list_all proper_target ts \<Longrightarrow> inventory_targets (join_comma ts) = ts"
proof (cases "ts = []")
  case True
  then show ?thesis by (simp add: inventory_targets_def strip_def)
next
  case False
  assume ok: "list_all proper_target ts"
  then have "split_comma (join_comma ts) = ts"
    using False by (intro split_join) (auto simp: list_all_iff proper_target_def)
  moreover have "filter (\<lambda>t. strip t \<noteq> '''') ts = ts" "map strip ts = ts"
    using ok by (auto simp: list_all_iff proper_target_def filter_id_conv map_idI)
  ultimately show ?thesis by (simp add: inventory_targets_def)
qed


lemma strip_empty: "strip t = '''' \<longleftrightarrow> (\<forall>c \<in> set t. is_space c)"
  by (auto simp: strip_def dropWhile_eq_Nil_conv dest: set_dropWhileD)
    (metis UnCI dropWhile_eq_Nil_conv dropWhile_dropWhile1 set_append takeWhile_dropWhile_id)

lemma inventory_targets_fields:
  "texts \<noteq> [] \<Longrightarrow> list_all (\<lambda>f. CHR '','' \<notin> set f) texts \<Longrightarrow>
     inventory_targets (join_comma texts) = filter (\<lambda>t. t \<noteq> '''') (map strip texts)"
  by (simp add: inventory_targets_def split_join filter_map comp_def)

lemma split_comma_blank:
  "(\<forall>t \<in> set (split_comma s). \<forall>c \<in> set t. P c) \<longleftrightarrow> (\<forall>c \<in> set s. c = CHR '','' \<or> P c)"
proof (induction s)
  case (Cons c s)
  then show ?case by (cases "split_comma s") auto
qed simp

lemma no_targets: "inventory_targets s = [] \<longleftrightarrow> (\<forall>c \<in> set s. c = CHR '','' \<or> is_space c)"
  using split_comma_blank [of s is_space] by (auto simp: inventory_targets_def filter_empty_conv strip_empty)

section \<open>The server process and its health probe\<close>

datatype serving_status = SERVING | NOT_SERVING

record 'h health_api =
  ha_new :: 'h
  ha_set :: "string \<Rightarrow> serving_status \<Rightarrow> 'h \<Rightarrow> 'h"
  ha_shutdown :: "'h \<Rightarrow> 'h"
  ha_check :: "string \<Rightarrow> 'h \<Rightarrow> status_code + serving_status"

text \<open>What the health service of grpc documents: the last status set is answered, and a graceful
  shutdown turns every status into \<^verbatim>\<open>NOT_SERVING\<close> for good.\<close>

definition health_contract :: "'h health_api \<Rightarrow> bool" where
  "health_contract api \<longleftrightarrow>
     (\<forall>s x t. ha_check api t (ha_set api s x (ha_new api)) =
        (if t = s then Inr x else ha_check api t (ha_new api)))
     \<and> (\<forall>s x s' x' t. ha_check api t (ha_set api s' x' (ha_set api s x (ha_new api))) =
        (if t = s' then Inr x' else ha_check api t (ha_set api s x (ha_new api))))
     \<and> (\<forall>h t x. ha_check api t h = Inr x \<longrightarrow> ha_check api t (ha_shutdown api h) = Inr NOT_SERVING)"

text \<open>
  The process: its health service and how far \<^verbatim>\<open>serve\<close> got. The signal handler first flips
  the health status and then stops the server; calls are served in between. A second signal
  runs the handler again.
\<close>

datatype process_pc = Running | Draining | Stopped

record 'h process =
  pr_health :: 'h
  pr_pc :: process_pc

definition serve :: "'h health_api \<Rightarrow> 'h process" where
  "serve api = \<lparr>pr_health = ha_set api '''' SERVING (ha_set api SERVICE SERVING (ha_new api)), pr_pc = Running\<rparr>"

inductive process_step :: "'h health_api \<Rightarrow> 'h process \<Rightarrow> 'h process \<Rightarrow> bool" for api where
  signal: "pr_pc p = Running
    \<Longrightarrow> process_step api p \<lparr>pr_health = ha_shutdown api (pr_health p), pr_pc = Draining\<rparr>"
| stop: "pr_pc p = Draining \<Longrightarrow> process_step api p (p\<lparr>pr_pc := Stopped\<rparr>)"
| again: "pr_pc p \<noteq> Running
    \<Longrightarrow> process_step api p (p\<lparr>pr_health := ha_shutdown api (pr_health p)\<rparr>)"

text \<open>The probe sends no token; the call passes the interceptors of the server.\<close>

definition health_handler :: "'h health_api \<Rightarrow> (string, serving_status, 'h, unit) rpc_method_handler" where
  "health_handler api = (no_handler None None)\<lparr>unary_unary := Some (\<lambda>service s.
     (case ha_check api service (app s) of Inl code \<Rightarrow> Inl (Abort code '''') | Inr x \<Rightarrow> Inr x, s))\<rparr>"

definition health_check_call ::
  "'h health_api \<Rightarrow> string \<Rightarrow> string \<Rightarrow> 'h process \<Rightarrow> status_code + serving_status" where
  "health_check_call api token service p =
     (if pr_pc p = Stopped then Inl UNAVAILABLE
      else
        case server_interceptors token (\<lambda>cd s. (Inr (Some (health_handler api)), s))
               \<lparr>cd_method = HEALTH_METHOD_PREFIX @ ''Check'', cd_metadata = None\<rparr>
               \<lparr>app = pr_health p, logged = []\<rparr> of
          (Inr (Some h), s) \<Rightarrow>
            (case run_handler h service s of
               (([x], Inr _), _) \<Rightarrow> Inr x
             | ((_, Inl e), _) \<Rightarrow> Inl (wire_status e)
             | _ \<Rightarrow> Inl INTERNAL)
        | _ \<Rightarrow> Inl UNKNOWN)"

definition healthcheck_main :: "'h health_api \<Rightarrow> string \<Rightarrow> 'h process \<Rightarrow> int" where
  "healthcheck_main api token p =
     (case health_check_call api token '''' p of
        Inl _ \<Rightarrow> 1
      | Inr x \<Rightarrow> if x = SERVING then 0 else 1)"

lemma health_check_call_eq:
  "pr_pc p \<noteq> Stopped \<Longrightarrow> health_check_call api token service p = ha_check api service (pr_health p)"
proof -
  let ?d = "\<lparr>cd_method = HEALTH_METHOD_PREFIX @ ''Check'', cd_metadata = None\<rparr>"
  have kinds: "kinds (health_handler api) = [UnaryUnary]" by (simp add: kinds_def health_handler_def)
  have run: "run_handler (health_handler api) q s = single_reply
      (case ha_check api q (app s) of Inl code \<Rightarrow> Inl (Abort code '''') | Inr x \<Rightarrow> Inr x, s)" for q s
    by (simp add: run_handler_def health_handler_def)
  have "authorised token ?d" by (simp add: authorised_def)
  then have "server_interceptors token (\<lambda>cd s. (Inr (Some (health_handler api)), s)) ?d s =
      (Inr (Some (wrap_handler (HEALTH_METHOD_PREFIX @ ''Check'') (health_handler api))), s)" for s
    by (simp add: server_interceptors_authorised)
  moreover assume "pr_pc p \<noteq> Stopped"
  ultimately show ?thesis
    by (simp add: health_check_call_def wrap_handler_run [OF kinds] run single_reply_def split: sum.split)
qed

section \<open>Readiness of the order service\<close>

datatype connectivity = IDLE | CONNECTING | READY | TRANSIENT_FAILURE | SHUTDOWN

definition connectivity_name :: "connectivity \<Rightarrow> string" where
  "connectivity_name st = (case st of IDLE \<Rightarrow> ''idle'' | CONNECTING \<Rightarrow> ''connecting'' | READY \<Rightarrow> ''ready''
     | TRANSIENT_FAILURE \<Rightarrow> ''transient_failure'' | SHUTDOWN \<Rightarrow> ''shutdown'')"

definition readyz :: "bool \<Rightarrow> connectivity option \<Rightarrow> int \<times> (string \<times> string) list" where
  "readyz database_up channel =
     (let database = (if database_up then ''ok'' else ''unavailable'');
          channel_up = (channel \<noteq> None \<and> channel \<noteq> Some SHUTDOWN);
          inventory = (case channel of Some st \<Rightarrow> if st = SHUTDOWN then ''down'' else connectivity_name st
                       | None \<Rightarrow> ''down'');
          ready = (database_up \<and> channel_up) in
      (if ready then 200 else 503,
       [(''status'', if ready then ''ok'' else ''degraded''), (''database'', database),
        (''inventory_channel'', inventory)]))"

lemma readyz_ready:
  "fst (readyz database_up channel) = 200 \<longleftrightarrow> database_up \<and> channel \<noteq> None \<and> channel \<noteq> Some SHUTDOWN"
  "fst (readyz database_up channel) \<in> {200, 503}"
  by (simp_all add: readyz_def Let_def)

section \<open>Properties\<close>

text \<open>
  C40: the addresses of the inventory service. Whatever the variable holds, the parsed targets are
  proper addresses: not empty, without commas, without space around them. Every list of proper
  addresses, of any length, joined by commas parses to itself; of a list of texts with space
  around them or nothing in them the others are left, trimmed and in order. The channel dials the
  first field that is not blank and no other; it is not built at all exactly when the variable
  holds only commas and space.
\<close>

theorem inventory_targets_exact:
  "list_all proper_target (inventory_targets s)
    \<and> (\<forall>ts. list_all proper_target ts \<longrightarrow> inventory_targets (join_comma ts) = ts)
    \<and> (\<forall>texts. texts \<noteq> [] \<and> list_all (\<lambda>f. CHR '','' \<notin> set f) texts \<longrightarrow>
        inventory_targets (join_comma texts) = filter (\<lambda>t. t \<noteq> '''') (map strip texts))
    \<and> (\<forall>blanks f texts. inventory_grpc_targets st = join_comma (blanks @ f # texts)
          \<and> list_all (\<lambda>f. CHR '','' \<notin> set f) (blanks @ f # texts)
          \<and> list_all (\<lambda>f. \<forall>c \<in> set f. is_space c) blanks \<and> (\<exists>c \<in> set f. \<not> is_space c) \<longrightarrow>
        channel_target st = Some (''dns:///'' @ strip f))
    \<and> (channel_target st = None \<longleftrightarrow> (\<forall>c \<in> set (inventory_grpc_targets st). c = CHR '','' \<or> is_space c))"
proof (intro conjI allI impI)
  fix blanks f texts
  assume st: "inventory_grpc_targets st = join_comma (blanks @ f # texts)
      \<and> list_all (\<lambda>f. CHR '','' \<notin> set f) (blanks @ f # texts)
      \<and> list_all (\<lambda>f. \<forall>c \<in> set f. is_space c) blanks \<and> (\<exists>c \<in> set f. \<not> is_space c)"
  then have "inventory_targets (inventory_grpc_targets st) =
      filter (\<lambda>t. t \<noteq> '''') (map strip (blanks @ f # texts))"
    by (simp add: inventory_targets_fields)
  moreover have "strip f \<noteq> ''''" using st by (simp add: strip_empty)
  moreover have "filter (\<lambda>t. t \<noteq> '''') (map strip blanks) = []"
    using st by (auto simp: list_all_iff filter_empty_conv strip_empty)
  ultimately show "channel_target st = Some (''dns:///'' @ strip f)" by (simp add: channel_target_def)
next
  show "channel_target st = None \<longleftrightarrow> (\<forall>c \<in> set (inventory_grpc_targets st). c = CHR '','' \<or> is_space c)"
    using no_targets [of "inventory_grpc_targets st"]
    by (cases "inventory_targets (inventory_grpc_targets st)") (auto simp: channel_target_def)
qed (simp_all add: inventory_targets_proper inventory_targets_join inventory_targets_fields)

theorem inventory_targets_exact_witness:
  "inventory_targets ''inv-a:50051, inv-b:50051'' = [''inv-a:50051'', ''inv-b:50051'']
    \<and> channel_target \<lparr>postgres = \<lparr>db_name = '''', db_user = '''', db_password = '''', db_host = '''', db_port = ''''\<rparr>,
         inventory_grpc_targets = '' ,inv-a:50051, inv-b:50051'', grpc_auth_token = '''', grpc_deadline_seconds = ()\<rparr>
       = Some ''dns:///inv-a:50051''"
proof -
  let ?st = "\<lparr>postgres = \<lparr>db_name = '''', db_user = '''', db_password = '''', db_host = '''', db_port = ''''\<rparr>,
         inventory_grpc_targets = '' ,inv-a:50051, inv-b:50051'', grpc_auth_token = '''', grpc_deadline_seconds = ()\<rparr>"
  note exact = inventory_targets_exact [where s = "''''" and st = ?st]
  from exact [THEN conjunct2, THEN conjunct2, THEN conjunct1]
  have "inventory_targets (join_comma [''inv-a:50051'', '' inv-b:50051'']) =
      filter (\<lambda>t. t \<noteq> '''') (map strip [''inv-a:50051'', '' inv-b:50051''])"
    by (rule allE [where x = "[''inv-a:50051'', '' inv-b:50051'']"]) simp
  moreover have "filter (\<lambda>t. t \<noteq> '''') (map strip [''inv-a:50051'', '' inv-b:50051'']) = [''inv-a:50051'', ''inv-b:50051'']"
    by code_simp
  moreover have "channel_target ?st = Some (''dns:///'' @ strip ''inv-a:50051'')"
  proof -
    have "inventory_grpc_targets ?st = join_comma (['' ''] @ ''inv-a:50051'' # ['' inv-b:50051''])
          \<and> list_all (\<lambda>f. CHR '','' \<notin> set f) (['' ''] @ ''inv-a:50051'' # ['' inv-b:50051''])
          \<and> list_all (\<lambda>f. \<forall>c \<in> set f. is_space c) ['' ''] \<and> (\<exists>c \<in> set ''inv-a:50051''. \<not> is_space c)"
      by (simp add: is_space_def)
    from exact [THEN conjunct2, THEN conjunct2, THEN conjunct2, THEN conjunct1, rule_format, OF this]
    show ?thesis .
  qed
  moreover have "strip ''inv-a:50051'' = ''inv-a:50051''" by code_simp
  ultimately show ?thesis by simp
qed

text \<open>
  The container probe, for a check that a worker gets to. For every configured token the health
  check, which presents none, succeeds exactly while the server runs: from the moment the signal
  handler has flipped the status it fails, also while the server still drains, and it keeps
  failing.
\<close>

theorem healthcheck_tracks_serving:
  assumes "health_contract api" "(process_step api)\<^sup>*\<^sup>* (serve api) p"
  shows "healthcheck_main api token p = (if pr_pc p = Running then 0 else 1)"
proof -
  have shutdown: "ha_check api t h = Inr x \<Longrightarrow> ha_check api t (ha_shutdown api h) = Inr NOT_SERVING" for t h x
    using assms(1) by (auto simp: health_contract_def)
  have "ha_check api '''' (pr_health p) = Inr (if pr_pc p = Running then SERVING else NOT_SERVING)"
    using assms(2)
  proof (induction rule: rtranclp_induct)
    case base
    then show ?case using assms(1) by (simp add: serve_def health_contract_def)
  next
    case (step p q)
    from step(2,3) show ?case by cases (auto simp: shutdown)
  qed
  then show ?thesis
    by (cases "pr_pc p = Stopped") (simp_all add: healthcheck_main_def health_check_call_eq,
      simp add: health_check_call_def)
qed

definition mapped_health :: "((string \<rightharpoonup> serving_status) \<times> bool) health_api" where
  "mapped_health = \<lparr>ha_new = (Map.empty, False),
     ha_set = (\<lambda>s x (m, down). if down then (m, down) else (m(s \<mapsto> x), down)),
     ha_shutdown = (\<lambda>(m, _). (map_option (\<lambda>_. NOT_SERVING) \<circ> m, True)),
     ha_check = (\<lambda>s (m, _). case m s of None \<Rightarrow> Inl NOT_FOUND | Some x \<Rightarrow> Inr x)\<rparr>"

theorem healthcheck_tracks_serving_witness:
  "healthcheck_main mapped_health ''secret'' (serve mapped_health) = 0
    \<and> (\<exists>p. process_step mapped_health (serve mapped_health) p \<and> healthcheck_main mapped_health ''secret'' p = 1)"
proof -
  have ok: "health_contract mapped_health"
    by (auto simp: health_contract_def mapped_health_def split: option.splits)
  let ?p = "\<lparr>pr_health = ha_shutdown mapped_health (pr_health (serve mapped_health)), pr_pc = Draining\<rparr>"
  have "process_step mapped_health (serve mapped_health) ?p"
    by (rule process_step.signal) (simp add: serve_def)
  then show ?thesis
    using healthcheck_tracks_serving [OF ok, of "serve mapped_health" "''secret''"]
      healthcheck_tracks_serving [OF ok, of ?p "''secret''"]
    by (auto simp: serve_def)
qed

end
