(* ===== verification/ServerPools.thy ===== *)
theory ServerPools
  imports ServiceConfig
begin

text \<open>
  The thread pools of the gRPC server process (\<^verbatim>\<open>grpc_server/server.py\<close>): which executor a
  call runs on once the interceptors have wrapped its handler, how calls wait for a free
  worker, and what that means for the container probe. \<^verbatim>\<open>concurrent.futures\<close> is modelled;
  the method table of the generated registration (\<open>registry\<close>), the choice of an executor
  by the grpc server (\<open>executor_of\<close>) and the health service are parameters.
\<close>

section \<open>Which executor runs a call\<close>

datatype executor = RequestPool | HealthPool

text \<open>
  A registered handler with the \<^verbatim>\<open>experimental_thread_pool\<close> attribute that its behaviour, a
  Python function, carries or not. The functions \<^verbatim>\<open>terminate\<close> and \<^verbatim>\<open>wrapper\<close> of the
  interceptors are new function objects without attributes.
\<close>

record ('q, 'm, 's, 'd) registration =
  rg_handler :: "('q, 'm, 's, 'd) rpc_method_handler"
  rg_executor :: "executor option"

definition logging_registered ::
  "call_details \<Rightarrow> ('q, 'm, 's, 'd) registration \<Rightarrow> ('q, 'm, 's, 'd) registration" where
  "logging_registered details r =
     \<lparr>rg_handler = wrap_handler (cd_method details) (rg_handler r),
      rg_executor = (if kinds (rg_handler r) = [] then rg_executor r else None)\<rparr>"

definition auth_registered ::
  "string \<Rightarrow> call_details \<Rightarrow> ('q, 'm, 's, 'd) registration \<Rightarrow> ('q, 'm, 's, 'd) registration" where
  "auth_registered token details r =
     (if authorised token details then r
      else \<lparr>rg_handler = abort_handler (rg_handler r) UNAUTHENTICATED ''invalid auth token'',
            rg_executor = None\<rparr>)"

definition intercepted ::
  "string \<Rightarrow> call_details \<Rightarrow> ('q, 'm, 's, 'd) registration \<Rightarrow> ('q, 'm, 's, 'd) registration" where
  "intercepted token details r = logging_registered details (auth_registered token details r)"

text \<open>The handler is the one that the interceptor chain of \<open>ServerInterceptors\<close> resolves.\<close>

lemma intercepted_handler:
  "fst (server_interceptors token (\<lambda>_ s. (Inr (Some (rg_handler r)), s)) details s)
    = Inr (Some (rg_handler (intercepted token details r)))"
  by (cases "authorised token details")
    (simp_all add: server_interceptors_authorised server_interceptors_rejected intercepted_def
      logging_registered_def auth_registered_def)

lemma intercepted_executor: "kinds (rg_handler r) = [k] \<Longrightarrow> rg_executor (intercepted token details r) = None"
  by (simp add: intercepted_def logging_registered_def auth_registered_def abort_handler_run(1))

section \<open>Thread pools\<close>

record rpc_call =
  rc_id :: nat
  rc_details :: call_details

text \<open>\<open>tp_taken\<close> records the calls that workers have taken, in order.\<close>

record thread_pool =
  tp_max :: int
  tp_waiting :: "rpc_call list"
  tp_running :: "rpc_call list"
  tp_taken :: "rpc_call list"

text \<open>\<open>None\<close> is the \<^verbatim>\<open>ValueError\<close> for a size that is not positive.\<close>

definition ThreadPoolExecutor :: "int \<Rightarrow> thread_pool option" where
  "ThreadPoolExecutor max_workers =
     (if max_workers \<le> 0 then None
      else Some \<lparr>tp_max = max_workers, tp_waiting = [], tp_running = [], tp_taken = []\<rparr>)"

definition submit :: "rpc_call \<Rightarrow> thread_pool \<Rightarrow> thread_pool" where
  "submit c p = p\<lparr>tp_waiting := tp_waiting p @ [c]\<rparr>"

definition take_call :: "thread_pool \<Rightarrow> thread_pool option" where
  "take_call p =
     (case tp_waiting p of
        [] \<Rightarrow> None
      | c # cs \<Rightarrow>
          if int (length (tp_running p)) < tp_max p then
            Some (p\<lparr>tp_waiting := cs, tp_running := tp_running p @ [c], tp_taken := tp_taken p @ [c]\<rparr>)
          else None)"

section \<open>The server\<close>

text \<open>
  The process of \<open>ServiceConfig\<close> with its executors; \<open>sv_ended\<close> are the calls whose
  streams have ended, by their handler, their client or a failure, \<open>sv_arrived\<close> the calls handed to an executor, \<open>sv_answers\<close>
  the ended calls, a health check with its answer. \<open>sv_grace_over\<close>: the grace period of
  \<^verbatim>\<open>server.stop\<close> has passed and what still runs was aborted.
\<close>

record 'h grpc_server =
  sv_process :: "'h process"
  sv_pools :: "executor \<Rightarrow> thread_pool"
  sv_ended :: "nat set"
  sv_arrived :: "rpc_call list"
  sv_answers :: "(nat \<times> (status_code + serving_status) option) list"
  sv_grace_over :: bool

datatype boot_error = PoolSizeError | BindError

definition listen_address :: "'f inventory_settings \<Rightarrow> string" where
  "listen_address st = ''[::]:'' @ GRPC_PORT st"

definition probe_address :: "environment \<Rightarrow> string" where
  "probe_address env = ''127.0.0.1:'' @ environ_get env ''GRPC_PORT'' ''50051''"

definition boot ::
  "(string \<Rightarrow> bool) \<Rightarrow> 'h health_api \<Rightarrow> 'f inventory_settings \<Rightarrow> boot_error + 'h grpc_server" where
  "boot can_bind api st =
     (case ThreadPoolExecutor (GRPC_MAX_WORKERS st) of
        None \<Rightarrow> Inl PoolSizeError
      | Some requests \<Rightarrow>
          (case ThreadPoolExecutor 1 of
             None \<Rightarrow> Inl PoolSizeError
           | Some health \<Rightarrow>
               if \<not> can_bind (listen_address st) then Inl BindError
               else Inr \<lparr>sv_process = serve api,
                 sv_pools = (\<lambda>x. case x of RequestPool \<Rightarrow> requests | HealthPool \<Rightarrow> health),
                 sv_ended = {}, sv_arrived = [], sv_answers = [], sv_grace_over = False\<rparr>))"

text \<open>
  The whole start: the import of the settings and \<^verbatim>\<open>django.setup\<close> with its logging
  configuration come before the server is built. \<^verbatim>\<open>DJANGO_SETTINGS_MODULE\<close> may name another
  module than the one of the repository; what \<^verbatim>\<open>django.setup\<close> and the reading of the settings
  make of it is the parameter \<open>other_module\<close>.
\<close>

datatype start_error = SettingsError | LoggingError | BootError boot_error

definition start_server ::
  "(string \<Rightarrow> 'f option) \<Rightarrow> (string \<Rightarrow> environment \<Rightarrow> start_error + 'f inventory_settings)
     \<Rightarrow> (string \<Rightarrow> bool) \<Rightarrow> 'h health_api \<Rightarrow> environment \<Rightarrow> start_error + 'h grpc_server" where
  "start_server to_float other_module can_bind api env =
     (let module_name = environ_get env ''DJANGO_SETTINGS_MODULE'' ''inventory_project.settings'' in
      case (if module_name = ''inventory_project.settings'' then
              (case inventory_settings_of to_float env of
                 None \<Rightarrow> Inl SettingsError
               | Some st \<Rightarrow> if \<not> dict_config_accepts (LOGGING st) then Inl LoggingError else Inr st)
            else other_module module_name env) of
        Inl e \<Rightarrow> Inl e
      | Inr st \<Rightarrow> (case boot can_bind api st of Inl e \<Rightarrow> Inl (BootError e) | Inr sv \<Rightarrow> Inr sv))"

type_synonym ('q, 'm, 's, 'd) registry = "string \<Rightarrow> ('q, 'm, 's, 'd) registration option"

text \<open>
  The calls that hold their worker for as long as a stream of theirs is open: those that are
  served by a handler with a streaming request or response (\<^verbatim>\<open>ReserveStockBulk\<close>,
  \<^verbatim>\<open>WatchLowStock\<close>, \<^verbatim>\<open>WatchStock\<close>, and \<^verbatim>\<open>Watch\<close> of the health service, which is a blocking
  handler once the interceptors have wrapped it). Every other call returns by itself.
\<close>

definition is_stream :: "('q, 'm, 's, 'd) registry \<Rightarrow> string \<Rightarrow> rpc_call \<Rightarrow> bool" where
  "is_stream registry token c \<longleftrightarrow> authorised token (rc_details c)
     \<and> (case registry (cd_method (rc_details c)) of
          None \<Rightarrow> False
        | Some r \<Rightarrow> kinds (rg_handler r) \<noteq> [UnaryUnary])"

definition open_stream :: "('q, 'm, 's, 'd) registry \<Rightarrow> string \<Rightarrow> nat set \<Rightarrow> rpc_call \<Rightarrow> bool" where
  "open_stream registry token ended c \<longleftrightarrow> is_stream registry token c \<and> rc_id c \<notin> ended"

definition is_check :: "rpc_call \<Rightarrow> bool" where
  "is_check c \<longleftrightarrow> cd_method (rc_details c) = HEALTH_METHOD_PREFIX @ ''Check''"

definition answer_of :: "'h health_api \<Rightarrow> 'h grpc_server \<Rightarrow> rpc_call \<Rightarrow> (status_code + serving_status) option" where
  "answer_of api sv c = (if is_check c then Some (ha_check api '''' (pr_health (sv_process sv))) else None)"

definition arrive ::
  "(executor option \<Rightarrow> executor) \<Rightarrow> ('q, 'm, 's, 'd) registry \<Rightarrow> string \<Rightarrow> rpc_call \<Rightarrow> 'h grpc_server
     \<Rightarrow> 'h grpc_server" where
  "arrive executor_of registry token c sv =
     (case registry (cd_method (rc_details c)) of
        None \<Rightarrow> sv
      | Some r \<Rightarrow>
          (let x = executor_of (rg_executor (intercepted token (rc_details c) r)) in
           sv\<lparr>sv_pools := (sv_pools sv)(x := submit c (sv_pools sv x)), sv_arrived := sv_arrived sv @ [c]\<rparr>))"

text \<open>What the workers do by themselves: take the first waiting call, end a call.\<close>

inductive work_step ::
  "'h health_api \<Rightarrow> ('q, 'm, 's, 'd) registry \<Rightarrow> string \<Rightarrow> 'h grpc_server \<Rightarrow> 'h grpc_server \<Rightarrow> bool"
  for api registry token where
  take_first: "\<not> sv_grace_over sv \<Longrightarrow> take_call (sv_pools sv x) = Some p
    \<Longrightarrow> work_step api registry token sv (sv\<lparr>sv_pools := (sv_pools sv)(x := p)\<rparr>)"
| end_call: "\<not> sv_grace_over sv \<Longrightarrow> c \<in> set (tp_running (sv_pools sv x))
    \<Longrightarrow> \<not> open_stream registry token (sv_ended sv) c
    \<Longrightarrow> work_step api registry token sv
         (sv\<lparr>sv_pools := (sv_pools sv)(x := (sv_pools sv x)\<lparr>tp_running := remove1 c (tp_running (sv_pools sv x))\<rparr>),
             sv_answers := sv_answers sv @ [(rc_id c, answer_of api sv c)]\<rparr>)"

inductive server_step ::
  "(executor option \<Rightarrow> executor) \<Rightarrow> ('q, 'm, 's, 'd) registry \<Rightarrow> 'h health_api \<Rightarrow> string
     \<Rightarrow> 'h grpc_server \<Rightarrow> 'h grpc_server \<Rightarrow> bool"
  for executor_of registry api token where
  worker: "work_step api registry token sv sv' \<Longrightarrow> server_step executor_of registry api token sv sv'"
| call: "pr_pc (sv_process sv) \<noteq> Stopped \<Longrightarrow> rc_id c \<notin> rc_id ` set (sv_arrived sv)
    \<Longrightarrow> server_step executor_of registry api token sv (arrive executor_of registry token c sv)"
| end_stream: "server_step executor_of registry api token sv (sv\<lparr>sv_ended := insert i (sv_ended sv)\<rparr>)"
| process: "process_step api (sv_process sv) p
    \<Longrightarrow> server_step executor_of registry api token sv (sv\<lparr>sv_process := p\<rparr>)"
| grace: "pr_pc (sv_process sv) = Stopped
    \<Longrightarrow> server_step executor_of registry api token sv (sv\<lparr>sv_grace_over := True\<rparr>)"

inductive_cases work_stepE: "work_step api registry token sv sv'"
inductive_cases server_stepE: "server_step executor_of registry api token sv sv'"

text \<open>
  The exit code of a probe whose check is call \<open>i\<close>: without an answer in time the call fails
  with \<^verbatim>\<open>DEADLINE_EXCEEDED\<close>, an \<^verbatim>\<open>RpcError\<close>.
\<close>

definition probe_exit :: "nat \<Rightarrow> 'h grpc_server \<Rightarrow> int" where
  "probe_exit i sv = (if map_of (sv_answers sv) i = Some (Some (Inr SERVING)) then 0 else 1)"

lemma answer_of_check:
  "is_check c \<Longrightarrow> pr_pc (sv_process sv) \<noteq> Stopped \<Longrightarrow>
    answer_of api sv c = Some (health_check_call api token '''' (sv_process sv))"
  by (simp add: answer_of_def health_check_call_eq)

section \<open>The invariant of the pools\<close>

text \<open>
  What the model relies on of the grpc library: a handler without an executor of its own runs
  on the pool given to \<^verbatim>\<open>grpc.server\<close>, and registered handlers have exactly one kind.
\<close>

definition grpc_pools :: "(executor option \<Rightarrow> executor) \<Rightarrow> ('q, 'm, 's, 'd) registry \<Rightarrow> bool" where
  "grpc_pools executor_of registry \<longleftrightarrow> executor_of None = RequestPool
     \<and> (\<forall>m r. registry m = Some r \<longrightarrow> (\<exists>k. kinds (rg_handler r) = [k]))"

definition unique_ids :: "rpc_call list \<Rightarrow> bool" where
  "unique_ids cs \<longleftrightarrow> distinct (map rc_id cs)"

lemma unique_ids_Nil [simp]: "unique_ids []"
  by (simp add: unique_ids_def)

lemma unique_ids_snoc: "unique_ids (cs @ [c]) \<longleftrightarrow> unique_ids cs \<and> rc_id c \<notin> rc_id ` set cs"
  by (auto simp: unique_ids_def)

lemma unique_ids_appendD: "unique_ids (cs @ ds) \<Longrightarrow> unique_ids cs"
  by (simp add: unique_ids_def)

lemma unique_ids_eqD: "unique_ids cs \<Longrightarrow> c \<in> set cs \<Longrightarrow> d \<in> set cs \<Longrightarrow> rc_id c = rc_id d \<longleftrightarrow> c = d"
  unfolding unique_ids_def distinct_map by (auto dest: inj_onD)

lemma unique_ids_distinct: "unique_ids cs \<Longrightarrow> distinct cs"
  by (simp add: unique_ids_def distinct_map)

definition queue_inv :: "('q, 'm, 's, 'd) registry \<Rightarrow> string \<Rightarrow> int \<Rightarrow> nat set \<Rightarrow> rpc_call list \<Rightarrow> nat set \<Rightarrow> thread_pool \<Rightarrow> bool" where
  "queue_inv registry token n ended arrived answered p \<longleftrightarrow>
     tp_max p = n \<and> arrived = tp_taken p @ tp_waiting p \<and> unique_ids arrived
     \<and> distinct (tp_running p) \<and> int (length (tp_running p)) \<le> n
     \<and> set (tp_running p) = {c \<in> set (tp_taken p). rc_id c \<notin> answered}
     \<and> answered \<subseteq> rc_id ` set (tp_taken p)
     \<and> {c \<in> set (tp_taken p). open_stream registry token ended c} \<subseteq> set (tp_running p)
     \<and> (\<forall>k < length (tp_taken p). int (length (filter (open_stream registry token ended) (take k (tp_taken p)))) < n)"

definition pools_inv :: "('q, 'm, 's, 'd) registry \<Rightarrow> string \<Rightarrow> int \<Rightarrow> 'h grpc_server \<Rightarrow> bool" where
  "pools_inv registry token n sv \<longleftrightarrow>
     tp_waiting (sv_pools sv HealthPool) = [] \<and> tp_running (sv_pools sv HealthPool) = []
     \<and> queue_inv registry token n (sv_ended sv) (sv_arrived sv) (fst ` set (sv_answers sv)) (sv_pools sv RequestPool)"

lemma arrive_request:
  assumes "grpc_pools executor_of registry" "registry (cd_method (rc_details c)) = Some r"
  shows "arrive executor_of registry token c sv =
    sv\<lparr>sv_pools := (sv_pools sv)(RequestPool := submit c (sv_pools sv RequestPool)), sv_arrived := sv_arrived sv @ [c]\<rparr>"
proof -
  from assms obtain k where "kinds (rg_handler r) = [k]" "executor_of None = RequestPool"
    by (auto simp: grpc_pools_def)
  with assms(2) show ?thesis by (simp add: arrive_def intercepted_executor)
qed

lemma open_stream_insert: "open_stream registry token (insert i ended) c \<longleftrightarrow> open_stream registry token ended c \<and> rc_id c \<noteq> i"
  by (auto simp: open_stream_def)

lemma length_filter_imp: "(\<And>x. P x \<Longrightarrow> Q x) \<Longrightarrow> length (filter P xs) \<le> length (filter Q xs)"
  by (induction xs) auto

lemma queue_inv_ended: "queue_inv registry token n ended arrived answered p
    \<Longrightarrow> queue_inv registry token n (insert i ended) arrived answered p"
proof -
  have fewer: "int (length (filter (open_stream registry token (insert i ended)) cs))
      \<le> int (length (filter (open_stream registry token ended) cs))" for cs
    by (intro of_nat_mono length_filter_imp) (simp add: open_stream_insert)
  assume inv: "queue_inv registry token n ended arrived answered p"
  then have "\<forall>k < length (tp_taken p).
      int (length (filter (open_stream registry token (insert i ended)) (take k (tp_taken p)))) < n"
    unfolding queue_inv_def by (meson fewer le_less_trans)
  moreover have "{c \<in> set (tp_taken p). open_stream registry token (insert i ended) c}
      \<subseteq> {c \<in> set (tp_taken p). open_stream registry token ended c}"
    by (auto simp: open_stream_insert)
  ultimately show ?thesis using inv unfolding queue_inv_def by (meson subset_trans)
qed

lemma queue_inv_submit:
  "queue_inv registry token n ended arrived answered p \<Longrightarrow> rc_id c \<notin> rc_id ` set arrived
    \<Longrightarrow> queue_inv registry token n ended (arrived @ [c]) answered (submit c p)"
  unfolding queue_inv_def submit_def unique_ids_snoc by auto

lemma queue_inv_take:
  assumes "queue_inv registry token n ended arrived answered p" "take_call p = Some q"
  shows "queue_inv registry token n ended arrived answered q"
proof -
  from assms(2) obtain c cs where p: "tp_waiting p = c # cs" "int (length (tp_running p)) < tp_max p"
    and q: "q = p\<lparr>tp_waiting := cs, tp_running := tp_running p @ [c], tp_taken := tp_taken p @ [c]\<rparr>"
    by (auto simp: take_call_def split: list.splits if_splits)
  note inv = assms(1) [unfolded queue_inv_def]
  have "unique_ids arrived" "arrived = tp_taken p @ tp_waiting p" using inv by blast+
  then have ids: "unique_ids ((tp_taken p @ [c]) @ cs)" using p(1) by simp
  then have "unique_ids (tp_taken p @ [c])" by (rule unique_ids_appendD)
  then have new: "c \<notin> set (tp_taken p)" "rc_id c \<notin> rc_id ` set (tp_taken p)" and "distinct (tp_taken p)"
    by (auto simp: unique_ids_snoc dest: unique_ids_distinct)
  then have "length (filter (open_stream registry token ended) (tp_taken p))
      = card {d \<in> set (tp_taken p). open_stream registry token ended d}"
    by (metis distinct_card distinct_filter set_filter)
  also have "\<dots> \<le> length (tp_running p)"
  proof -
    have "card {d \<in> set (tp_taken p). open_stream registry token ended d} \<le> card (set (tp_running p))"
      using inv by (intro card_mono) blast+
    also have "\<dots> \<le> length (tp_running p)" by (rule card_length)
    finally show ?thesis .
  qed
  finally have "int (length (filter (open_stream registry token ended) (tp_taken p))) < n"
    using p(2) inv by linarith
  then have "\<forall>k < length (tp_taken p @ [c]).
      int (length (filter (open_stream registry token ended) (take k (tp_taken p @ [c])))) < n"
    using inv by (auto simp: less_Suc_eq)
  moreover have "set (tp_running p @ [c]) = {d \<in> set (tp_taken p @ [c]). rc_id d \<notin> answered}"
    using inv new by auto
  moreover have "distinct (tp_running p @ [c])" "int (length (tp_running p @ [c])) \<le> n"
    using inv new(1) p(2) by auto
  ultimately show ?thesis using inv p ids unfolding queue_inv_def q by auto
qed

lemma queue_inv_end:
  assumes "queue_inv registry token n ended arrived answered p" "c \<in> set (tp_running p)"
    and "\<not> open_stream registry token ended c"
  shows "queue_inv registry token n ended arrived (insert (rc_id c) answered)
    (p\<lparr>tp_running := remove1 c (tp_running p)\<rparr>)"
proof -
  note inv = assms(1) [unfolded queue_inv_def]
  then have "unique_ids (tp_taken p)" by (auto dest: unique_ids_appendD)
  then have "rc_id d = rc_id c \<longleftrightarrow> d = c" if "d \<in> set (tp_taken p)" for d
    using that inv assms(2) by (intro unique_ids_eqD [of "tp_taken p"]) auto
  then show ?thesis
    using inv assms(2,3) unfolding queue_inv_def by (auto simp: length_remove1)
qed

lemma pools_inv_step:
  assumes "grpc_pools executor_of registry" "server_step executor_of registry api token sv sv'"
    and "pools_inv registry token n sv"
  shows "pools_inv registry token n sv'"
  using assms(2)
proof (cases rule: server_step.cases)
  case worker
  then show ?thesis
  proof (cases rule: work_step.cases)
    case (take_first x p)
    then show ?thesis
      using assms(3) queue_inv_take by (cases x) (auto simp: pools_inv_def take_call_def)
  next
    case (end_call c x)
    then show ?thesis
      using assms(3) queue_inv_end by (cases x) (auto simp: pools_inv_def)
  qed
next
  case (call c)
  show ?thesis
  proof (cases "registry (cd_method (rc_details c))")
    case None
    with call assms(3) show ?thesis by (simp add: arrive_def)
  next
    case (Some r)
    with call assms(3) show ?thesis
      by (simp add: arrive_request [OF assms(1)] pools_inv_def queue_inv_submit)
  qed
next
  case end_stream
  then show ?thesis using assms(3) by (auto simp: pools_inv_def queue_inv_ended)
qed (use assms(3) in \<open>auto simp: pools_inv_def\<close>)

lemma pools_inv_boot:
  "boot can_bind api st = Inr sv \<Longrightarrow> pools_inv registry token (GRPC_MAX_WORKERS st) sv"
  by (auto simp: boot_def ThreadPoolExecutor_def pools_inv_def queue_inv_def split: if_splits)

section \<open>The health status while the process runs\<close>

definition checks_inv :: "'h health_api \<Rightarrow> 'h grpc_server \<Rightarrow> bool" where
  "checks_inv api sv \<longleftrightarrow>
     (sv_grace_over sv \<longrightarrow> pr_pc (sv_process sv) = Stopped)
     \<and> (pr_pc (sv_process sv) = Running \<longrightarrow> sv_process sv = serve api
          \<and> (\<forall>c \<in> set (sv_arrived sv). \<forall>a. (rc_id c, a) \<in> set (sv_answers sv)
               \<longrightarrow> a = (if is_check c then Some (Inr SERVING) else None)))"

lemma serve_serving: "health_contract api \<Longrightarrow> ha_check api '''' (pr_health (serve api)) = Inr SERVING"
  by (simp add: serve_def health_contract_def)

lemma process_step_Running: "process_step api p q \<Longrightarrow> pr_pc q \<noteq> Running"
  by (auto elim: process_step.cases)

lemma process_step_Stopped: "process_step api p q \<Longrightarrow> pr_pc p = Stopped \<Longrightarrow> pr_pc q = Stopped"
  by (auto elim: process_step.cases)

lemma pools_inv_arrived:
  assumes "pools_inv registry token n sv"
  shows "unique_ids (sv_arrived sv)"
    and "c \<in> set (tp_running (sv_pools sv x)) \<Longrightarrow> c \<in> set (sv_arrived sv)"
    and "(i, a) \<in> set (sv_answers sv) \<Longrightarrow> i \<in> rc_id ` set (sv_arrived sv)"
proof -
  have inv: "queue_inv registry token n (sv_ended sv) (sv_arrived sv) (fst ` set (sv_answers sv)) (sv_pools sv RequestPool)"
    using assms by (simp add: pools_inv_def)
  then show "unique_ids (sv_arrived sv)" unfolding queue_inv_def by blast
  have "sv_arrived sv = tp_taken (sv_pools sv RequestPool) @ tp_waiting (sv_pools sv RequestPool)"
    using inv unfolding queue_inv_def by blast
  then have taken: "set (tp_taken (sv_pools sv RequestPool)) \<subseteq> set (sv_arrived sv)" by simp
  show "c \<in> set (tp_running (sv_pools sv x)) \<Longrightarrow> c \<in> set (sv_arrived sv)"
    using assms taken unfolding pools_inv_def queue_inv_def by (cases x) fastforce+
  show "(i, a) \<in> set (sv_answers sv) \<Longrightarrow> i \<in> rc_id ` set (sv_arrived sv)"
    using inv taken unfolding queue_inv_def by (fastforce simp: image_iff)
qed

lemma checks_inv_step:
  assumes "grpc_pools executor_of registry" "health_contract api"
    and "server_step executor_of registry api token sv sv'" "pools_inv registry token n sv" "checks_inv api sv"
  shows "checks_inv api sv'"
  using assms(3)
proof (cases rule: server_step.cases)
  case worker
  then show ?thesis
  proof (cases rule: work_step.cases)
    case (take_first x p)
    then show ?thesis using assms(5) by (simp add: checks_inv_def)
  next
    case (end_call c x)
    have "c \<in> set (sv_arrived sv)" using pools_inv_arrived(2) [OF assms(4) end_call(3)] .
    then have "d \<in> set (sv_arrived sv) \<Longrightarrow> rc_id d = rc_id c \<Longrightarrow> d = c" for d
      using unique_ids_eqD [OF pools_inv_arrived(1) [OF assms(4)]] by blast
    with assms(5) serve_serving [OF assms(2)] show ?thesis
      by (auto simp: checks_inv_def end_call(1) answer_of_def)
  qed
next
  case (call c)
  show ?thesis
  proof (cases "registry (cd_method (rc_details c))")
    case None
    with call assms(5) show ?thesis by (simp add: arrive_def)
  next
    case (Some r)
    then show ?thesis
      using call assms(5) pools_inv_arrived(3) [OF assms(4)]
      by (auto simp: arrive_request [OF assms(1)] checks_inv_def)
  qed
next
  case (process p)
  then show ?thesis
    using assms(5) by (auto simp: checks_inv_def dest: process_step_Running process_step_Stopped)
qed (use assms(5) in \<open>simp_all add: checks_inv_def\<close>)

lemma server_reachable:
  assumes "boot can_bind api st = Inr sv0" "grpc_pools executor_of registry" "health_contract api"
    and "(server_step executor_of registry api token)\<^sup>*\<^sup>* sv0 sv"
  shows "pools_inv registry token (GRPC_MAX_WORKERS st) sv \<and> checks_inv api sv"
  using assms(4)
proof (induction rule: rtranclp_induct)
  case base
  have "checks_inv api sv0"
    using assms(1) by (auto simp: boot_def ThreadPoolExecutor_def checks_inv_def serve_def split: if_splits)
  with pools_inv_boot [OF assms(1)] show ?case by blast
next
  case (step sv sv')
  then show ?case
    using pools_inv_step [OF assms(2)] checks_inv_step [OF assms(2,3)] by blast
qed

section \<open>The pools at rest\<close>

definition work_left :: "'h grpc_server \<Rightarrow> nat" where
  "work_left sv = (\<Sum>x \<in> {RequestPool, HealthPool}.
     2 * length (tp_waiting (sv_pools sv x)) + length (tp_running (sv_pools sv x)))"

lemma take_call_work:
  "take_call p = Some q \<Longrightarrow>
    2 * length (tp_waiting q) + length (tp_running q) < 2 * length (tp_waiting p) + length (tp_running p)"
  by (auto simp: take_call_def split: list.splits if_splits)

lemma work_step_decreases: "work_step api registry token sv sv' \<Longrightarrow> work_left sv' < work_left sv"
proof (induction rule: work_step.induct)
  case (take_first sv x p)
  from take_call_work [OF take_first(2)] show ?case by (cases x) (simp_all add: work_left_def)
next
  case (end_call sv c x)
  then have "length (remove1 c (tp_running (sv_pools sv x))) < length (tp_running (sv_pools sv x))"
    using length_pos_if_in_set [OF end_call(2)] by (simp add: length_remove1)
  then show ?case by (cases x) (simp_all add: work_left_def)
qed

lemma work_steps_bounded: "(work_step api registry token ^^ k) sv sv' \<Longrightarrow> work_left sv' + k \<le> work_left sv"
proof (induction k arbitrary: sv')
  case (Suc k)
  then obtain sv1 where "work_left sv1 + k \<le> work_left sv" "work_step api registry token sv1 sv'"
    by (auto elim: relpowp_Suc_E)
  then show ?case using work_step_decreases by fastforce
qed auto

lemma work_steps_keep:
  "(work_step api registry token)\<^sup>*\<^sup>* sv sv' \<Longrightarrow> sv_arrived sv' = sv_arrived sv \<and> sv_ended sv' = sv_ended sv
     \<and> sv_process sv' = sv_process sv"
proof (induction rule: rtranclp_induct)
  case (step sv1 sv2)
  from step(2) have "sv_arrived sv2 = sv_arrived sv1 \<and> sv_ended sv2 = sv_ended sv1
      \<and> sv_process sv2 = sv_process sv1"
    by cases simp_all
  with step(3) show ?case by simp
qed simp

lemma work_steps_server:
  "(work_step api registry token)\<^sup>*\<^sup>* sv sv' \<Longrightarrow> (server_step executor_of registry api token)\<^sup>*\<^sup>* sv sv'"
  using mono_rtranclp [of "work_step api registry token" "server_step executor_of registry api token"]
  by (blast intro: server_step.worker)

definition at_rest :: "'h health_api \<Rightarrow> ('q, 'm, 's, 'd) registry \<Rightarrow> string \<Rightarrow> 'h grpc_server \<Rightarrow> bool" where
  "at_rest api registry token sv \<longleftrightarrow> \<not> (\<exists>sv'. work_step api registry token sv sv')"

lemma at_restD:
  assumes "at_rest api registry token sv" "\<not> sv_grace_over sv"
  shows "c \<in> set (tp_running (sv_pools sv x)) \<Longrightarrow> open_stream registry token (sv_ended sv) c"
    and "tp_waiting (sv_pools sv x) \<noteq> [] \<Longrightarrow>
      tp_max (sv_pools sv x) \<le> int (length (tp_running (sv_pools sv x)))"
proof -
  show "c \<in> set (tp_running (sv_pools sv x)) \<Longrightarrow> open_stream registry token (sv_ended sv) c"
    using assms work_step.end_call unfolding at_rest_def by blast
  assume "tp_waiting (sv_pools sv x) \<noteq> []"
  moreover have "take_call (sv_pools sv x) = None"
    using assms work_step.take_first unfolding at_rest_def by (metis option.exhaust)
  ultimately show "tp_max (sv_pools sv x) \<le> int (length (tp_running (sv_pools sv x)))"
    by (auto simp: take_call_def split: list.splits if_splits)
qed

lemma split_at_unique:
  assumes "distinct (ts @ ws)" "ts @ ws = xs @ c # ys"
  shows "c \<in> set ts \<Longrightarrow> length xs < length ts \<and> take (length xs) ts = xs"
    and "c \<in> set ws \<Longrightarrow> \<exists>zs. xs = ts @ zs"
  using assms by (auto simp: append_eq_append_conv2 append_eq_Cons_conv)

lemma queue_facts:
  assumes "pools_inv registry token n sv"
  shows "queue_inv registry token n (sv_ended sv) (sv_arrived sv) (fst ` set (sv_answers sv)) (sv_pools sv RequestPool)"
    and "sv_arrived sv = tp_taken (sv_pools sv RequestPool) @ tp_waiting (sv_pools sv RequestPool)"
    and "distinct (tp_taken (sv_pools sv RequestPool) @ tp_waiting (sv_pools sv RequestPool))"
proof -
  show inv: "queue_inv registry token n (sv_ended sv) (sv_arrived sv) (fst ` set (sv_answers sv)) (sv_pools sv RequestPool)"
    using assms by (simp add: pools_inv_def)
  then show *: "sv_arrived sv = tp_taken (sv_pools sv RequestPool) @ tp_waiting (sv_pools sv RequestPool)"
    unfolding queue_inv_def by blast
  show "distinct (tp_taken (sv_pools sv RequestPool) @ tp_waiting (sv_pools sv RequestPool))"
    using unique_ids_distinct [OF pools_inv_arrived(1) [OF assms]] by (simp only: *)
qed

lemma answered_few:
  assumes inv: "pools_inv registry token n sv" and arrived: "sv_arrived sv = xs @ c # ys"
    and "rc_id c \<in> fst ` set (sv_answers sv)"
  shows "int (length (filter (open_stream registry token (sv_ended sv)) xs)) < n"
proof -
  note queue_facts = queue_facts [OF inv]
  let ?p = "sv_pools sv RequestPool"
  have "fst ` set (sv_answers sv) \<subseteq> rc_id ` set (tp_taken ?p)"
    using queue_facts(1) unfolding queue_inv_def by blast
  with assms(3) have "rc_id c \<in> rc_id ` set (tp_taken ?p)" by blast
  then obtain d where d: "d \<in> set (tp_taken ?p)" "rc_id d = rc_id c" by (auto simp: image_iff)
  have "d \<in> set (sv_arrived sv)" using d(1) by (subst queue_facts(2)) simp
  moreover have "c \<in> set (sv_arrived sv)" by (simp add: arrived)
  ultimately have "d = c" using unique_ids_eqD [OF pools_inv_arrived(1) [OF inv]] d(2) by blast
  then have "length xs < length (tp_taken ?p)" "take (length xs) (tp_taken ?p) = xs"
    using split_at_unique(1) [OF queue_facts(3) trans [OF queue_facts(2) [symmetric] arrived]] d(1) by blast+
  then show ?thesis using queue_facts(1) unfolding queue_inv_def by metis
qed

lemma answered_at_rest:
  assumes inv: "pools_inv registry token n sv" and arrived: "sv_arrived sv = xs @ c # ys"
    and at_rest: "at_rest api registry token sv" "\<not> sv_grace_over sv" and returns: "\<not> is_stream registry token c"
    and few: "int (length (filter (open_stream registry token (sv_ended sv)) xs)) < n"
  shows "rc_id c \<in> fst ` set (sv_answers sv)"
proof (rule ccontr)
  let ?p = "sv_pools sv RequestPool"
  assume open_call: "rc_id c \<notin> fst ` set (sv_answers sv)"
  note queue_facts = queue_facts [OF inv] and rest = at_restD [OF at_rest]
  have "c \<notin> set (tp_running ?p)" using rest(1) returns by (auto simp: open_stream_def)
  then have "c \<notin> set (tp_taken ?p)"
    using open_call queue_facts(1) unfolding queue_inv_def by blast
  moreover have "c \<in> set (tp_taken ?p @ tp_waiting ?p)"
    by (subst queue_facts(2) [symmetric]) (simp add: arrived)
  ultimately have waits: "c \<in> set (tp_waiting ?p)" by simp
  then obtain zs where xs: "xs = tp_taken ?p @ zs"
    using split_at_unique(2) [OF queue_facts(3) trans [OF queue_facts(2) [symmetric] arrived]] by blast
  have running: "distinct (tp_running ?p)" "set (tp_running ?p) \<subseteq> set (tp_taken ?p)" "tp_max ?p = n"
    using queue_facts(1) unfolding queue_inv_def by blast+
  have "n \<le> int (length (tp_running ?p))" using rest(2) [of RequestPool] waits running(3) by fastforce
  also have "length (tp_running ?p) = card (set (tp_running ?p))" by (simp add: running(1) distinct_card)
  also have "\<dots> \<le> card (set (filter (open_stream registry token (sv_ended sv)) (tp_taken ?p)))"
    using running(2) rest(1) by (intro card_mono) auto
  also have "\<dots> \<le> length (filter (open_stream registry token (sv_ended sv)) xs)"
    using card_length [of "filter (open_stream registry token (sv_ended sv)) (tp_taken ?p)"] by (simp add: xs)
  finally show False using few by simp
qed

section \<open>Properties\<close>

lemma boot_starts:
  "(\<exists>sv. boot can_bind api st = Inr sv) \<longleftrightarrow> 0 < GRPC_MAX_WORKERS st \<and> can_bind (''[::]:'' @ GRPC_PORT st)"
  by (auto simp: boot_def ThreadPoolExecutor_def listen_address_def not_le)

lemma start_server_eq:
  "(\<exists>sv. start_server to_float other_module can_bind api env = Inr sv) \<longleftrightarrow>
     (let name = environ_get env ''DJANGO_SETTINGS_MODULE'' ''inventory_project.settings'' in
      if name = ''inventory_project.settings''
      then (\<exists>st. inventory_settings_of to_float env = Some st \<and> LOG_LEVEL st \<in> set level_names
              \<and> 0 < GRPC_MAX_WORKERS st \<and> can_bind (''[::]:'' @ GRPC_PORT st))
      else (\<exists>st. other_module name env = Inr st \<and> 0 < GRPC_MAX_WORKERS st \<and> can_bind (''[::]:'' @ GRPC_PORT st)))"
proof -
  let ?name = "environ_get env ''DJANGO_SETTINGS_MODULE'' ''inventory_project.settings''"
  let ?load = "if ?name = ''inventory_project.settings'' then
       (case inventory_settings_of to_float env of
          None \<Rightarrow> Inl SettingsError
        | Some st \<Rightarrow> if \<not> dict_config_accepts (LOGGING st) then Inl LoggingError else Inr st)
     else other_module ?name env"
  have "(\<exists>sv. start_server to_float other_module can_bind api env = Inr sv) \<longleftrightarrow>
      (\<exists>st. ?load = Inr st \<and> (\<exists>sv. boot can_bind api st = Inr sv))"
    unfolding start_server_def Let_def by (cases ?load) (auto split: sum.split)
  then show ?thesis
    unfolding boot_starts Let_def by (auto simp: LOGGING_accepted split: option.splits if_splits)
qed

lemma start_server_boot:
  fixes to_float :: "string \<Rightarrow> 'f option"
  shows "start_server to_float other_module can_bind api env = Inr sv
    \<Longrightarrow> \<exists>st :: 'f inventory_settings. boot can_bind api st = Inr sv"
  unfolding start_server_def Let_def by (simp split: sum.splits) blast

text \<open>
  C38: which environments start the server. Without \<^verbatim>\<open>DJANGO_SETTINGS_MODULE\<close>, or when it names
  the settings of the repository, it starts exactly when the number of workers parses to a
  positive integer, the tick parses, the log level, in any case, is one that \<^verbatim>\<open>logging\<close> knows, and
  the port can be bound; it then listens on the port that the container probe dials from the same
  environment. With the name of another module it starts exactly when that module loads, its number
  of workers is positive and its port can be bound. A started server answers the probe's first
  question SERVING.
\<close>

theorem server_starts_iff:
  assumes "health_contract api"
  shows "((\<exists>sv. start_server to_float other_module can_bind api env = Inr sv) \<longleftrightarrow>
      (let name = environ_get env ''DJANGO_SETTINGS_MODULE'' ''inventory_project.settings'' in
       if name = ''inventory_project.settings''
       then (\<exists>n tick port. int_of_text (environ_get env ''GRPC_MAX_WORKERS'' ''10'') = Some n \<and> 0 < n
          \<and> to_float (environ_get env ''GRPC_WATCH_TICK_SECONDS'' ''1.0'') = Some tick
          \<and> map upper_char (environ_get env ''LOG_LEVEL'' ''INFO'') \<in> set level_names
          \<and> probe_address env = ''127.0.0.1:'' @ port \<and> can_bind (''[::]:'' @ port))
       else (\<exists>st. other_module name env = Inr st \<and> 0 < GRPC_MAX_WORKERS st
          \<and> can_bind (''[::]:'' @ GRPC_PORT st))))
    \<and> (\<forall>sv. start_server to_float other_module can_bind api env = Inr sv \<longrightarrow>
        sv_arrived sv = [] \<and> health_check_call api token '''' (sv_process sv) = Inr SERVING)"
proof
  have "(\<exists>st. inventory_settings_of to_float env = Some st \<and> LOG_LEVEL st \<in> set level_names
        \<and> 0 < GRPC_MAX_WORKERS st \<and> can_bind (''[::]:'' @ GRPC_PORT st)) \<longleftrightarrow>
      (\<exists>n tick port. int_of_text (environ_get env ''GRPC_MAX_WORKERS'' ''10'') = Some n \<and> 0 < n
        \<and> to_float (environ_get env ''GRPC_WATCH_TICK_SECONDS'' ''1.0'') = Some tick
        \<and> map upper_char (environ_get env ''LOG_LEVEL'' ''INFO'') \<in> set level_names
        \<and> probe_address env = ''127.0.0.1:'' @ port \<and> can_bind (''[::]:'' @ port))"
    by (auto simp: inventory_settings_of_def probe_address_def split: option.split)
  then show "(\<exists>sv. start_server to_float other_module can_bind api env = Inr sv) \<longleftrightarrow>
      (let name = environ_get env ''DJANGO_SETTINGS_MODULE'' ''inventory_project.settings'' in
       if name = ''inventory_project.settings''
       then (\<exists>n tick port. int_of_text (environ_get env ''GRPC_MAX_WORKERS'' ''10'') = Some n \<and> 0 < n
          \<and> to_float (environ_get env ''GRPC_WATCH_TICK_SECONDS'' ''1.0'') = Some tick
          \<and> map upper_char (environ_get env ''LOG_LEVEL'' ''INFO'') \<in> set level_names
          \<and> probe_address env = ''127.0.0.1:'' @ port \<and> can_bind (''[::]:'' @ port))
       else (\<exists>st. other_module name env = Inr st \<and> 0 < GRPC_MAX_WORKERS st
          \<and> can_bind (''[::]:'' @ GRPC_PORT st)))"
    unfolding start_server_eq Let_def by (simp only:)
  show "\<forall>sv. start_server to_float other_module can_bind api env = Inr sv \<longrightarrow>
        sv_arrived sv = [] \<and> health_check_call api token '''' (sv_process sv) = Inr SERVING"
    using serve_serving [OF assms]
    by (auto simp: boot_def ThreadPoolExecutor_def health_check_call_eq serve_def
        dest!: start_server_boot split: if_splits)
qed

text \<open>
  The request pool. A server is only started with a positive number of workers. Whatever
  calls arrive and end, at most that many run at a time; calls are taken strictly in the order of
  their arrival; every call of every method, health checks included, goes through the one
  request pool (the executor created for the health service is never used); and a call is at any
  moment waiting, running or ended, exactly one of the three.
\<close>

theorem request_pool_bounded:
  assumes "boot can_bind api st = Inr sv0" "grpc_pools executor_of registry" "health_contract api"
    and "(server_step executor_of registry api token)\<^sup>*\<^sup>* sv0 sv"
  shows "0 < GRPC_MAX_WORKERS st
    \<and> int (length (tp_running (sv_pools sv RequestPool))) \<le> GRPC_MAX_WORKERS st
    \<and> sv_arrived sv = tp_taken (sv_pools sv RequestPool) @ tp_waiting (sv_pools sv RequestPool)
    \<and> tp_waiting (sv_pools sv HealthPool) = [] \<and> tp_running (sv_pools sv HealthPool) = []
    \<and> (\<forall>c \<in> set (sv_arrived sv). length (filter id
         [c \<in> set (tp_waiting (sv_pools sv RequestPool)), c \<in> set (tp_running (sv_pools sv RequestPool)),
          rc_id c \<in> fst ` set (sv_answers sv)]) = 1)"
proof -
  let ?p = "sv_pools sv RequestPool" and ?answered = "fst ` set (sv_answers sv)"
  have pinv: "pools_inv registry token (GRPC_MAX_WORKERS st) sv" using server_reachable [OF assms] by blast
  then have inv: "queue_inv registry token (GRPC_MAX_WORKERS st) (sv_ended sv) (sv_arrived sv) ?answered ?p"
    by (simp add: pools_inv_def)
  then have parts: "sv_arrived sv = tp_taken ?p @ tp_waiting ?p" "unique_ids (sv_arrived sv)"
      "set (tp_running ?p) = {c \<in> set (tp_taken ?p). rc_id c \<notin> ?answered}" "?answered \<subseteq> rc_id ` set (tp_taken ?p)"
    unfolding queue_inv_def by blast+
  have "c \<in> set (tp_taken ?p)" if "rc_id c \<in> ?answered" "c \<in> set (sv_arrived sv)" for c
  proof -
    from that(1) parts(4) obtain d where d: "d \<in> set (tp_taken ?p)" "rc_id d = rc_id c" by fastforce
    then have "d \<in> set (sv_arrived sv)" by (simp add: parts(1))
    with d that(2) unique_ids_eqD [OF parts(2)] show ?thesis by blast
  qed
  moreover have "set (tp_taken ?p) \<inter> set (tp_waiting ?p) = {}"
    using queue_facts(3) [OF pinv] by simp
  moreover have "set (sv_arrived sv) = set (tp_taken ?p) \<union> set (tp_waiting ?p)"
    by (simp add: parts(1))
  ultimately have "length (filter id [c \<in> set (tp_waiting ?p), c \<in> set (tp_running ?p), rc_id c \<in> ?answered]) = 1"
    if "c \<in> set (sv_arrived sv)" for c
    using that by (auto simp: parts(3))
  moreover have "0 < GRPC_MAX_WORKERS st"
    using assms(1) by (auto simp: boot_def ThreadPoolExecutor_def split: if_splits)
  moreover have "int (length (tp_running ?p)) \<le> GRPC_MAX_WORKERS st"
    using inv unfolding queue_inv_def by blast
  moreover have "tp_waiting (sv_pools sv HealthPool) = [] \<and> tp_running (sv_pools sv HealthPool) = []"
    using pinv by (simp add: pools_inv_def)
  ultimately show ?thesis using parts(1) by blast
qed

lemma probe_exit_answer:
  assumes "pools_inv registry token n sv" "checks_inv api sv" "pr_pc (sv_process sv) = Running"
    and "c \<in> set (sv_arrived sv)" "is_check c"
  shows "probe_exit (rc_id c) sv = (if rc_id c \<in> fst ` set (sv_answers sv) then 0 else 1)"
proof (cases "map_of (sv_answers sv) (rc_id c)")
  case None
  then have "rc_id c \<notin> fst ` set (sv_answers sv)" by (simp add: map_of_eq_None_iff)
  with None show ?thesis by (simp add: probe_exit_def)
next
  case (Some a)
  then have "(rc_id c, a) \<in> set (sv_answers sv)" by (rule map_of_SomeD)
  with assms have "a = Some (Inr SERVING)" "rc_id c \<in> fst ` set (sv_answers sv)"
    by (auto simp: checks_inv_def rev_image_eqI)
  with Some show ?thesis by (simp add: probe_exit_def)
qed

text \<open>
  C34: calls need a free worker, the container probe included. Let a call without streams arrive
  at a running server. As long as at least as many streaming calls that arrived before it are open
  as there are workers, it is not answered, and a probe exits with 1, however long it waits. The
  workers themselves come to rest after a bounded number of steps, and then the call is answered
  exactly when fewer streaming calls than workers were open before it; a probe then exits with 0,
  and else with 1.
\<close>

theorem calls_need_free_worker:
  assumes "boot can_bind api st = Inr sv0" "grpc_pools executor_of registry" "health_contract api"
    and "(server_step executor_of registry api token)\<^sup>*\<^sup>* sv0 sv" "pr_pc (sv_process sv) = Running"
    and "sv_arrived sv = xs @ c # ys" "\<not> is_stream registry token c"
  defines "free \<equiv> int (length (filter (open_stream registry token (sv_ended sv)) xs)) < GRPC_MAX_WORKERS st"
  shows "(\<not> free \<longrightarrow> rc_id c \<notin> fst ` set (sv_answers sv) \<and> probe_exit (rc_id c) sv = 1)
    \<and> (\<forall>k sv'. (work_step api registry token ^^ k) sv sv' \<longrightarrow> k \<le> work_left sv
         \<and> (at_rest api registry token sv' \<longrightarrow> (rc_id c \<in> fst ` set (sv_answers sv') \<longleftrightarrow> free)
              \<and> (is_check c \<longrightarrow> probe_exit (rc_id c) sv' = (if free then 0 else 1))))"
proof -
  have exit: "is_check c \<Longrightarrow> probe_exit (rc_id c) sv' = (if rc_id c \<in> fst ` set (sv_answers sv') then 0 else 1)"
    and few: "rc_id c \<in> fst ` set (sv_answers sv') \<Longrightarrow> free"
    and rest: "at_rest api registry token sv' \<Longrightarrow> free \<Longrightarrow> rc_id c \<in> fst ` set (sv_answers sv')"
    if "(work_step api registry token)\<^sup>*\<^sup>* sv sv'" for sv'
  proof -
    have same: "sv_arrived sv' = xs @ c # ys" "sv_ended sv' = sv_ended sv" "pr_pc (sv_process sv') = Running"
      using work_steps_keep [OF that] assms(5,6) by simp_all
    have "(server_step executor_of registry api token)\<^sup>*\<^sup>* sv0 sv'"
      using assms(4) work_steps_server [OF that] by (rule rtranclp_trans)
    then have inv: "pools_inv registry token (GRPC_MAX_WORKERS st) sv'" "checks_inv api sv'"
      using server_reachable [OF assms(1-3)] by blast+
    show "is_check c \<Longrightarrow> probe_exit (rc_id c) sv' = (if rc_id c \<in> fst ` set (sv_answers sv') then 0 else 1)"
      using probe_exit_answer [OF inv same(3)] same(1) by simp
    show "rc_id c \<in> fst ` set (sv_answers sv') \<Longrightarrow> free"
      using answered_few [OF inv(1) same(1)] by (simp add: free_def same(2))
    have "\<not> sv_grace_over sv'" using inv(2) same(3) by (auto simp: checks_inv_def)
    then show "at_rest api registry token sv' \<Longrightarrow> free \<Longrightarrow> rc_id c \<in> fst ` set (sv_answers sv')"
      using answered_at_rest [OF inv(1) same(1) _ _ assms(7)] by (simp add: free_def same(2))
  qed
  have "(work_step api registry token)\<^sup>*\<^sup>* sv sv' \<and> k \<le> work_left sv"
    if "(work_step api registry token ^^ k) sv sv'" for k sv'
    using work_steps_bounded [OF that] relpowp_imp_rtranclp [OF that] by simp
  moreover have "probe_exit (rc_id c) sv = 1" if "rc_id c \<notin> fst ` set (sv_answers sv)"
    using that by (simp add: probe_exit_def map_of_eq_None_iff [symmetric])
  ultimately show ?thesis using exit few rest by (metis rtranclp.rtrancl_refl)
qed

section \<open>A saturated server\<close>

definition demo_executor_of :: "executor option \<Rightarrow> executor" where
  "demo_executor_of e = (case e of None \<Rightarrow> RequestPool | Some x \<Rightarrow> x)"

definition demo_registry :: "(string, serving_status, nat, unit) registry" where
  "demo_registry m =
     (if m = method_path ''WatchStock'' then
        Some \<lparr>rg_handler = (no_handler None None)\<lparr>stream_stream := Some (\<lambda>q s. (([], Inr ()), s))\<rparr>,
              rg_executor = None\<rparr>
      else if m = HEALTH_METHOD_PREFIX @ ''Check'' then
        Some \<lparr>rg_handler = (no_handler None None)\<lparr>unary_unary := Some (\<lambda>q s. (Inr SERVING, s))\<rparr>,
              rg_executor = Some HealthPool\<rparr>
      else None)"

definition demo_settings :: "int \<Rightarrow> unit inventory_settings" where
  "demo_settings workers = \<lparr>SECRET_KEY = '''', DEBUG = False, ALLOWED_HOSTS = [],
     DATABASES = \<lparr>db_name = '''', db_user = '''', db_password = '''', db_host = '''', db_port = ''''\<rparr>,
     GRPC_AUTH_TOKEN = '''', GRPC_PORT = ''50051'', GRPC_MAX_WORKERS = workers, GRPC_WATCH_TICK_SECONDS = (),
     LOG_LEVEL = ''INFO''\<rparr>"

definition demo_watch :: rpc_call where
  "demo_watch = \<lparr>rc_id = 0, rc_details = \<lparr>cd_method = method_path ''WatchStock'', cd_metadata = None\<rparr>\<rparr>"

definition demo_check :: rpc_call where
  "demo_check = \<lparr>rc_id = 1, rc_details = \<lparr>cd_method = HEALTH_METHOD_PREFIX @ ''Check'', cd_metadata = None\<rparr>\<rparr>"

lemma demo_methods: "HEALTH_METHOD_PREFIX @ s \<noteq> method_path m"
  by (simp add: HEALTH_METHOD_PREFIX_def method_path_def SERVICE_def)

lemma demo_grpc_pools: "grpc_pools demo_executor_of demo_registry"
  by (auto simp: grpc_pools_def demo_executor_of_def demo_registry_def kinds_def split: if_splits)

lemma mapped_health_contract: "health_contract mapped_health"
  by (auto simp: health_contract_def mapped_health_def split: option.splits)

lemma demo_saturated:
  "\<exists>sv0 sv. boot (\<lambda>_. True) mapped_health (demo_settings 1) = Inr sv0
    \<and> (server_step demo_executor_of demo_registry mapped_health '''')\<^sup>*\<^sup>* sv0 sv
    \<and> pr_pc (sv_process sv) = Running \<and> sv_arrived sv = [demo_watch] @ demo_check # []
    \<and> sv_ended sv = {} \<and> length (tp_running (sv_pools sv RequestPool)) = 1"
proof -
  let ?step = "server_step demo_executor_of demo_registry mapped_health ''''"
  obtain sv0 where boot: "boot (\<lambda>_. True) mapped_health (demo_settings 1) = Inr sv0"
    by (simp add: boot_def ThreadPoolExecutor_def demo_settings_def)
  then have start: "sv_arrived sv0 = []" "sv_ended sv0 = {}" "pr_pc (sv_process sv0) = Running" "\<not> sv_grace_over sv0"
      "sv_pools sv0 RequestPool = \<lparr>tp_max = 1, tp_waiting = [], tp_running = [], tp_taken = []\<rparr>"
    by (auto simp: boot_def ThreadPoolExecutor_def demo_settings_def serve_def)
  let ?arrive = "\<lambda>c sv. arrive demo_executor_of demo_registry '''' c sv"
  have arrive: "?arrive c sv = sv\<lparr>sv_pools := (sv_pools sv)(RequestPool := submit c (sv_pools sv RequestPool)),
      sv_arrived := sv_arrived sv @ [c]\<rparr>" if "c \<in> {demo_watch, demo_check}" for c and sv :: "((string \<rightharpoonup> serving_status) \<times> bool) grpc_server"
  proof -
    have "demo_registry (cd_method (rc_details c)) \<noteq> None"
      using that by (auto simp: demo_watch_def demo_check_def demo_registry_def)
    then obtain r where "demo_registry (cd_method (rc_details c)) = Some r" by blast
    then show ?thesis by (rule arrive_request [OF demo_grpc_pools])
  qed
  define sv1 where "sv1 = ?arrive demo_watch sv0"
  have sv1: "sv1 = sv0\<lparr>sv_pools := (sv_pools sv0)(RequestPool := submit demo_watch (sv_pools sv0 RequestPool)),
      sv_arrived := [demo_watch]\<rparr>" by (simp add: sv1_def arrive start)
  obtain p where p: "take_call (sv_pools sv1 RequestPool) = Some p" "length (tp_running p) = 1"
    by (simp add: sv1 start take_call_def submit_def)
  let ?sv2 = "sv1\<lparr>sv_pools := (sv_pools sv1)(RequestPool := p)\<rparr>"
  let ?sv3 = "?arrive demo_check ?sv2"
  have "?step sv0 sv1" unfolding sv1_def using start by (intro server_step.call) simp_all
  moreover have "?step sv1 ?sv2"
    using start p(1) by (intro server_step.worker work_step.take_first) (simp_all add: sv1)
  moreover have "?step ?sv2 ?sv3"
    using start by (intro server_step.call) (simp_all add: sv1 demo_watch_def demo_check_def)
  ultimately have "?step\<^sup>*\<^sup>* sv0 ?sv3" by (meson rtranclp.rtrancl_into_rtrancl rtranclp.rtrancl_refl)
  moreover have "pr_pc (sv_process ?sv3) = Running" "sv_arrived ?sv3 = [demo_watch] @ demo_check # []"
      "sv_ended ?sv3 = {}" "length (tp_running (sv_pools ?sv3 RequestPool)) = 1"
    using start p(2) by (simp_all add: arrive sv1 submit_def)
  ultimately show ?thesis using boot by blast
qed

theorem server_starts_iff_witness:
  "\<exists>sv. start_server (\<lambda>_. Some ()) (\<lambda>_ _. Inl SettingsError) (\<lambda>a. a = ''[::]:50051'') mapped_health
      [''LOG_LEVEL'' \<mapsto> ''debug'', ''GRPC_MAX_WORKERS'' \<mapsto> '' 4 ''] = Inr sv"
proof -
  let ?env = "[''LOG_LEVEL'' \<mapsto> ''debug'', ''GRPC_MAX_WORKERS'' \<mapsto> '' 4 '']"
  have "int_of_text (environ_get ?env ''GRPC_MAX_WORKERS'' ''10'') = Some 4"
    "map upper_char (environ_get ?env ''LOG_LEVEL'' ''INFO'') \<in> set level_names"
    "probe_address ?env = ''127.0.0.1:'' @ ''50051''"
    by code_simp+
  moreover have "environ_get ?env ''DJANGO_SETTINGS_MODULE'' ''inventory_project.settings'' = ''inventory_project.settings''"
    by (simp add: environ_get_def)
  ultimately show ?thesis
    using server_starts_iff [OF mapped_health_contract, of "\<lambda>_. Some ()" "\<lambda>_ _. Inl SettingsError"
        "\<lambda>a. a = ''[::]:50051''" ?env]
    unfolding Let_def by fastforce
qed

theorem request_pool_bounded_witness:
  "\<exists>sv. int (length (tp_running (sv_pools sv RequestPool))) \<le> (1::int)
    \<and> length (tp_running (sv_pools sv RequestPool)) = 1
    \<and> sv_arrived (sv :: ((string \<rightharpoonup> serving_status) \<times> bool) grpc_server) = [demo_watch, demo_check]
    \<and> tp_running (sv_pools sv HealthPool) = []"
proof -
  from demo_saturated obtain sv0 sv :: "((string \<rightharpoonup> serving_status) \<times> bool) grpc_server" where
    boot: "boot (\<lambda>_. True) mapped_health (demo_settings 1) = Inr sv0"
    and reach: "(server_step demo_executor_of demo_registry mapped_health '''')\<^sup>*\<^sup>* sv0 sv"
    and sv: "sv_arrived sv = [demo_watch] @ demo_check # []" "length (tp_running (sv_pools sv RequestPool)) = 1"
    by blast
  show ?thesis
    using request_pool_bounded [OF boot demo_grpc_pools mapped_health_contract reach] sv
    by (intro exI [of _ sv]) simp
qed

theorem calls_need_free_worker_witness:
  "\<exists>sv. pr_pc (sv_process sv) = Running \<and> sv_arrived sv = [demo_watch, demo_check]
    \<and> probe_exit 1 (sv :: ((string \<rightharpoonup> serving_status) \<times> bool) grpc_server) = 1"
proof -
  from demo_saturated obtain sv0 sv :: "((string \<rightharpoonup> serving_status) \<times> bool) grpc_server" where
    boot: "boot (\<lambda>_. True) mapped_health (demo_settings 1) = Inr sv0"
    and reach: "(server_step demo_executor_of demo_registry mapped_health '''')\<^sup>*\<^sup>* sv0 sv"
    and sv: "pr_pc (sv_process sv) = Running" "sv_arrived sv = [demo_watch] @ demo_check # []" "sv_ended sv = {}"
    by blast
  have "\<not> is_stream demo_registry '''' demo_check" by (simp add: is_stream_def demo_check_def demo_registry_def demo_methods kinds_def)
  moreover have "open_stream demo_registry '''' {} demo_watch"
    by (simp add: open_stream_def is_stream_def demo_watch_def authorised_def demo_registry_def kinds_def)
  ultimately show ?thesis
    using calls_need_free_worker [OF boot demo_grpc_pools mapped_health_contract reach sv(1,2)] sv
    by (intro exI [of _ sv]) (simp add: demo_settings_def demo_check_def)
qed


end
