(* ===== verification/MigrationEnv.thy ===== *)
theory MigrationEnv
  imports ServiceConfig "HOL-Library.Sublist"
begin

text \<open>
  \<^verbatim>\<open>alembic/env.py\<close>: where the migrations of the order database get their connection from and
  how they run, offline (printing SQL) and online (in one transaction over an async engine).
  The option parser of the standard library, through which the address of the database passes,
  is modelled; the migration scripts, the database and its faults are parameters.
\<close>

section \<open>Options with interpolation\<close>

text \<open>
  \<^verbatim>\<open>ConfigParser.set\<close> refuses a value in which, once the pairs \<open>%%\<close> and the references
  \<open>%(name)s\<close> are taken out, a percent sign is left; reading the option collapses the pairs and
  expands the references.
\<close>

datatype config_error = ValueSyntax | InterpolationSyntax | MissingOption

fun drop_escaped :: "string \<Rightarrow> string" where
  "drop_escaped (a # b # s) =
     (if a = CHR ''%'' \<and> b = CHR ''%'' then drop_escaped s else a # drop_escaped (b # s))"
| "drop_escaped s = s"

fun unescape :: "string \<Rightarrow> string" where
  "unescape (a # b # s) =
     (if a = CHR ''%'' \<and> b = CHR ''%'' then a # unescape s else a # unescape (b # s))"
| "unescape s = s"

definition match_key :: "string \<Rightarrow> (string \<times> string) option" where
  "match_key s =
     (if prefix ''%('' s then
        (let name = takeWhile (\<lambda>c. c \<noteq> CHR '')'') (drop 2 s); rest = dropWhile (\<lambda>c. c \<noteq> CHR '')'') (drop 2 s) in
         if name \<noteq> [] \<and> prefix '')s'' rest then Some (name, drop 2 rest) else None)
      else None)"

lemma match_key_shorter: "match_key s = Some (name, rest) \<Longrightarrow> length rest < length s"
proof -
  assume "match_key s = Some (name, rest)"
  then have "prefix ''%('' s" "rest = drop 2 (dropWhile (\<lambda>c. c \<noteq> CHR '')'') (drop 2 s))"
    by (auto simp: match_key_def Let_def split: if_splits)
  moreover have "length (dropWhile (\<lambda>c. c \<noteq> CHR '')'') (drop 2 s)) \<le> length (drop 2 s)"
    by (rule length_dropWhile_le)
  ultimately show ?thesis by (auto elim!: prefixE)
qed

function drop_keys :: "string \<Rightarrow> string" where
  "drop_keys [] = []"
| "drop_keys (c # s) = (case match_key (c # s) of Some (_, rest) \<Rightarrow> drop_keys rest | None \<Rightarrow> c # drop_keys s)"
  by pat_completeness auto
termination by (relation "measure length") (auto dest: match_key_shorter)

definition config_set :: "string \<Rightarrow> config_error + string" where
  "config_set value = (if CHR ''%'' \<in> set (drop_keys (drop_escaped value)) then Inl ValueSyntax else Inr value)"

text \<open>\<open>expand\<close> reads another option of the section.\<close>

function interpolate :: "(string \<Rightarrow> config_error + string) \<Rightarrow> string \<Rightarrow> config_error + string" where
  "interpolate expand [] = Inr []"
| "interpolate expand (c # s) =
     (if c \<noteq> CHR ''%'' then map_sum id ((#) c) (interpolate expand s)
      else if prefix ''%'' s then map_sum id ((#) c) (interpolate expand (tl s))
      else case match_key (c # s) of
        None \<Rightarrow> Inl InterpolationSyntax
      | Some (name, rest) \<Rightarrow>
          (case expand name of
             Inl e \<Rightarrow> Inl e
           | Inr v \<Rightarrow> map_sum id ((@) v) (interpolate expand rest)))"
  by pat_completeness auto
termination by (relation "measure (length \<circ> snd)") (auto dest: match_key_shorter elim!: prefixE)

text \<open>The address the engine of the online run is built from.\<close>

definition config_url :: "(string \<Rightarrow> config_error + string) \<Rightarrow> 'f order_settings \<Rightarrow> config_error + string" where
  "config_url expand st = (case config_set (database_url st) of Inl e \<Rightarrow> Inl e | Inr v \<Rightarrow> interpolate expand v)"

section \<open>The runs\<close>

datatype migration_event =
  Configure "string option"
| CreateEngine string
| Connect
| BeginTransaction
| RunMigrations
| CommitTransaction
| RollbackTransaction
| CloseConnection
| DisposeEngine

datatype migration_error = BadConfig config_error | ConnectFailed | MigrationFailed | CommitFailed

record 'db migration_world =
  mw_db :: 'db
  mw_events :: "migration_event list"

text \<open>
  The surroundings: whether a connection can be opened and the commit succeeds, what the
  pending migrations make of the database (\<open>None\<close>: one of them raises), and whether the
  offline scripts can be rendered.
\<close>

record 'db migration_api =
  ma_connects :: "string \<Rightarrow> bool"
  ma_commits :: bool
  ma_upgrade :: "'db \<Rightarrow> 'db option"
  ma_renders :: bool

type_synonym 'db migration = "'db migration_world \<Rightarrow> (migration_error + unit) \<times> 'db migration_world"

definition event :: "migration_event \<Rightarrow> 'db migration_world \<Rightarrow> 'db migration_world" where
  "event e w = w\<lparr>mw_events := mw_events w @ [e]\<rparr>"

definition begin_transaction :: "bool \<Rightarrow> 'db migration \<Rightarrow> 'db migration" where
  "begin_transaction commits body w =
     (let w0 = event BeginTransaction w in
      case body w0 of
        (Inl e, w1) \<Rightarrow> (Inl e, event RollbackTransaction (w1\<lparr>mw_db := mw_db w0\<rparr>))
      | (Inr u, w1) \<Rightarrow>
          if commits then (Inr u, event CommitTransaction w1)
          else (Inl CommitFailed, event RollbackTransaction (w1\<lparr>mw_db := mw_db w0\<rparr>)))"

definition run_migrations :: "'db migration_api \<Rightarrow> 'db migration" where
  "run_migrations api w =
     (case ma_upgrade api (mw_db w) of
        None \<Rightarrow> (Inl MigrationFailed, event RunMigrations w)
      | Some db \<Rightarrow> (Inr (), event RunMigrations (w\<lparr>mw_db := db\<rparr>)))"

text \<open>Offline, the transaction is the text of a \<^verbatim>\<open>BEGIN\<close> and, at the end, of a \<^verbatim>\<open>COMMIT\<close>.\<close>

definition run_migrations_offline :: "'db migration_api \<Rightarrow> 'f order_settings \<Rightarrow> 'db migration" where
  "run_migrations_offline api st w =
     (let w0 = event RunMigrations (event BeginTransaction (event (Configure (Some (database_url st))) w)) in
      if ma_renders api then (Inr (), event CommitTransaction w0) else (Inl MigrationFailed, w0))"

definition do_run_migrations :: "'db migration_api \<Rightarrow> 'db migration" where
  "do_run_migrations api w = begin_transaction (ma_commits api) (run_migrations api) (event (Configure None) w)"

definition run_async_migrations ::
  "'db migration_api \<Rightarrow> (string \<Rightarrow> config_error + string) \<Rightarrow> 'f order_settings \<Rightarrow> 'db migration" where
  "run_async_migrations api expand st w =
     (case config_url expand st of
        Inl e \<Rightarrow> (Inl (BadConfig e), w)
      | Inr url \<Rightarrow>
          (let w0 = event (CreateEngine url) w in
           if \<not> ma_connects api url then (Inl ConnectFailed, w0)
           else
             case do_run_migrations api (event Connect w0) of
               (Inl e, w1) \<Rightarrow> (Inl e, event CloseConnection w1)
             | (Inr u, w1) \<Rightarrow> (Inr u, event DisposeEngine (event CloseConnection w1))))"

text \<open>The module itself: the option is set before the mode is looked at.\<close>

definition env_main ::
  "bool \<Rightarrow> 'db migration_api \<Rightarrow> (string \<Rightarrow> config_error + string) \<Rightarrow> 'f order_settings \<Rightarrow> 'db migration" where
  "env_main offline api expand st w =
     (case config_set (database_url st) of
        Inl e \<Rightarrow> (Inl (BadConfig e), w)
      | Inr _ \<Rightarrow> if offline then run_migrations_offline api st w else run_async_migrations api expand st w)"

section \<open>Addresses and percent signs\<close>

lemma match_key_None: "\<not> sublist ''%('' s \<Longrightarrow> match_key s = None"
  unfolding match_key_def using prefix_imp_sublist by metis

lemma sublist_tl: "sublist t s \<Longrightarrow> sublist t (c # s)"
proof -
  assume "sublist t s"
  then obtain ps ss where "s = ps @ t @ ss" by (auto simp: sublist_def)
  then have "c # s = (c # ps) @ t @ ss" by simp
  then show ?thesis unfolding sublist_def by blast
qed

lemma no_key_tl: "\<not> sublist t (c # s) \<Longrightarrow> \<not> sublist t s"
  by (erule contrapos_nn) (rule sublist_tl)

lemma drop_keys_id: "\<not> sublist ''%('' s \<Longrightarrow> drop_keys s = s"
proof (induction s)
  case (Cons c s)
  then have "drop_keys s = s" using no_key_tl [OF Cons.prems] by simp
  with match_key_None [OF Cons.prems] show ?case by simp
qed simp

lemma set_drop_escaped: "set (drop_escaped s) \<subseteq> set s"
  by (induction s rule: drop_escaped.induct) auto

lemma drop_escaped_id: "CHR ''%'' \<notin> set s \<Longrightarrow> drop_escaped s = s"
  by (induction s rule: drop_escaped.induct) auto

lemma unescape_id_iff: "CHR ''%'' \<notin> set (drop_escaped s) \<Longrightarrow> unescape s = s \<longleftrightarrow> CHR ''%'' \<notin> set s"
proof -
  have "length (unescape s) \<le> length s" for s
    by (induction s rule: unescape.induct) auto
  then have "unescape s \<noteq> c # s" for s c
    by (metis Suc_n_not_le_n length_Cons)
  then show "CHR ''%'' \<notin> set (drop_escaped s) \<Longrightarrow> unescape s = s \<longleftrightarrow> CHR ''%'' \<notin> set s"
    by (induction s rule: unescape.induct) (auto split: if_splits)
qed

text \<open>Without references, a stored value is read back with its pairs collapsed.\<close>

lemma interpolate_unescape:
  "CHR ''%'' \<notin> set (drop_escaped s) \<Longrightarrow> interpolate expand s = Inr (unescape s)"
proof (induction s rule: unescape.induct)
  case (1 a b s)
  then show ?case by (cases "a = CHR ''%''") (auto split: if_splits)
qed auto

text \<open>Taking out pairs does not create a reference.\<close>

lemma hd_drop_escaped: "b \<noteq> CHR ''%'' \<Longrightarrow> drop_escaped (b # s) = b # drop_escaped s"
  by (cases s) auto

lemma drop_escaped_keys: "sublist ''%('' (drop_escaped s) \<Longrightarrow> sublist ''%('' s"
proof (induction s rule: drop_escaped.induct)
  case (1 a b s)
  show ?case
  proof (cases "a = CHR ''%'' \<and> b = CHR ''%''")
    case True
    with 1 have "sublist ''%('' s" by simp
    then show ?thesis by (intro sublist_tl)
  next
    case False
    then have "drop_escaped (a # b # s) = a # drop_escaped (b # s)" by (simp only: drop_escaped.simps if_False)
    with 1(3) have "prefix ''%('' (a # drop_escaped (b # s)) \<or> sublist ''%('' (drop_escaped (b # s))"
      by (metis sublist_Cons_right)
    then show ?thesis
    proof
      assume "prefix ''%('' (a # drop_escaped (b # s))"
      then have a: "a = CHR ''%''" and b: "prefix ''('' (drop_escaped (b # s))" by auto
      with False have "b \<noteq> CHR ''%''" by simp
      then have "b = CHR ''(''" using b by (simp add: hd_drop_escaped)
      with a have "prefix ''%('' (a # b # s)" by simp
      then show ?thesis by (rule prefix_imp_sublist)
    next
      assume "sublist ''%('' (drop_escaped (b # s))"
      then have "sublist ''%('' (b # s)" by (rule 1(2) [OF False])
      then show ?thesis by (rule sublist_tl)
    qed
  qed
qed simp_all

lemma config_set_no_key:
  "\<not> sublist ''%('' s \<Longrightarrow>
    config_set s = (if CHR ''%'' \<in> set (drop_escaped s) then Inl ValueSyntax else Inr s)"
proof -
  assume "\<not> sublist ''%('' s"
  then have "\<not> sublist ''%('' (drop_escaped s)" by (rule contrapos_nn) (rule drop_escaped_keys)
  then show ?thesis by (simp add: config_set_def drop_keys_id)
qed

lemma drop_escaped_no_pair: "\<not> sublist ''%%'' s \<Longrightarrow> drop_escaped s = s"
proof (induction s rule: drop_escaped.induct)
  case (1 a b s)
  then have "\<not> (a = CHR ''%'' \<and> b = CHR ''%'')"
    using prefix_imp_sublist [of "''%%''" "a # b # s"] by auto
  with 1(2) no_key_tl [OF 1(3)] show ?case by auto
qed simp_all

text \<open>
  What the address determines: the parts are written unescaped, so it gives them back only if
  they are free of the separators; a colon, say, may belong to the user or to the password. The
  remedy, percent-encoding, is what the migrations refuse below.
\<close>

definition plain_part :: "string \<Rightarrow> bool" where
  "plain_part s \<longleftrightarrow> CHR '':'' \<notin> set s \<and> CHR ''@'' \<notin> set s \<and> CHR ''/'' \<notin> set s"

lemma append_separator: "c \<notin> set a \<Longrightarrow> c \<notin> set b \<Longrightarrow> a @ c # x = b @ c # y \<longleftrightarrow> a = b \<and> x = y"
  by (induction a arbitrary: b; case_tac b) auto

definition plain_settings :: "database_settings \<Rightarrow> bool" where
  "plain_settings db \<longleftrightarrow> plain_part (db_user db) \<and> plain_part (db_password db)
     \<and> plain_part (db_host db) \<and> plain_part (db_port db)"

lemma database_url_exact:
  "plain_settings (postgres st) \<Longrightarrow> plain_settings (postgres st')
    \<Longrightarrow> database_url st = database_url st' \<longleftrightarrow> postgres st = postgres st'"
  by (cases "postgres st"; cases "postgres st'")
    (auto simp: database_url_def plain_settings_def plain_part_def append_separator)

lemma database_url_ambiguous:
  "\<exists>(st :: unit order_settings) (st' :: unit order_settings). postgres st \<noteq> postgres st' \<and> database_url st = database_url st'"
proof -
  let ?st = "\<lambda>user password. \<lparr>postgres = \<lparr>db_name = ''orders'', db_user = user, db_password = password,
      db_host = ''order-db'', db_port = ''5432''\<rparr>, inventory_grpc_targets = '''', grpc_auth_token = '''',
      grpc_deadline_seconds = ()\<rparr> :: unit order_settings"
  have "database_url (?st ''a:b'' ''c'') = database_url (?st ''a'' ''b:c'')" by (simp add: database_url_def)
  moreover have "postgres (?st ''a:b'' ''c'') \<noteq> postgres (?st ''a'' ''b:c'')" by simp
  ultimately show ?thesis by blast
qed

section \<open>Properties\<close>

text \<open>
  C35: the database that is migrated. Unless the address contains \<open>%(\<close>, the migrations either
  refuse it, offline as well as online and before anything is done, or read it with every pair
  of percent signs collapsed; so they run against the very address that the service itself uses
  exactly when it contains no percent sign. In particular they refuse every address with a
  percent-encoded part, with which the service itself connects.
\<close>

theorem migration_address:
  assumes "\<not> sublist ''%('' (database_url st)"
  shows "config_url expand st = (if CHR ''%'' \<in> set (drop_escaped (database_url st)) then Inl ValueSyntax
           else Inr (unescape (database_url st)))
    \<and> (config_url expand st = Inr (database_url st) \<longleftrightarrow> CHR ''%'' \<notin> set (database_url st))
    \<and> (CHR ''%'' \<in> set (drop_escaped (database_url st)) \<longrightarrow>
         env_main offline api expand st w = (Inl (BadConfig ValueSyntax), w))
    \<and> (CHR ''%'' \<in> set (database_url st) \<and> \<not> sublist ''%%'' (database_url st) \<longrightarrow>
         env_main offline api expand st w = (Inl (BadConfig ValueSyntax), w))"
proof -
  let ?url = "database_url st"
  note stored = config_set_no_key [OF assms]
  have url: "config_url expand st = (if CHR ''%'' \<in> set (drop_escaped ?url) then Inl ValueSyntax
      else Inr (unescape ?url))"
    by (simp add: config_url_def stored interpolate_unescape)
  moreover have "config_url expand st = Inr ?url \<longleftrightarrow> CHR ''%'' \<notin> set ?url"
    using url unescape_id_iff [of ?url] set_drop_escaped [of ?url] by auto
  moreover have "CHR ''%'' \<in> set (drop_escaped ?url) \<Longrightarrow> env_main offline api expand st w = (Inl (BadConfig ValueSyntax), w)"
    by (simp add: env_main_def stored)
  ultimately show ?thesis using drop_escaped_no_pair [of ?url] by metis
qed

text \<open>
  An online run is atomic. It succeeds exactly when the address is accepted, the database
  connects, every pending migration succeeds and so does the commit; then the database is the
  migrated one, and otherwise it is unchanged. Only the configured address is dialled, what is
  opened is closed, the transaction begins at most once and then ends exactly once, and the
  engine is disposed of exactly on success.
\<close>

theorem migration_run_atomic:
  assumes "env_main False api expand st w = (r, w')"
  shows "(r = Inr () \<longleftrightarrow> (\<exists>url db. config_url expand st = Inr url \<and> ma_connects api url
           \<and> ma_upgrade api (mw_db w) = Some db \<and> ma_commits api))
    \<and> Some (mw_db w') = (if r = Inr () then ma_upgrade api (mw_db w) else Some (mw_db w))
    \<and> (\<exists>es. mw_events w' = mw_events w @ es
         \<and> (\<forall>url. CreateEngine url \<in> set es \<longrightarrow> config_url expand st = Inr url)
         \<and> count_list es Connect = count_list es CloseConnection
         \<and> count_list es BeginTransaction = count_list es CommitTransaction + count_list es RollbackTransaction
         \<and> count_list es BeginTransaction \<le> 1
         \<and> count_list es DisposeEngine = (if r = Inr () then 1 else 0))"
proof (cases "config_url expand st")
  case (Inl e)
  with assms show ?thesis
    by (auto simp: env_main_def run_async_migrations_def config_url_def split: sum.splits)
next
  case (Inr url)
  then have main: "env_main False api expand st w = run_async_migrations api expand st w"
    by (auto simp: env_main_def config_url_def split: sum.splits)
  show ?thesis
    using assms unfolding main
    by (cases "ma_connects api url"; cases "ma_upgrade api (mw_db w)"; cases "ma_commits api")
      (auto simp: run_async_migrations_def Inr do_run_migrations_def begin_transaction_def
        run_migrations_def event_def Let_def)
qed

definition demo_order_settings :: "string \<Rightarrow> unit order_settings" where
  "demo_order_settings password =
     \<lparr>postgres = \<lparr>db_name = ''orders'', db_user = ''orders'', db_password = password,
        db_host = ''order-db'', db_port = ''5432''\<rparr>,
      inventory_grpc_targets = ''inventory-service:50051'', grpc_auth_token = '''', grpc_deadline_seconds = ()\<rparr>"

definition demo_migrations :: "nat migration_api" where
  "demo_migrations = \<lparr>ma_connects = (\<lambda>_. True), ma_commits = True, ma_upgrade = (\<lambda>n. Some (n + 1)), ma_renders = True\<rparr>"

theorem migration_address_witness:
  "env_main False demo_migrations (\<lambda>_. Inl MissingOption) (demo_order_settings ''p%40ss'') \<lparr>mw_db = 0, mw_events = []\<rparr>
    = (Inl (BadConfig ValueSyntax), \<lparr>mw_db = 0, mw_events = []\<rparr>)"
proof -
  let ?st = "demo_order_settings ''p%40ss''"
  have "\<not> sublist ''%('' (database_url ?st)" "\<not> sublist ''%%'' (database_url ?st)" "CHR ''%'' \<in> set (database_url ?st)"
    by (simp_all add: database_url_def demo_order_settings_def sublist_Cons_right)
  then show ?thesis using migration_address [of ?st] by blast
qed

theorem migration_run_atomic_witness:
  "\<exists>w'. env_main False demo_migrations (\<lambda>_. Inl MissingOption) (demo_order_settings ''s3cret'') \<lparr>mw_db = 0, mw_events = []\<rparr>
      = (Inr (), w') \<and> mw_db w' = 1 \<and> count_list (mw_events w') DisposeEngine = 1"
proof -
  let ?st = "demo_order_settings ''s3cret''" and ?w = "\<lparr>mw_db = 0, mw_events = []\<rparr> :: nat migration_world"
  obtain r w' where run: "env_main False demo_migrations (\<lambda>_. Inl MissingOption) ?st ?w = (r, w')" by fastforce
  have "config_url (\<lambda>_. Inl MissingOption) ?st = Inr (database_url ?st)" by code_simp
  then have "r = Inr ()" using migration_run_atomic [OF run] by (auto simp: demo_migrations_def)
  then show ?thesis using run migration_run_atomic [OF run] by (auto simp: demo_migrations_def)
qed


end
