(* ===== verification/OrderApp.thy ===== *)
theory OrderApp
  imports OrderRouter ServiceConfig JsonPrint
begin

text \<open>
  The order service as an application: the life of its shared objects in \<^verbatim>\<open>main.py\<close>
  (\<^verbatim>\<open>lifespan\<close>, the probes), \<^verbatim>\<open>core/database.py\<close> and \<^verbatim>\<open>grpc_client/deps.py\<close>, and the table
  of its routes in \<^verbatim>\<open>api/api_v1.py\<close>; and the JSON body in which an order is answered. That a channel only shuts down when it is closed, and how a
  path is matched segment by segment, is documented behaviour of grpc and of the web framework.
\<close>

section \<open>The life of the application\<close>

text \<open>
  \<^verbatim>\<open>InventoryClient(channel, deadline)\<close>, known by the target of its channel, and the attributes of
  \<^verbatim>\<open>app.state\<close>; the engine is created on import.
\<close>

record 'f inventory_stub =
  is_target :: string
  is_deadline :: 'f

record 'f app_state =
  st_channel :: "connectivity option"
  st_inventory :: "'f inventory_stub option"
  st_engine_disposed :: bool

datatype app_error = LifespanIndexError | StateAttributeError

definition new_app :: "'f app_state" where
  "new_app = \<lparr>st_channel = None, st_inventory = None, st_engine_disposed = False\<rparr>"

definition lifespan_enter :: "'f order_settings \<Rightarrow> 'f app_state \<Rightarrow> app_error + 'f app_state" where
  "lifespan_enter st ap =
     (case channel_target st of
        None \<Rightarrow> Inl LifespanIndexError
      | Some target \<Rightarrow> Inr (ap\<lparr>st_channel := Some IDLE,
          st_inventory := Some \<lparr>is_target = target, is_deadline = grpc_deadline_seconds st\<rparr>\<rparr>))"

text \<open>The \<^verbatim>\<open>finally\<close> block; \<open>raises\<close>: \<^verbatim>\<open>channel.close()\<close> raises after the channel is shut down.\<close>

definition lifespan_exit :: "bool \<Rightarrow> 'f app_state \<Rightarrow> 'f app_state" where
  "lifespan_exit raises ap =
     (let closed = ap\<lparr>st_channel := Some SHUTDOWN\<rparr> in
      if raises then closed else closed\<lparr>st_engine_disposed := True\<rparr>)"

definition get_inventory :: "'f app_state \<Rightarrow> app_error + 'f inventory_stub" where
  "get_inventory ap = (case st_inventory ap of None \<Rightarrow> Inl StateAttributeError | Some c \<Rightarrow> Inr c)"

definition healthz :: "int \<times> (string \<times> string) list" where
  "healthz = (200, [(''status'', ''ok'')])"

definition app_readyz :: "bool \<Rightarrow> 'f app_state \<Rightarrow> int \<times> (string \<times> string) list" where
  "app_readyz database_up ap = readyz database_up (st_channel ap)"

datatype app_phase = NotStarted | Serving | Exited | StartFailed

text \<open>
  The server enters the lifespan, serves, and leaves it. While it serves, the channel
  changes its connectivity by itself, but shuts down only when closed.
\<close>

inductive app_step ::
  "'f order_settings \<Rightarrow> app_phase \<times> 'f app_state \<Rightarrow> app_phase \<times> 'f app_state \<Rightarrow> bool" for st where
  enter: "lifespan_enter st ap = Inr ap' \<Longrightarrow> app_step st (NotStarted, ap) (Serving, ap')"
| fail: "lifespan_enter st ap = Inl e \<Longrightarrow> app_step st (NotStarted, ap) (StartFailed, ap)"
| connectivity: "c \<noteq> SHUTDOWN \<Longrightarrow> app_step st (Serving, ap) (Serving, ap\<lparr>st_channel := Some c\<rparr>)"
| exit: "app_step st (Serving, ap) (Exited, lifespan_exit raises ap)"

section \<open>Routes\<close>

datatype http_method = HTTP string | WEBSOCKET

datatype segment = Lit string | Param

datatype endpoint =
  Healthz | Readyz | CreateOrder | CreateOrdersBulk | GetOrder | LowStock | StockWatchSocket | StockWatchDemo

type_synonym route_table = "(http_method \<times> segment list \<times> endpoint) list"

definition orders_router :: route_table where
  "orders_router =
     [(HTTP ''POST'', [], CreateOrder),
      (HTTP ''POST'', [Lit ''bulk''], CreateOrdersBulk),
      (HTTP ''GET'', [Param], GetOrder)]"

definition inventory_router :: route_table where
  "inventory_router =
     [(HTTP ''GET'', [Lit ''low-stock''], LowStock),
      (WEBSOCKET, [Lit ''stock-watch''], StockWatchSocket),
      (HTTP ''GET'', [Lit ''stock-watch'', Lit ''demo''], StockWatchDemo)]"

definition include_router :: "string \<Rightarrow> route_table \<Rightarrow> route_table" where
  "include_router name = map (\<lambda>(m, p, e). (m, Lit name # p, e))"

definition api_router :: route_table where
  "api_router = include_router ''orders'' orders_router @ include_router ''inventory'' inventory_router"

definition app_routes :: route_table where
  "app_routes =
     [(HTTP ''GET'', [Lit ''healthz''], Healthz), (HTTP ''GET'', [Lit ''readyz''], Readyz)] @ api_router"

text \<open>A parameter stands for one segment, which is not empty.\<close>

fun split_slash :: "string \<Rightarrow> string list" where
  "split_slash [] = [[]]"
| "split_slash (c # s) =
     (if c = CHR ''/'' then [] # split_slash s
      else (case split_slash s of [] \<Rightarrow> [[c]] | t # ts \<Rightarrow> (c # t) # ts))"

fun match_segments :: "segment list \<Rightarrow> string list \<Rightarrow> string list option" where
  "match_segments [] [] = Some []"
| "match_segments (Lit l # ps) (s # ss) = (if s = l then match_segments ps ss else None)"
| "match_segments (Param # ps) (s # ss) = (if s = '''' then None else map_option ((#) s) (match_segments ps ss))"
| "match_segments _ _ = None"

definition match_path :: "segment list \<Rightarrow> string \<Rightarrow> string list option" where
  "match_path p path = match_segments (Lit '''' # p) (split_slash path)"

definition route_matches :: "route_table \<Rightarrow> http_method \<Rightarrow> string \<Rightarrow> (endpoint \<times> string list) list" where
  "route_matches routes m path =
     List.map_filter (\<lambda>(m', p, e). if m' = m then map_option (Pair e) (match_path p path) else None) routes"

text \<open>The first route that matches; a path of a route with another verb is a 405.\<close>

datatype resolution = Endpoint endpoint "string list" | MethodNotAllowed | NoRoute

definition resolve_route :: "route_table \<Rightarrow> http_method \<Rightarrow> string \<Rightarrow> resolution" where
  "resolve_route routes m path =
     (case route_matches routes m path of
        (e, args) # _ \<Rightarrow> Endpoint e args
      | [] \<Rightarrow> if list_ex (\<lambda>(m', p, _). m' \<noteq> WEBSOCKET \<and> match_path p path \<noteq> None) routes \<and> m \<noteq> WEBSOCKET
              then MethodNotAllowed else NoRoute)"

lemma split_slash_not_Nil [simp]: "split_slash s \<noteq> []"
  by (cases s) (auto split: list.split)

lemma split_slash_single: "CHR ''/'' \<notin> set s \<Longrightarrow> split_slash s = [s]"
  by (induction s) auto

lemma split_slash_eq_single: "split_slash s = [t] \<longleftrightarrow> s = t \<and> CHR ''/'' \<notin> set s"
proof (induction s arbitrary: t)
  case (Cons c s)
  then show ?case by (cases "split_slash s") auto
qed auto

lemma match_segments_length: "match_segments ps ss = Some args \<Longrightarrow> length ss = length ps"
  by (induction ps ss arbitrary: args rule: match_segments.induct) (auto split: if_splits)

lemma split_slash_eq_more:
  "split_slash s = t # u # ts \<longleftrightarrow> (\<exists>r. s = t @ CHR ''/'' # r \<and> CHR ''/'' \<notin> set t \<and> split_slash r = u # ts)"
proof (induction s arbitrary: t)
  case (Cons c s)
  show ?case
  proof (cases "c = CHR ''/''")
    case True
    then show ?thesis by (cases t) auto
  next
    case False
    obtain v vs where vs: "split_slash s = v # vs" by (cases "split_slash s") auto
    show ?thesis
    proof (cases t)
      case Nil
      then show ?thesis using False vs by simp
    next
      case (Cons d t')
      then show ?thesis using False vs Cons.IH [of t'] by auto
    qed
  qed
qed simp

lemma match_order_path:
  "match_path [Lit ''orders'', Param] path = Some args \<longleftrightarrow>
    (\<exists>i. path = ''/orders/'' @ i \<and> args = [i] \<and> i \<noteq> '''' \<and> CHR ''/'' \<notin> set i)"
proof -
  have "match_path [Lit ''orders'', Param] path = Some args \<longleftrightarrow>
      (\<exists>i. split_slash path = ['''', ''orders'', i] \<and> args = [i] \<and> i \<noteq> '''')"
  proof (cases "length (split_slash path) = 3")
    case True
    then obtain a b c where "split_slash path = [a, b, c]" by (auto simp: numeral_3_eq_3 length_Suc_conv)
    then show ?thesis by (auto simp: match_path_def)
  next
    case False
    then show ?thesis using match_segments_length by (fastforce simp: match_path_def)
  qed
  moreover have "split_slash path = ['''', ''orders'', i] \<longleftrightarrow> path = ''/orders/'' @ i \<and> CHR ''/'' \<notin> set i" for i
    by (auto simp: split_slash_eq_more split_slash_eq_single)
  ultimately show ?thesis by blast
qed

lemma set_route_matches:
  "(e, args) \<in> set (route_matches routes m path) \<longleftrightarrow> (\<exists>p. (m, p, e) \<in> set routes \<and> match_path p path = Some args)"
  by (induction routes) (auto simp: route_matches_def List.map_filter_simps split: option.splits if_splits)

definition patterns_of :: "http_method \<Rightarrow> route_table \<Rightarrow> segment list list" where
  "patterns_of m routes = map (fst \<circ> snd) (filter (\<lambda>(m', _). m' = m) routes)"

lemma length_route_matches:
  "length (route_matches routes m path) = length (filter (\<lambda>p. match_path p path \<noteq> None) (patterns_of m routes))"
  unfolding patterns_of_def
  by (induction routes) (auto simp: route_matches_def List.map_filter_simps split: option.splits if_splits)

lemma route_matches_GetOrder:
  "(GetOrder, args) \<in> set (route_matches app_routes m path) \<longleftrightarrow>
    m = HTTP ''GET'' \<and> match_path [Lit ''orders'', Param] path = Some args"
proof -
  have "(m, p, GetOrder) \<in> set app_routes \<longleftrightarrow> m = HTTP ''GET'' \<and> p = [Lit ''orders'', Param]" for m p
    by (simp add: app_routes_def api_router_def include_router_def orders_router_def inventory_router_def)
  then show ?thesis by (auto simp: set_route_matches)
qed

lemma one_route: "length (route_matches app_routes m path) \<le> 1"
proof -
  have routes: "app_routes =
     [(HTTP ''GET'', [Lit ''healthz''], Healthz), (HTTP ''GET'', [Lit ''readyz''], Readyz),
      (HTTP ''POST'', [Lit ''orders''], CreateOrder), (HTTP ''POST'', [Lit ''orders'', Lit ''bulk''], CreateOrdersBulk),
      (HTTP ''GET'', [Lit ''orders'', Param], GetOrder),
      (HTTP ''GET'', [Lit ''inventory'', Lit ''low-stock''], LowStock),
      (WEBSOCKET, [Lit ''inventory'', Lit ''stock-watch''], StockWatchSocket),
      (HTTP ''GET'', [Lit ''inventory'', Lit ''stock-watch'', Lit ''demo''], StockWatchDemo)]"
    by (simp add: app_routes_def api_router_def include_router_def orders_router_def inventory_router_def)
  obtain s ss where path: "split_slash path = s # ss" by (cases "split_slash path") auto
  consider (none) "ss = []" | (one) a where "ss = [a]" | (two) a b where "ss = [a, b]"
    | (more) a b c cs where "ss = a # b # c # cs"
    by (metis list.exhaust)
  then have patterns: "length (filter (\<lambda>p. match_path p path \<noteq> None)
        [[Lit ''healthz''], [Lit ''readyz''], [Lit ''orders'', Param], [Lit ''inventory'', Lit ''low-stock''],
         [Lit ''inventory'', Lit ''stock-watch'', Lit ''demo'']]) \<le> 1"
      "length (filter (\<lambda>p. match_path p path \<noteq> None) [[Lit ''orders''], [Lit ''orders'', Lit ''bulk'']]) \<le> 1"
    by (cases; simp add: match_path_def path)+
  consider "m = HTTP ''GET''" | "m = HTTP ''POST''" | "m = WEBSOCKET"
    | "m \<notin> {HTTP ''GET'', HTTP ''POST'', WEBSOCKET}"
    by blast
  then show ?thesis
  proof cases
    case 1
    then have "patterns_of m app_routes = [[Lit ''healthz''], [Lit ''readyz''], [Lit ''orders'', Param],
        [Lit ''inventory'', Lit ''low-stock''], [Lit ''inventory'', Lit ''stock-watch'', Lit ''demo'']]"
      by (simp add: patterns_of_def routes)
    with patterns(1) show ?thesis by (simp only: length_route_matches)
  next
    case 2
    then have "patterns_of m app_routes = [[Lit ''orders''], [Lit ''orders'', Lit ''bulk'']]"
      by (simp add: patterns_of_def routes)
    with patterns(2) show ?thesis by (simp only: length_route_matches)
  next
    case 3
    then have "patterns_of m app_routes = [[Lit ''inventory'', Lit ''stock-watch'']]"
      by (simp add: patterns_of_def routes)
    then show ?thesis by (simp only: length_route_matches) simp
  next
    case 4
    then have "patterns_of m app_routes = []" by (auto simp: patterns_of_def routes)
    then show ?thesis by (simp only: length_route_matches) simp
  qed
qed

lemma set_hex_digits: "set (hex_digits k n) \<subseteq> set ''0123456789abcdef''"
proof (induction k arbitrary: n)
  case (Suc k)
  have "''0123456789abcdef'' ! (n mod 16) \<in> set ''0123456789abcdef''" by (intro nth_mem) simp
  with Suc show ?case by auto
qed simp

lemma uuid_no_slash: "CHR ''/'' \<notin> set (uuid_str n)"
proof
  assume "CHR ''/'' \<in> set (uuid_str n)"
  then have "CHR ''/'' \<in> set (filter (\<lambda>c. c \<noteq> CHR ''-'') (uuid_str n))" by simp
  then have "CHR ''/'' \<in> set (hex_digits 32 n)" by (simp only: uuid_str_digits)
  with set_hex_digits show False by fastforce
qed

section \<open>The body of an order\<close>

text \<open>
  \<^verbatim>\<open>OrderOut\<close> of \<^verbatim>\<open>modules/orders/schemas.py\<close>; \<open>isoformat\<close> is how a time prints. The response is
  its compact JSON.
\<close>

definition OrderItemOut :: "order_item \<Rightarrow> json" where
  "OrderItemOut i =
     JObj [(cps ''product_id'', JInt (oi_product_id i)), (cps ''quantity'', JInt (oi_quantity i))]"

definition OrderOut :: "(int \<Rightarrow> string) \<Rightarrow> order \<Rightarrow> json" where
  "OrderOut isoformat ord =
     JObj [(cps ''id'', JStr (cps (o_id ord))), (cps ''status'', JStr (cps (o_status ord))),
       (cps ''created_at'', JStr (cps (isoformat (o_created_at ord)))),
       (cps ''items'', JArr (map OrderItemOut (o_items ord)))]"

lemma cps_eq_iff: "cps s = cps t \<longleftrightarrow> s = t"
  by (simp add: cps_def inj_map_eq_map inj_def)

lemma OrderItemOut_inj: "OrderItemOut i = OrderItemOut j \<longleftrightarrow> i = j"
  by (cases i; cases j) (simp add: OrderItemOut_def)

lemma OrderOut_printable:
  assumes "list_all (\<lambda>i. in_int4 (oi_product_id i) \<and> in_int4 (oi_quantity i)) (o_items ord)"
  shows "printable (OrderOut isoformat ord)"
proof -
  have "length (str_int n) \<le> 4300" if "in_int4 n" for n
    using that str_int_fits [of n] by (simp add: in_int4_def max_int4_def)
  then have "printable (OrderItemOut i)" if "i \<in> set (o_items ord)" for i
    using that assms by (simp add: OrderItemOut_def list_all_iff)
  then show ?thesis by (simp add: OrderOut_def)
qed

text \<open>
  The body of an order can be read back, and it tells orders apart: two orders whose lines fit their
  columns have the same body exactly when they are equal, as far as times that print alike are.
\<close>

lemma order_body_exact:
  assumes "list_all (\<lambda>i. in_int4 (oi_product_id i) \<and> in_int4 (oi_quantity i)) (o_items ord)"
    and "list_all (\<lambda>i. in_int4 (oi_product_id i) \<and> in_int4 (oi_quantity i)) (o_items ord')"
  shows "loads (dumps (OrderOut isoformat ord)) = Some (OrderOut isoformat ord)
    \<and> (dumps (OrderOut isoformat ord) = dumps (OrderOut isoformat ord') \<longleftrightarrow>
        o_id ord = o_id ord' \<and> o_status ord = o_status ord' \<and> o_items ord = o_items ord'
        \<and> isoformat (o_created_at ord) = isoformat (o_created_at ord'))"
proof -
  have read: "loads (dumps (OrderOut isoformat x)) = Some (OrderOut isoformat x)" if "x \<in> {ord, ord'}" for x
    using that assms by (auto intro!: loads_dumps OrderOut_printable)
  then have "dumps (OrderOut isoformat ord) = dumps (OrderOut isoformat ord')
      \<longleftrightarrow> OrderOut isoformat ord = OrderOut isoformat ord'"
    by (metis insertI1 insertI2 option.inject)
  moreover have "map OrderItemOut is = map OrderItemOut js \<longleftrightarrow> is = js" for "is" js
    by (simp add: inj_map_eq_map inj_def OrderItemOut_inj)
  ultimately show ?thesis using read by (auto simp: OrderOut_def cps_eq_iff)
qed

section \<open>Properties\<close>

text \<open>
  C37: the routes. No request matches two routes, so the order of registration is irrelevant; the
  order endpoint gets exactly the paths \<^verbatim>\<open>/orders/<id>\<close> whose id is not empty and has no slash. So
  an order that was created without a key can be addressed, and one that was accepted under an
  idempotency key can be addressed by its id exactly when the key contains no slash.
\<close>

theorem order_routes_exact:
  assumes "accepted payload key"
  shows "length (route_matches app_routes m path) \<le> 1
    \<and> (resolve_route app_routes m path = Endpoint GetOrder args \<longleftrightarrow> m = HTTP ''GET''
         \<and> (\<exists>i. path = ''/orders/'' @ i \<and> args = [i] \<and> i \<noteq> '''' \<and> CHR ''/'' \<notin> set i))
    \<and> (resolve_route app_routes (HTTP ''GET'') (''/orders/'' @ request_ref rq key)
           = Endpoint GetOrder [request_ref rq key]
         \<longleftrightarrow> (case key of None \<Rightarrow> True | Some k \<Rightarrow> CHR ''/'' \<notin> set k))"
proof -
  have resolve: "resolve_route app_routes m path = Endpoint GetOrder args \<longleftrightarrow> m = HTTP ''GET''
      \<and> (\<exists>i. path = ''/orders/'' @ i \<and> args = [i] \<and> i \<noteq> '''' \<and> CHR ''/'' \<notin> set i)" for m path args
  proof -
    have "resolve_route app_routes m path = Endpoint GetOrder args
        \<longleftrightarrow> (GetOrder, args) \<in> set (route_matches app_routes m path)"
      using one_route [of m path]
      by (cases "route_matches app_routes m path") (auto simp: resolve_route_def)
    then show ?thesis by (simp add: route_matches_GetOrder match_order_path)
  qed
  have "CHR ''/'' \<notin> set (request_ref rq key) \<longleftrightarrow> (case key of None \<Rightarrow> True | Some k \<Rightarrow> CHR ''/'' \<notin> set k)"
    "request_ref rq key \<noteq> ''''"
    using assms uuid_no_slash request_ref_proper [OF assms, of rq]
    by (auto simp: request_ref_def order_ref_of_def accepted_def proper_ref_def split: option.splits)
  then show ?thesis using one_route resolve by auto
qed

theorem order_routes_exact_witness:
  "resolve_route app_routes (HTTP ''GET'') ''/orders/2026/07'' \<noteq> Endpoint GetOrder [''2026/07'']
    \<and> resolve_route app_routes (HTTP ''GET'') ''/orders/bulk'' = Endpoint GetOrder [''bulk'']"
proof -
  let ?payload = "[\<lparr>in_product_id = 1, in_quantity = 1\<rparr>]"
  have "accepted ?payload (Some ''2026/07'')" "accepted ?payload (Some ''bulk'')"
    by (simp_all add: accepted_def valid_order_def valid_item_def)
  from order_routes_exact [OF this(1)] order_routes_exact [OF this(2)]
  show ?thesis by (simp add: request_ref_def order_ref_of_def)
qed

text \<open>
  C36: the shared objects over the life of the application. While it serves, every request gets
  the one client that was built at the start, for the first configured target and the configured
  deadline, and the readiness probe answers 200 exactly if the database answers, whatever the state
  of the inventory service; before and after, it answers 503. The start fails exactly for
  want of a target.
\<close>

theorem app_serves_one_client:
  assumes "(app_step st)\<^sup>*\<^sup>* (NotStarted, new_app) (phase, ap)"
  shows "(phase = Serving \<longrightarrow> (\<exists>t ts. inventory_targets (inventory_grpc_targets st) = t # ts
           \<and> get_inventory ap = Inr \<lparr>is_target = ''dns:///'' @ t, is_deadline = grpc_deadline_seconds st\<rparr>)
         \<and> (\<forall>database_up. fst (app_readyz database_up ap) = (if database_up then 200 else 503)))
    \<and> (phase \<noteq> Serving \<longrightarrow> (\<forall>database_up. fst (app_readyz database_up ap) = 503))
    \<and> (phase = StartFailed \<longrightarrow> inventory_targets (inventory_grpc_targets st) = [])
    \<and> (st_engine_disposed ap \<longrightarrow> phase = Exited)"
proof -
  let ?inv = "\<lambda>(phase, ap). (phase = Serving \<longrightarrow> (\<exists>t ts. inventory_targets (inventory_grpc_targets st) = t # ts
           \<and> st_inventory ap = Some \<lparr>is_target = ''dns:///'' @ t, is_deadline = grpc_deadline_seconds st\<rparr>)
         \<and> (\<exists>c. st_channel ap = Some c \<and> c \<noteq> SHUTDOWN))
    \<and> (phase \<noteq> Serving \<longrightarrow> st_channel ap \<in> {None, Some SHUTDOWN})
    \<and> (phase = StartFailed \<longrightarrow> inventory_targets (inventory_grpc_targets st) = [])
    \<and> (st_engine_disposed ap \<longrightarrow> phase = Exited)"
  have "?inv (phase, ap)"
    using assms
  proof (induction rule: rtranclp_induct)
    case base
    show ?case by (simp add: new_app_def)
  next
    case (step x y)
    from step(2,3) show ?case
      by cases (auto simp: lifespan_enter_def channel_target_def lifespan_exit_def Let_def
          split: option.splits list.splits)
  qed
  then show ?thesis by (auto simp: get_inventory_def app_readyz_def readyz_def Let_def)
qed

theorem app_serves_one_client_witness:
  "\<exists>ap. (app_step \<lparr>postgres = \<lparr>db_name = '''', db_user = '''', db_password = '''', db_host = '''', db_port = ''''\<rparr>,
      inventory_grpc_targets = ''inv:1, inv:2'', grpc_auth_token = '''', grpc_deadline_seconds = ()\<rparr>)\<^sup>*\<^sup>*
      (NotStarted, new_app) (Serving, ap) \<and> st_channel ap = Some TRANSIENT_FAILURE
    \<and> fst (app_readyz True ap) = 200 \<and> get_inventory ap = Inr \<lparr>is_target = ''dns:///inv:1'', is_deadline = ()\<rparr>"
proof -
  let ?st = "\<lparr>postgres = \<lparr>db_name = '''', db_user = '''', db_password = '''', db_host = '''', db_port = ''''\<rparr>,
      inventory_grpc_targets = ''inv:1, inv:2'', grpc_auth_token = '''', grpc_deadline_seconds = ()\<rparr>"
  have targets: "inventory_targets ''inv:1, inv:2'' = [''inv:1'', ''inv:2'']" by code_simp
  then obtain a where "lifespan_enter ?st new_app = Inr a"
    by (auto simp: lifespan_enter_def channel_target_def)
  then have "app_step ?st (NotStarted, new_app) (Serving, a)" by (rule app_step.enter)
  moreover have "app_step ?st (Serving, a) (Serving, a\<lparr>st_channel := Some TRANSIENT_FAILURE\<rparr>)"
    by (rule app_step.connectivity) simp
  ultimately have run: "(app_step ?st)\<^sup>*\<^sup>* (NotStarted, new_app) (Serving, a\<lparr>st_channel := Some TRANSIENT_FAILURE\<rparr>)"
    by (meson rtranclp.rtrancl_into_rtrancl rtranclp.rtrancl_refl)
  from app_serves_one_client [OF run] run show ?thesis
    by (intro exI [of _ "a\<lparr>st_channel := Some TRANSIENT_FAILURE\<rparr>"]) (simp add: targets)
qed


end
