(* ===== verification/DemoPage.thy ===== *)
theory DemoPage
  imports StockBridge
begin

text \<open>
  The page that \<^verbatim>\<open>modules/inventory/demo.py\<close> serves: what its script does with the text the
  user types, with the WebSocket, and with the updates that arrive. The browser (how a number
  prints, \<^verbatim>\<open>JSON.parse\<close>, the text of other values in a template, the time of day) is a
  parameter with the contract \<open>js_contract\<close>. The markup and the style of the page are static and
  left out.
\<close>

section \<open>The browser\<close>

text \<open>
  \<open>js_number\<close> is the text of the number that \<^verbatim>\<open>parseInt\<close> makes of an integer literal: a
  double, exact up to 2^53.
\<close>

record js =
  js_number :: "int \<Rightarrow> code_points"
  js_parse :: "code_points \<Rightarrow> json option"
  js_other :: "json \<Rightarrow> code_points"

definition safe_integer :: "int \<Rightarrow> bool" where
  "safe_integer n \<longleftrightarrow> \<bar>n\<bar> \<le> 2 ^ 53"

definition flat_value :: "json \<Rightarrow> bool" where
  "flat_value v = (case v of JStr _ \<Rightarrow> True | JInt n \<Rightarrow> safe_integer n | _ \<Rightarrow> False)"

definition js_contract :: "js \<Rightarrow> bool" where
  "js_contract b \<longleftrightarrow>
     (\<forall>n. safe_integer n \<longrightarrow> js_number b n = cps (str_int n))
     \<and> (\<forall>ms. list_all (flat_value \<circ> snd) ms \<longrightarrow> js_parse b (dumps (JObj ms)) = Some (JObj ms))"

section \<open>The page\<close>

datatype ready_state = WS_CONNECTING | WS_OPEN | WS_CLOSED

record page =
  pg_ready :: ready_state
  pg_status :: "code_points \<times> code_points"
  pg_log :: "code_points list"
  pg_sent :: "code_points list"

definition page_start :: page where
  "page_start = \<lparr>pg_ready = WS_CONNECTING, pg_status = (cps ''connecting'' @ [8230], cps ''closed''),
     pg_log = [], pg_sent = []\<rparr>"

definition span :: "code_points \<Rightarrow> code_points \<Rightarrow> code_points" where
  "span cls body = cps ''<span class='' @ 34 # cls @ 34 # 62 # body @ cps ''</span>''"

definition page_log :: "code_points \<Rightarrow> code_points \<Rightarrow> page \<Rightarrow> page" where
  "page_log time html p = p\<lparr>pg_log := pg_log p @ [span (cps ''meta'') time @ 32 # html]\<rparr>"

definition on_open :: "page \<Rightarrow> page" where
  "on_open p = p\<lparr>pg_ready := WS_OPEN, pg_status := (cps ''open'', cps ''open'')\<rparr>"

definition on_close :: "page \<Rightarrow> page" where
  "on_close p = p\<lparr>pg_ready := WS_CLOSED, pg_status := (cps ''closed'', cps ''closed'')\<rparr>"

definition on_error :: "code_points \<Rightarrow> page \<Rightarrow> page" where
  "on_error time = page_log time (span (cps ''changed'') (cps ''socket error''))"

definition on_clear :: "page \<Rightarrow> page" where
  "on_clear p = p\<lparr>pg_log := []\<rparr>"

text \<open>A value in a template; a member that is not there is \<^verbatim>\<open>undefined\<close>.\<close>

definition js_text :: "js \<Rightarrow> json option \<Rightarrow> code_points" where
  "js_text b v =
     (case v of
        None \<Rightarrow> cps ''undefined''
      | Some (JStr s) \<Rightarrow> s
      | Some (JInt n) \<Rightarrow> js_number b n
      | Some w \<Rightarrow> js_other b w)"

definition member :: "string \<Rightarrow> json \<Rightarrow> json option" where
  "member k u = (case u of JObj ms \<Rightarrow> member_of (cps k) ms | _ \<Rightarrow> None)"

text \<open>A frame that does not parse, or is \<^verbatim>\<open>null\<close>, raises and logs nothing.\<close>

definition on_message :: "js \<Rightarrow> code_points \<Rightarrow> code_points \<Rightarrow> page \<Rightarrow> page" where
  "on_message b time data p =
     (case js_parse b data of
        None \<Rightarrow> p
      | Some JNull \<Rightarrow> p
      | Some u \<Rightarrow>
          (let field = (\<lambda>k. js_text b (member k u)) in
           page_log time
             (span (field ''kind'') (91 # field ''kind'' @ [93]) @ cps '' #'' @ field ''product_id'' @ 32 #
              field ''sku'' @ cps '' ('' @ field ''name'' @ cps '') '' @ 8594 #
              cps '' <b>'' @ field ''available_quantity'' @ cps ''</b>'') p))"

section \<open>Commands\<close>

definition js_space :: "nat \<Rightarrow> bool" where
  "js_space c \<longleftrightarrow> c \<in> {9, 10, 11, 12, 13, 32, 160, 5760, 8232, 8233, 8239, 8287, 12288, 65279}
     \<or> 8192 \<le> c \<and> c \<le> 8202"

definition js_trim :: "code_points \<Rightarrow> code_points" where
  "js_trim s = rev (dropWhile js_space (rev (dropWhile js_space s)))"

text \<open>\<^verbatim>\<open>parseInt(s, 10)\<close>: space, a sign, the digits that follow; \<open>None\<close> is \<^verbatim>\<open>NaN\<close>.\<close>

definition parse_int :: "code_points \<Rightarrow> int option" where
  "parse_int s =
     (let t = dropWhile js_space s;
          (neg, r) = (case t of c # u \<Rightarrow> if c = 45 then (True, u) else if c = 43 then (False, u) else (False, t)
                      | [] \<Rightarrow> (False, []));
          ds = takeWhile is_digit r in
      if ds = [] then None else Some (if neg then - digits_value ds else digits_value ds))"

fun split_on :: "nat \<Rightarrow> code_points \<Rightarrow> code_points list" where
  "split_on x [] = [[]]"
| "split_on x (c # s) =
     (if c = x then [] # split_on x s
      else (case split_on x s of [] \<Rightarrow> [[c]] | t # ts \<Rightarrow> (c # t) # ts))"

definition parse_ids :: "code_points \<Rightarrow> int list" where
  "parse_ids typed = List.map_filter (\<lambda>s. parse_int (js_trim s)) (split_on 44 typed)"

definition action_label :: "watch_action \<Rightarrow> code_points" where
  "action_label a = cps (case a of SUBSCRIBE \<Rightarrow> ''subscribe'' | UNSUBSCRIBE \<Rightarrow> ''unsubscribe'')"

definition stringify_ids :: "js \<Rightarrow> int list \<Rightarrow> code_points" where
  "stringify_ids b ids = 91 # commas (map (js_number b) ids) @ [93]"

definition stringify_command :: "js \<Rightarrow> watch_action \<Rightarrow> int list \<Rightarrow> code_points" where
  "stringify_command b a ids =
     123 # quote (cps ''action'') @ 58 # quote (action_label a) @ 44 #
     quote (cps ''product_ids'') @ 58 # stringify_ids b ids @ [125]"

text \<open>
  A click: \<^verbatim>\<open>ws.send\<close> raises before the socket is open and discards silently once it is
  closed.
\<close>

definition send_click :: "js \<Rightarrow> code_points \<Rightarrow> watch_action \<Rightarrow> code_points \<Rightarrow> page \<Rightarrow> page" where
  "send_click b time a typed p =
     (let ids = parse_ids typed in
      if ids = [] then page_log time (cps ''enter one or more product ids first'') p
      else if pg_ready p = WS_CONNECTING then p
      else
        page_log time
          (span (cps ''meta'') (8594 # cps '' sent '' @ action_label a @ 32 # stringify_ids b ids))
          (if pg_ready p = WS_OPEN then p\<lparr>pg_sent := pg_sent p @ [stringify_command b a ids]\<rparr> else p))"

section \<open>What is typed and what is sent\<close>

text \<open>The characters of a printed integer.\<close>

lemma str_int_chars: "c \<in> set (cps (str_int n)) \<Longrightarrow> is_digit c \<or> c = 45"
  using str_nat_digits [of "nat \<bar>n\<bar>"] by (auto simp: str_int_def cps_def list_all_iff split: if_splits)

lemma str_int_not_Nil: "cps (str_int n) \<noteq> []"
  by (simp add: str_int_def cps_def)

lemma sign_or_digit: "is_digit c \<or> c = 45 \<Longrightarrow> \<not> js_space c \<and> c \<noteq> 44"
  by (auto simp: is_digit_def js_space_def)

lemma dropWhile_none: "(\<And>x. x \<in> set xs \<Longrightarrow> \<not> P x) \<Longrightarrow> dropWhile P xs = xs"
  by (cases xs) simp_all

lemma js_trim_str_int: "js_trim (cps (str_int n)) = cps (str_int n)"
proof -
  have none: "\<not> js_space c" if "c \<in> set (cps (str_int n))" for c
    using str_int_chars [OF that] sign_or_digit by blast
  have "dropWhile js_space (cps (str_int n)) = cps (str_int n)"
    "dropWhile js_space (rev (cps (str_int n))) = rev (cps (str_int n))"
    by (rule dropWhile_none, use none in auto)+
  then show ?thesis by (simp add: js_trim_def)
qed

lemma parse_int_digits:
  assumes "list_all is_digit ds" "ds \<noteq> []"
  shows "parse_int ds = Some (digits_value ds)" "parse_int (45 # ds) = Some (- digits_value ds)"
proof -
  have digits: "takeWhile is_digit ds = ds" using assms(1) by (simp only: list_all_iff takeWhile_eq_all_conv)
  obtain c cs where cs: "ds = c # cs" using assms(2) by (cases ds) auto
  then have c: "is_digit c" using assms(1) by simp
  then have "\<not> js_space c" "c \<noteq> 45" "c \<noteq> 43" by (auto simp: is_digit_def js_space_def)
  moreover have "takeWhile is_digit cs = cs" using digits c by (simp add: cs del: takeWhile_eq_all_conv)
  ultimately show "parse_int ds = Some (digits_value ds)"
    by (simp add: parse_int_def Let_def cs c del: takeWhile_eq_all_conv)
  have "\<not> js_space 45" by (simp add: js_space_def)
  then show "parse_int (45 # ds) = Some (- digits_value ds)"
    using assms(2) by (simp add: parse_int_def Let_def digits)
qed

lemma parse_int_str_int: "parse_int (cps (str_int n)) = Some n"
proof -
  have "cps (str_nat m) \<noteq> []" for m by (simp add: cps_def)
  note digits = parse_int_digits [OF str_nat_digits this]
  show ?thesis
  proof (cases "n < 0")
    case True
    then have "cps (str_int n) = 45 # cps (str_nat (nat (- n)))" by (simp add: str_int_def cps_def)
    with True show ?thesis by (simp add: digits str_nat_value)
  next
    case False
    then have "cps (str_int n) = cps (str_nat (nat n))" by (simp add: str_int_def)
    with False show ?thesis by (simp add: digits str_nat_value)
  qed
qed

lemma split_on_single: "x \<notin> set t \<Longrightarrow> split_on x t = [t]"
  by (induction t) auto

lemma split_on_more: "x \<notin> set t \<Longrightarrow> split_on x (t @ x # s) = t # split_on x s"
  by (induction t) auto

lemma split_on_commas: "ts \<noteq> [] \<Longrightarrow> \<forall>t \<in> set ts. 44 \<notin> set t \<Longrightarrow> split_on 44 (commas ts) = ts"
  by (induction ts rule: commas.induct) (simp_all add: split_on_single split_on_more)

lemma parse_ids_printed: "parse_ids (commas (map (\<lambda>n. cps (str_int n)) ids)) = ids"
proof (cases "ids = []")
  case True
  then show ?thesis by (simp add: parse_ids_def parse_int_def js_trim_def List.map_filter_simps)
next
  case False
  have "44 \<notin> set (cps (str_int n))" for n using str_int_chars sign_or_digit by blast
  with False have "split_on 44 (commas (map (\<lambda>n. cps (str_int n)) ids)) = map (\<lambda>n. cps (str_int n)) ids"
    by (intro split_on_commas) auto
  then show ?thesis
    by (simp add: parse_ids_def List.map_filter_def js_trim_str_int parse_int_str_int comp_def)
qed

text \<open>The frame is the JSON text of the command.\<close>

lemma stringify_command_dumps:
  assumes "js_contract b" "list_all safe_integer ids"
  shows "stringify_command b a ids = dumps (command_json \<lparr>wc_action = a, wc_product_ids = ids\<rparr>)"
proof -
  have "map (js_number b) ids = map (dumps \<circ> JInt) ids"
    using assms by (simp add: js_contract_def list_all_iff)
  then have "commas (map (js_number b) ids) = commas (map (dumps \<circ> JInt) ids)" by (rule arg_cong)
  moreover have "dumps (command_json \<lparr>wc_action = a, wc_product_ids = ids\<rparr>) = 123 # quote (cps ''action'') @ 58 #
      quote (action_label a) @ 44 # quote (cps ''product_ids'') @ 58 #
      (91 # commas (map (dumps \<circ> JInt) ids) @ [93]) @ [125]"
    by (simp add: command_json_def action_label_def)
  ultimately show ?thesis by (simp only: stringify_command_def stringify_ids_def)
qed

lemma safe_in_int64: "list_all safe_integer ids \<Longrightarrow> list_all in_int64 ids"
  by (auto simp: list_all_iff safe_integer_def in_int64_def abs_le_iff)

section \<open>Properties\<close>

text \<open>
  C39: from the input field to the servicer, for ids up to 2^53, which are exact as doubles. On an
  open socket, a list of such product ids that is typed in decimal and separated by commas is sent in
  one frame, and the bridge reads that frame as exactly the command of the button with exactly these
  ids. Whatever else is typed, as long as the ids that are recognised in it are such ids, a click
  sends at most one frame, none unless an id was recognised and the socket is open, and that frame is
  a valid command, never one the bridge reports or ends the session for. Larger ids the browser
  rounds, or sends as \<^verbatim>\<open>null\<close> when they exceed its range, and nothing is claimed of them.
\<close>

theorem demo_page_commands:
  assumes "js_contract b" "\<And>n. as_int (JInt n) = Some n" "list_all safe_integer (parse_ids typed)"
    and "list_all safe_integer ids" "ids \<noteq> []" "pg_ready p = WS_OPEN"
  shows "(\<exists>frame. pg_sent (send_click b time a (commas (map (\<lambda>n. cps (str_int n)) ids)) p) = pg_sent p @ [frame]
        \<and> judge as_int (TextFrame frame) = Command \<lparr>wc_action = a, wc_product_ids = ids\<rparr>)
    \<and> (\<forall>q. pg_sent (send_click b time a typed q) =
          pg_sent q @ (if parse_ids typed \<noteq> [] \<and> pg_ready q = WS_OPEN then [stringify_command b a (parse_ids typed)]
                       else []))
    \<and> judge as_int (TextFrame (stringify_command b a (parse_ids typed)))
        = Command \<lparr>wc_action = a, wc_product_ids = parse_ids typed\<rparr>"
proof -
  have judged: "judge as_int (TextFrame (stringify_command b a ns)) = Command \<lparr>wc_action = a, wc_product_ids = ns\<rparr>"
    if "list_all safe_integer ns" for ns
    using judge_command [where as_int = as_int and c = "\<lparr>wc_action = a, wc_product_ids = ns\<rparr>"]
      safe_in_int64 [OF that] assms(2) by (simp add: stringify_command_dumps [OF assms(1) that])
  have "pg_sent (send_click b time a typed' q) =
      pg_sent q @ (if parse_ids typed' \<noteq> [] \<and> pg_ready q = WS_OPEN then [stringify_command b a (parse_ids typed')]
                   else [])" for typed' q
    by (cases "pg_ready q") (simp_all add: send_click_def page_log_def Let_def)
  then show ?thesis using assms(5,6) judged [OF assms(3)] judged [OF assms(4)] by (simp add: parse_ids_printed)
qed

text \<open>
  An update arrives. The frame that the bridge sends for it adds one line to the log, with its
  kind, its product and its quantity; the SKU and the name stand in it as they are, so markup in a
  product's name becomes markup of the page.
\<close>

theorem demo_page_updates:
  assumes "js_contract b" "safe_integer (su_product_id u)" "safe_integer (su_available_quantity u)"
  shows "on_message b time (dumps (message_json errors (UpdateFrame u))) p =
    page_log time (let k = cps (UPDATE_KIND_LABELS (su_kind u)) in
      span k (91 # k @ [93]) @ cps '' #'' @ cps (str_int (su_product_id u)) @ 32 #
      cps (su_sku u) @ cps '' ('' @ cps (su_name u) @ cps '') '' @ 8594 #
      cps '' <b>'' @ cps (str_int (su_available_quantity u)) @ cps ''</b>'') p"
proof -
  let ?ms = "[(cps ''product_id'', JInt (su_product_id u)), (cps ''sku'', JStr (cps (su_sku u))),
      (cps ''name'', JStr (cps (su_name u))), (cps ''available_quantity'', JInt (su_available_quantity u)),
      (cps ''kind'', JStr (cps (UPDATE_KIND_LABELS (su_kind u))))]"
  have "js_parse b (dumps (JObj ?ms)) = Some (JObj ?ms)"
    using assms unfolding js_contract_def by (simp add: flat_value_def del: dumps.simps)
  moreover have "member ''kind'' (JObj ?ms) = Some (JStr (cps (UPDATE_KIND_LABELS (su_kind u))))"
    "member ''product_id'' (JObj ?ms) = Some (JInt (su_product_id u))"
    "member ''sku'' (JObj ?ms) = Some (JStr (cps (su_sku u)))"
    "member ''name'' (JObj ?ms) = Some (JStr (cps (su_name u)))"
    "member ''available_quantity'' (JObj ?ms) = Some (JInt (su_available_quantity u))"
    by (simp_all add: member_def member_of_def cps_def)
  ultimately show ?thesis
    using assms by (simp add: on_message_def message_json_def StockUpdateOut_def js_text_def js_contract_def Let_def del: dumps.simps)
qed

definition demo_js :: js where
  "demo_js = \<lparr>js_number = (\<lambda>n. cps (str_int n)), js_parse = loads, js_other = (\<lambda>_. [])\<rparr>"

lemma demo_js_contract: "js_contract demo_js"
proof -
  have "printable v" if "flat_value v" for v
    using that str_int_fits by (cases v) (auto simp: flat_value_def safe_integer_def abs_le_iff)
  then have "printable (JObj ms)" if "list_all (flat_value \<circ> snd) ms" for ms
    using that by (auto simp: list_all_iff)
  then show ?thesis unfolding js_contract_def demo_js_def by (simp add: loads_dumps del: dumps.simps)
qed

theorem demo_page_commands_witness:
  "\<exists>frame. pg_sent (send_click demo_js [] SUBSCRIBE (cps ''1,2'') (on_open page_start)) = [frame]
    \<and> judge strict_int (TextFrame frame) = Command \<lparr>wc_action = SUBSCRIBE, wc_product_ids = [1, 2]\<rparr>"
proof -
  have typed: "commas (map (\<lambda>n. cps (str_int n)) [1, 2]) = cps ''1,2''"
    by (simp add: cps_def str_int_def str_nat.simps)
  have "parse_ids (cps ''x'') = []"
    by (simp add: parse_ids_def js_trim_def js_space_def cps_def parse_int_def is_digit_def List.map_filter_simps)
  then have "list_all safe_integer (parse_ids (cps ''x''))" by simp
  moreover have "list_all safe_integer [1, 2]" by (simp add: safe_integer_def)
  moreover have "pg_ready (on_open page_start) = WS_OPEN" "pg_sent (on_open page_start) = []"
    by (simp_all add: on_open_def page_start_def)
  ultimately show ?thesis
    using demo_page_commands [OF demo_js_contract, of strict_int "cps ''x''" "[1, 2]" "on_open page_start" "[]" SUBSCRIBE]
    unfolding typed by auto
qed

theorem demo_page_updates_witness:
  "pg_log (on_message demo_js [] (dumps (message_json id (UpdateFrame
      \<lparr>su_product_id = 3, su_sku = ''S'', su_name = ''<i>'', su_available_quantity = 7, su_kind = CHANGED\<rparr>))) page_start)
    = [span (cps ''meta'') [] @ 32 # span (cps ''changed'') (cps ''[changed]'') @ cps '' #3 S (<i>) '' @ 8594 # cps '' <b>7</b>'']"
  using demo_page_updates [OF demo_js_contract, of "\<lparr>su_product_id = 3, su_sku = ''S'', su_name = ''<i>'',
      su_available_quantity = 7, su_kind = CHANGED\<rparr>" "[]" id page_start]
  by (simp add: safe_integer_def page_log_def page_start_def UPDATE_KIND_LABELS_def cps_def str_int_def
      str_nat.simps Let_def)

end
