(* ===== verification/Spec2Isabelle.thy ===== *)
theory Spec2Isabelle
  imports InventorySerial OrderRace OrderBulk LowStockApi LiveStock SeedData
    ServerPools MigrationEnv OrderApp DemoPage
begin

text \<open>
  OrderFlow: two services and their databases, coordinated over gRPC.

  \<^bold>\<open>The program.\<close> The order service (\<^verbatim>\<open>src/order-service/app\<close>, FastAPI) is the public edge: it
  takes orders over REST, reserves their stock with the inventory service, persists them in its
  own database, and fronts two streaming reads of the stock. The inventory service
  (\<^verbatim>\<open>src/inventory-service\<close>, Django ORM behind a gRPC server) owns the products and the
  reservations. The databases share nothing but the order reference, so the consistency of an
  order with its held stock rests on a saga: reserve, persist, and release when persisting
  fails. The contract between the services is \<^verbatim>\<open>src/proto/order_inventory.proto\<close>.

  \<^bold>\<open>Reading order\<close>, with the code each theory models.

  \<^item> \<open>Prelude\<close>, \<open>ServiceMachines\<close>: results with errors, decimal printing, sums; locales that
    lift a contract of one request to sequences of requests.
  \<^item> \<open>InventoryModels\<close> (\<^verbatim>\<open>inventory_app/models.py\<close> and its migrations): the record
    \<open>inventory_db\<close> of product and reservation rows, the id sequence and the notifications; one
    definition per statement the services issue, with the constraints that can fail; the
    invariant \<open>db_ok\<close>. \<open>SeedData\<close>: the data migration 0002.
  \<^item> \<open>ReserveStock\<close>, \<open>ReleaseStock\<close>, \<open>StockQueries\<close> (\<^verbatim>\<open>inventory_app/services.py\<close>): each
    function as a transaction on the database, with its rollback and its error values.
    \<open>InventoryLedger\<close> states what the write path promises, without rows and loops, and that the
    functions implement it, request by request and over any sequence.
  \<^item> \<open>InventoryRace\<close>: the same two functions as transactions that run concurrently, one step per
    SQL statement, under PostgreSQL's row locks at \<^verbatim>\<open>READ COMMITTED\<close>. \<open>InventoryLocking\<close> and
    \<open>InventoryIsolation\<close> show that no transaction notices the steps of the others,
    \<open>InventoryConcurrency\<close> that nothing is oversold, that there is no deadlock and that runs end,
    \<open>InventorySerial\<close> that the ledger, run on the requests in the order in which they ended,
    explains their replies.
  \<^item> \<open>GrpcMessages\<close> (the proto messages and status codes), \<open>Servicer\<close>
    (\<^verbatim>\<open>grpc_server/servicer.py\<close>: the unary handlers, the client-streaming and the
    server-streaming one), \<open>ServerInterceptors\<close> (\<^verbatim>\<open>grpc_server/interceptors.py\<close>).
  \<^item> \<open>StockNotifications\<close> (\<^verbatim>\<open>grpc_server/notifications.py\<close> and the trigger of migration 0003),
    \<open>StockWatch\<close> (the bidirectional \<^verbatim>\<open>WatchStock\<close>): the reader thread, the listener thread and
    the generator as step relations over one state, interleaved with the writers of the shop.
  \<^item> \<open>GrpcClient\<close> (\<^verbatim>\<open>app/grpc_client\<close>): requests, the auth header, the retry policy, and the
    path of a call through network, interceptors and servicer. The network decides how far each
    attempt gets. \<open>InventoryContract\<close> is what the order service relies on, as locales;
    \<open>RemoteInventory\<close> proves it of the deployed inventory.
  \<^item> \<open>OrderModels\<close> (\<^verbatim>\<open>modules/orders/models.py\<close> and its migration), \<open>OrderService\<close>
    (\<^verbatim>\<open>modules/orders/service.py\<close>), \<open>OrderRouter\<close> (\<^verbatim>\<open>router.py\<close>, \<^verbatim>\<open>schemas.py\<close>): lookup, reserve
    phase, persist phase, compensation, and the three endpoints.
  \<^item> \<open>OrderSaga\<close> and \<open>OrderBulk\<close>: the properties of the order path over sequences of requests;
    \<open>OrderRace\<close>: the same requests as concurrent tasks that interleave where they await.
  \<^item> \<open>Json\<close>, \<open>JsonPrint\<close>: Python's \<^verbatim>\<open>json.loads\<close> and its compact \<^verbatim>\<open>json.dumps\<close>, with the round
    trip. \<open>LowStockApi\<close> and \<open>StockBridge\<close> (\<^verbatim>\<open>modules/inventory\<close>): the NDJSON re-streaming of
    \<^verbatim>\<open>GET /low-stock\<close>, and the WebSocket bridge as a step relation of its tasks. \<open>LiveStock\<close> joins
    the bridge, the call (\<^verbatim>\<open>watch_stock\<close> of the client) and \<open>StockWatch\<close>: live stock end to end.
    \<open>DemoPage\<close>: the script of the page that drives the bridge from a browser.
  \<^item> \<open>ServiceConfig\<close>: the settings of both services, the channel target, the health status over
    the life of the server process, and readiness. \<open>ServerPools\<close> (\<^verbatim>\<open>grpc_server/server.py\<close>,
    \<^verbatim>\<open>healthcheck.py\<close>): the start of the server, its executors with their waiting and running
    calls as a step relation, and the probe as one of the calls. A call that streams holds its
    worker for as long as it is open; the settings module that the environment may name in place
    of the repository's own is a parameter. \<open>OrderApp\<close> (\<^verbatim>\<open>main.py\<close>,
    \<^verbatim>\<open>api_v1.py\<close>, \<^verbatim>\<open>deps.py\<close>): the life of the shared objects, the routes, the body of an order. \<open>MigrationEnv\<close>
    (\<^verbatim>\<open>alembic/env.py\<close>): the address through the option parser, and the runs.

  \<^bold>\<open>Conventions.\<close> An exception is the left side of a sum, with one constructor per class that the
  code distinguishes. A transaction is a function of the database that is dropped when it rolls
  back. What the outside decides (network fates, failing commits and lookups, clocks, uuids,
  collation, when a client cancels) is an argument. Integers are unbounded, as in Python; the
  ranges of database columns and message fields are written out where a value crosses them
  (\<open>max_int4\<close>, \<open>in_int32\<close>, \<open>in_int64\<close>). Strings are lists of 8-bit characters, so the one dash
  outside of them, in the detail of a 400 of \<open>OrderRouter\<close>, is written as a hyphen; JSON texts are
  lists of code points, because a JSON escape can name any. Texts that go to the database contain
  no NUL character, which the driver refuses in any statement.

  \<^bold>\<open>Liveness.\<close> \<open>StockWatch\<close> and \<open>LiveStock\<close> tell the steady steps of the threads and tasks from a
  disturbance (a lost connection, a failed query, a closed socket). Delivery is stated of the
  steady steps alone: they lead from every state to one that is caught up, and so does every fair
  run of them, one that goes on as long as a thread has work.

  \<^bold>\<open>The lemma groups.\<close> Each service function has a closed form (\<open>reserve_line_cases\<close>,
  \<open>release_line_put\<close>, \<open>server_call_eq\<close>, \<open>service_stream_low_stock_eq\<close>) from which its properties
  follow, and an invariant lemma. Client lemmas are proved inside a locale over the contract
  (\<open>inventory_contract\<close>, \<open>reliable_inventory\<close>, \<open>announcing_store\<close>, \<open>guarded_machine\<close>,
  \<open>json_lines\<close>) and reach the properties through its interpretation on the model. Step relations
  come with one preservation lemma per part of the invariant and a measure that bounds their runs.

  \<^bold>\<open>Bounds and fuel.\<close> The JSON scanner runs on fuel \<open>2 * length s + 1\<close>, and more fuel gives the
  same result (\<open>scan_fuel\<close>). A reservation is attempted at most 4 times, as configured. Four steps
  complete a request of the order service (\<open>run_task_create_order\<close>). The bridge comes to rest
  within \<open>bridge_work\<close> steps, concurrent inventory requests within \<open>run_bound\<close> statements, and the
  workers of the server within \<open>work_left\<close> steps. What the threads of a watch, and the two ends of
  a live session, have left to do falls in a well-founded order (\<open>watch_left\<close>, \<open>live_left\<close>): each
  bounds no number of steps, because a resync queues as much as is watched. Uuids are drawn below \<open>2 ^ 128\<close>,
  where their text is injective. The demo page's ids are exact up to \<open>2 ^ 53\<close>, the integers of a
  double. Python's limit of 4300 digits for integers in texts is part of the JSON model and of
  the settings.

  \<^bold>\<open>Transactions.\<close> Under row locks a statement waits, it never fails for a lock; time-outs and
  lost connections are not modelled, and \<^verbatim>\<open>SELECT FOR UPDATE\<close> takes the locks on its rows at once,
  where PostgreSQL takes them one by one in the order of the result. The serializability theorem
  needs that no release runs next to a request for the same order reference: a release selects
  its rows when it starts and does not see lines that commit for its reference later. It is what
  allows \<open>OrderRace\<close>, where each inventory call is one step, to treat the calls as atomic when the
  orders have different keys: a task releases only the reference whose reservation it has finished.

  \<^bold>\<open>Not modelled.\<close> The libraries: Django's and SQLAlchemy's SQL generation, FastAPI's and
  pydantic's parsing (their contracts are parameters), grpc's transport, the browser. Keepalive
  options, latencies and the texts of log lines. Time: deadlines and the grace period are steps
  that the outside takes. The markup and style of the demonstration page; the logging set-up of
  the Alembic environment and the command line, which hand over to the framework; the locale part
  of the Django settings, which are constants for it. Unknown enum values, which proto3 lets
  through. Non-text WebSocket frames.
\<close>

end
